(* ===== verification/Prelude.thy ===== *)
theory Prelude
  imports Complex_Main "HOL-Library.Word" "HOL-Library.Monad_Syntax" "HOL-Library.Code_Target_Nat"
begin

text \<open>
  The shared vocabulary of the development: the machine integers of \<open>partovdef.h\<close>, the
  byte-order conversions of \<open>arpa/inet.h\<close> on the little-endian host that
  \<open>user/sr_protocol.h\<close> selects, decimal printing as \<open>operator<<\<close> does it, loops over an index
  range whose body may be undefined, and the collections of rewrite rules the components share.

  Throughout the development the value \<open>None\<close> of a result \<open>'a option\<close> stands for behaviour
  the C++ standard leaves undefined: a load or store outside the object, the use of a null
  pointer, the overflow of a signed counter.
\<close>

unbundle bit_operations_syntax

named_theorems mem_simps \<open>loads, stores and lengths of byte buffers\<close>
named_theorems wire_simps \<open>byte order and the bytes of machine integers\<close>
named_theorems loop_simps \<open>loops over index ranges\<close>

section \<open>Machine integers\<close>

declare of_nat_unat [simp del]

lemma of_nat_unat_id [simp]: "of_nat (unat w) = w"
  by (simp add: word_unat_eq_iff unat_of_nat)

type_synonym u8 = "8 word"
type_synonym u16 = "16 word"
type_synonym u32 = "32 word"
type_synonym u64 = "64 word"

abbreviation u16_max :: u16 where "u16_max \<equiv> 65535"

definition byte_of :: "nat \<Rightarrow> 'a::len word \<Rightarrow> u8" where
  "byte_of k w = of_nat (unat w div 2 ^ (8 * k))"

lemma unat_byte_of: "unat (byte_of k w) = (unat w div 2 ^ (8 * k)) mod 256"
  by (simp add: byte_of_def unat_of_nat)

text \<open>The bytes of an integer in memory order, for the little-endian host.\<close>

definition le16 :: "u8 \<Rightarrow> u8 \<Rightarrow> u16" where
  "le16 a b = of_nat (unat a + 256 * unat b)"

definition le32 :: "u8 \<Rightarrow> u8 \<Rightarrow> u8 \<Rightarrow> u8 \<Rightarrow> u32" where
  "le32 a b c d = of_nat (unat a + 256 * unat b + 65536 * unat c + 16777216 * unat d)"

definition bytes16 :: "u16 \<Rightarrow> u8 list" where
  "bytes16 w = [byte_of 0 w, byte_of 1 w]"

definition bytes32 :: "u32 \<Rightarrow> u8 list" where
  "bytes32 w = [byte_of 0 w, byte_of 1 w, byte_of 2 w, byte_of 3 w]"

definition bytes64 :: "u64 \<Rightarrow> u8 list" where
  "bytes64 w = map (\<lambda>k. byte_of k w) [0..<8]"

lemma length_bytes [simp]:
  "length (bytes16 w) = 2" "length (bytes32 x) = 4" "length (bytes64 y) = 8"
  by (simp_all add: bytes16_def bytes32_def bytes64_def)

lemma unat_u8_less: "unat (b :: u8) < 256"
  using unsigned_less [of b, where ?'a = nat] by simp

lemma unat_u16_less: "unat (w :: u16) < 65536"
  using unsigned_less [of w, where ?'a = nat] by simp

lemma unat_u32_less: "unat (w :: u32) < 4294967296"
  using unsigned_less [of w, where ?'a = nat] by simp

lemma unat_u8_le: "unat (b :: u8) \<le> 255"
  using unat_u8_less [of b] by linarith

lemma unat_u16_le: "unat (w :: u16) \<le> 65535"
  using unat_u16_less [of w] by linarith

lemma unat_of_nat_less: "n < 2 ^ LENGTH('a) \<Longrightarrow> unat (of_nat n :: 'a::len word) = n"
  by (simp add: unat_of_nat)

lemma unat_le16: "unat (le16 a b) = unat a + 256 * unat b"
  unfolding le16_def using unat_u8_less [of a] unat_u8_less [of b]
  by (intro unat_of_nat_less) simp

lemma unat_le32:
  "unat (le32 a b c d) = unat a + 256 * unat b + 65536 * unat c + 16777216 * unat d"
  unfolding le32_def
  using unat_u8_less [of a] unat_u8_less [of b] unat_u8_less [of c] unat_u8_less [of d]
  by (intro unat_of_nat_less) simp

lemma div_digit: "y < m \<Longrightarrow> (y + m * x) div m = x" for m :: nat
  by simp

lemma mod_digit: "y < m \<Longrightarrow> (y + m * x) mod m = y" for m :: nat
  by simp

lemma byte_of_le16 [wire_simps]:
  "byte_of 0 (le16 a b) = a" "byte_of (Suc 0) (le16 a b) = b"
  using unat_u8_less [of a] unat_u8_less [of b]
  by (simp_all add: word_unat_eq_iff unat_byte_of unat_le16 mod_digit div_digit)

lemma byte_of_le32 [wire_simps]:
  "byte_of 0 (le32 a b c d) = a" "byte_of (Suc 0) (le32 a b c d) = b"
  "byte_of 2 (le32 a b c d) = c" "byte_of 3 (le32 a b c d) = d"
proof -
  let ?a = "unat a" let ?b = "unat b" let ?c = "unat c" let ?d = "unat d"
  let ?n = "?a + 256 * ?b + 65536 * ?c + 16777216 * ?d"
  have lt: "?a < 256" "?a + 256 * ?b < 65536" "?a + 256 * ?b + 65536 * ?c < 16777216"
    using unat_u8_less [of a] unat_u8_less [of b] unat_u8_less [of c] by linarith+
  have n: "?n = ?a + 256 * (?b + 256 * (?c + 256 * ?d))"
    "?n = (?a + 256 * ?b) + 65536 * (?c + 256 * ?d)"
    "?n = (?a + 256 * ?b + 65536 * ?c) + 16777216 * ?d" by simp_all
  have "?n mod 256 = ?a" by (subst n(1), rule mod_digit [OF lt(1)])
  moreover have "?n div 256 mod 256 = ?b"
    by (subst n(1), subst div_digit [OF lt(1)], rule mod_digit [OF unat_u8_less])
  moreover have "?n div 65536 mod 256 = ?c"
    by (subst n(2), subst div_digit [OF lt(2)], rule mod_digit [OF unat_u8_less])
  moreover have "?n div 16777216 mod 256 = ?d"
    by (subst n(3), subst div_digit [OF lt(3)], rule mod_less [OF unat_u8_less])
  ultimately show "byte_of 0 (le32 a b c d) = a" "byte_of (Suc 0) (le32 a b c d) = b"
    "byte_of 2 (le32 a b c d) = c" "byte_of 3 (le32 a b c d) = d"
    by (simp_all add: word_unat_eq_iff unat_byte_of unat_le32)
qed

lemma le16_bytes [wire_simps]: "le16 (byte_of 0 w) (byte_of (Suc 0) w) = w"
proof -
  have "unat w div 256 < 256" using unat_u16_less [of w] by (simp add: less_mult_imp_div_less)
  then show ?thesis by (simp add: word_unat_eq_iff unat_le16 unat_byte_of)
qed

lemma le32_bytes [wire_simps]:
  "le32 (byte_of 0 w) (byte_of (Suc 0) w) (byte_of 2 w) (byte_of 3 w) = w"
proof -
  let ?n = "unat w"
  have top: "?n div 16777216 < 256"
    using unat_u32_less [of w] by (simp add: less_mult_imp_div_less)
  have "?n = ?n mod 256 + 256 * (?n div 256 mod 256) + 65536 * (?n div 65536 mod 256)
      + 16777216 * (?n div 16777216)"
    using mod_mult2_eq [of ?n 256 256] mod_mult2_eq [of ?n 65536 256]
      mult_div_mod_eq [of 16777216 ?n] by simp
  with top show ?thesis by (simp add: word_unat_eq_iff unat_le32 unat_byte_of)
qed

section \<open>Network byte order\<close>

text \<open>\<open>htons\<close>/\<open>ntohs\<close> and \<open>htonl\<close>/\<open>ntohl\<close> swap the bytes on a little-endian host.\<close>

definition htons :: "u16 \<Rightarrow> u16" where
  "htons w = le16 (byte_of 1 w) (byte_of 0 w)"

definition htonl :: "u32 \<Rightarrow> u32" where
  "htonl w = le32 (byte_of 3 w) (byte_of 2 w) (byte_of 1 w) (byte_of 0 w)"

abbreviation ntohs :: "u16 \<Rightarrow> u16" where "ntohs \<equiv> htons"
abbreviation ntohl :: "u32 \<Rightarrow> u32" where "ntohl \<equiv> htonl"

lemma htons_htons [simp]: "htons (htons w) = w"
  by (simp add: htons_def wire_simps)

lemma htonl_htonl [simp]: "htonl (htonl w) = w"
  by (simp add: htonl_def wire_simps)

lemma htons_inj [simp]: "htons a = htons b \<longleftrightarrow> a = b"
  by (metis htons_htons)

lemma htonl_inj [simp]: "htonl a = htonl b \<longleftrightarrow> a = b"
  by (metis htonl_htonl)

lemma bytes16_htons [wire_simps]: "bytes16 (htons w) = [byte_of 1 w, byte_of 0 w]"
  by (simp add: bytes16_def htons_def wire_simps)

lemma bytes32_htonl [wire_simps]:
  "bytes32 (htonl w) = [byte_of 3 w, byte_of 2 w, byte_of 1 w, byte_of 0 w]"
  by (simp add: bytes32_def htonl_def wire_simps)

lemma byte_of_htons [wire_simps]:
  "byte_of 0 (htons w) = byte_of (Suc 0) w" "byte_of (Suc 0) (htons w) = byte_of 0 w"
  by (simp_all add: htons_def wire_simps)

lemma byte_of_htonl [wire_simps]:
  "byte_of 0 (htonl x) = byte_of 3 x" "byte_of (Suc 0) (htonl x) = byte_of 2 x"
  "byte_of 2 (htonl x) = byte_of (Suc 0) x" "byte_of 3 (htonl x) = byte_of 0 x"
  by (simp_all add: htonl_def wire_simps)

lemma byte_of_0 [wire_simps]: "byte_of k 0 = 0"
  by (simp add: byte_of_def)

lemma unat_htons: "unat (htons w) = unat w div 256 + 256 * (unat w mod 256)"
proof -
  have "unat w div 256 < 256" using unat_u16_less [of w] by (simp add: less_mult_imp_div_less)
  then show ?thesis by (simp add: htons_def unat_le16 unat_byte_of)
qed

section \<open>Signed counters\<close>

text \<open>\<open>x++\<close> on an \<open>int\<close>: undefined at \<open>INT_MAX\<close>.\<close>

definition incr_int :: "int \<Rightarrow> int option" where
  "incr_int x = (if x < 2147483647 then Some (x + 1) else None)"

text \<open>The conversion of an \<open>int\<close> to \<open>size_t\<close> in a mixed comparison.\<close>

definition size_of_int :: "int \<Rightarrow> int" where
  "size_of_int i = i mod 18446744073709551616"

lemma size_of_int_nonneg [simp]:
  "0 \<le> i \<Longrightarrow> i < 18446744073709551616 \<Longrightarrow> size_of_int i = i"
  by (simp add: size_of_int_def)

text \<open>\<open>duration_cast\<close> divides and truncates towards zero.\<close>

definition trunc_div :: "int \<Rightarrow> int \<Rightarrow> int" where
  "trunc_div a b = sgn a * sgn b * (\<bar>a\<bar> div \<bar>b\<bar>)"

section \<open>Decimal text\<close>

definition digit_char :: "nat \<Rightarrow> char" where
  "digit_char d = char_of (48 + d)"

text \<open>\<open>operator<<\<close> of an unsigned integer: its decimal digits, most significant first.\<close>

fun show_nat :: "nat \<Rightarrow> string" where
  "show_nat n = (if n < 10 then [digit_char n] else show_nat (n div 10) @ [digit_char (n mod 10)])"

declare show_nat.simps [simp del]

definition show_int :: "int \<Rightarrow> string" where
  "show_int i = (if i < 0 then CHR ''-'' # show_nat (nat (- i)) else show_nat (nat i))"

section \<open>Loops with an undefined body\<close>

text \<open>
  \<open>for (i : xs) body(i)\<close> on an explicit state; the loop is undefined as soon as its body is.
\<close>

fun foldM :: "('a \<Rightarrow> 's \<Rightarrow> 's option) \<Rightarrow> 'a list \<Rightarrow> 's \<Rightarrow> 's option" where
  "foldM f [] s = Some s"
| "foldM f (x # xs) s = do { s' \<leftarrow> f x s; foldM f xs s' }"

lemma foldM_append [loop_simps]:
  "foldM f (xs @ ys) s = do { s' \<leftarrow> foldM f xs s; foldM f ys s' }"
  by (induction xs arbitrary: s) (auto split: Option.bind_splits)

lemma foldM_inv:
  assumes "\<And>x s s'. x \<in> set xs \<Longrightarrow> P s \<Longrightarrow> f x s = Some s' \<Longrightarrow> P s'"
    and "P s" and "foldM f xs s = Some s'"
  shows "P s'"
  using assms
proof (induction xs arbitrary: s)
  case Nil
  then show ?case by simp
next
  case (Cons x xs)
  then obtain t where t: "f x s = Some t" "foldM f xs t = Some s'"
    by (auto simp: Option.bind_eq_Some_conv)
  moreover have "P t" using Cons.prems t by (metis list.set_intros(1))
  ultimately show ?case using Cons.IH [of t] Cons.prems(1) by (metis list.set_intros(2))
qed

lemma foldM_total:
  assumes "\<And>x s. x \<in> set xs \<Longrightarrow> P s \<Longrightarrow> \<exists>s'. f x s = Some s' \<and> P s'"
    and "P s"
  shows "\<exists>s'. foldM f xs s = Some s' \<and> P s'"
  using assms
proof (induction xs arbitrary: s)
  case Nil
  then show ?case by simp
next
  case (Cons x xs)
  then obtain t where t: "f x s = Some t" "P t" by (metis list.set_intros(1))
  then obtain s' where "foldM f xs t = Some s' \<and> P s'"
    using Cons.IH [of t] Cons.prems(1) by (metis list.set_intros(2))
  with t show ?case by auto
qed

lemma foldM_Some [loop_simps]: "foldM (\<lambda>x s. Some (g x s)) xs s = Some (fold g xs s)"
  by (induction xs arbitrary: s) auto

text \<open>
  A loop that only rewrites the array cell of its own index rewrites each cell of the range
  once, whatever the order.
\<close>

lemma fold_upd_cell:
  "distinct xs \<Longrightarrow> fold (\<lambda>i a. a(i := g (a i))) xs a i = (if i \<in> set xs then g (a i) else a i)"
  by (induction xs arbitrary: a) auto

end
