(* ===== verification/Memory.thy ===== *)
theory Memory
  imports Prelude
begin

text \<open>
  Byte buffers: what a \<open>byte *\<close> of the program may read and write. A buffer is the list of the
  bytes of one allocation; a load or store that leaves it is undefined (\<open>None\<close>). The multi-byte
  accesses are the host's (little-endian), as the code's casts of a \<open>byte *\<close> to \<open>uint16_t *\<close> or
  \<open>uint32_t *\<close> make them; \<open>memcpy\<close> copies bytes.

  The locale \<open>byte_codec\<close> is the contract between the typed accesses and the buffer: an encoding
  of fixed width that decodes to the value encoded. Its lemmas are the read-over-write laws of a
  struct field; it is interpreted for the 16- and 32-bit accesses in host and in network order.
\<close>

section \<open>Loads and stores\<close>

definition load_bytes :: "u8 list \<Rightarrow> nat \<Rightarrow> nat \<Rightarrow> u8 list option" where
  "load_bytes m i n = (if i + n \<le> length m then Some (take n (drop i m)) else None)"

definition store_bytes :: "u8 list \<Rightarrow> nat \<Rightarrow> u8 list \<Rightarrow> u8 list option" where
  "store_bytes m i bs =
     (if i + length bs \<le> length m then Some (take i m @ bs @ drop (i + length bs) m) else None)"

definition dec8 :: "u8 list \<Rightarrow> u8" where
  "dec8 bs = bs ! 0"

definition dec16 :: "u8 list \<Rightarrow> u16" where
  "dec16 bs = le16 (bs ! 0) (bs ! 1)"

definition dec32 :: "u8 list \<Rightarrow> u32" where
  "dec32 bs = le32 (bs ! 0) (bs ! 1) (bs ! 2) (bs ! 3)"

definition load8 :: "u8 list \<Rightarrow> nat \<Rightarrow> u8 option" where
  "load8 m i = map_option dec8 (load_bytes m i 1)"

definition load16 :: "u8 list \<Rightarrow> nat \<Rightarrow> u16 option" where
  "load16 m i = map_option dec16 (load_bytes m i 2)"

definition load32 :: "u8 list \<Rightarrow> nat \<Rightarrow> u32 option" where
  "load32 m i = map_option dec32 (load_bytes m i 4)"

definition store8 :: "u8 list \<Rightarrow> nat \<Rightarrow> u8 \<Rightarrow> u8 list option" where
  "store8 m i v = store_bytes m i [v]"

definition store16 :: "u8 list \<Rightarrow> nat \<Rightarrow> u16 \<Rightarrow> u8 list option" where
  "store16 m i v = store_bytes m i (bytes16 v)"

definition store32 :: "u8 list \<Rightarrow> nat \<Rightarrow> u32 \<Rightarrow> u8 list option" where
  "store32 m i v = store_bytes m i (bytes32 v)"

definition memcpy :: "u8 list \<Rightarrow> nat \<Rightarrow> u8 list \<Rightarrow> nat \<Rightarrow> nat \<Rightarrow> u8 list option" where
  "memcpy dst i src j n = do { bs \<leftarrow> load_bytes src j n; store_bytes dst i bs }"

text \<open>
  \<open>new byte[n]\<close>: the \<open>n\<close> bytes hold whatever the allocator left there, a function \<open>junk\<close> of
  the position.
\<close>

definition fresh :: "(nat \<Rightarrow> u8) \<Rightarrow> nat \<Rightarrow> u8 list" where
  "fresh junk n = map junk [0..<n]"

lemma length_fresh [simp]: "length (fresh junk n) = n"
  by (simp add: fresh_def)

section \<open>The laws of the buffer\<close>

lemma store_bytes_length [mem_simps]:
  "store_bytes m i bs = Some m' \<Longrightarrow> length m' = length m"
  by (auto simp: store_bytes_def split: if_splits)

lemma load_bytes_length [mem_simps]: "load_bytes m i n = Some bs \<Longrightarrow> length bs = n"
  by (auto simp: load_bytes_def split: if_splits)

lemma store_bytes_defined [mem_simps]:
  "(\<exists>m'. store_bytes m i bs = Some m') \<longleftrightarrow> i + length bs \<le> length m"
  by (simp add: store_bytes_def)

lemma load_bytes_defined [mem_simps]:
  "(\<exists>bs. load_bytes m i n = Some bs) \<longleftrightarrow> i + n \<le> length m"
  by (simp add: load_bytes_def)

lemma load_store_same:
  "store_bytes m i bs = Some m' \<Longrightarrow> load_bytes m' i (length bs) = Some bs"
  by (auto simp: store_bytes_def load_bytes_def split: if_splits)

lemma load_store_other:
  assumes "store_bytes m i bs = Some m'" and "j + n \<le> i \<or> i + length bs \<le> j"
  shows "load_bytes m' j n = load_bytes m j n"
proof -
  have i: "i + length bs \<le> length m" and m': "m' = take i m @ bs @ drop (i + length bs) m"
    using assms(1) by (auto simp: store_bytes_def split: if_splits)
  have "take n (drop j m') = take n (drop j m)" if "j + n \<le> length m"
    using assms(2)
  proof
    assume "j + n \<le> i"
    then show ?thesis using i by (simp add: m' take_drop min_def)
  next
    assume j: "i + length bs \<le> j"
    then have "drop (j - i - length bs) (drop (i + length bs) m) = drop j m"
      by simp
    with i j show ?thesis by (simp add: m')
  qed
  then show ?thesis using assms(1) by (simp add: load_bytes_def store_bytes_length)
qed

text \<open>Stores into the front part of a buffer leave the rest alone.\<close>

lemma store_bytes_front:
  "i + length bs \<le> length h \<Longrightarrow>
   store_bytes (h @ r) i bs = map_option (\<lambda>h'. h' @ r) (store_bytes h i bs)"
  by (simp add: store_bytes_def)

lemma load_bytes_front:
  "i + n \<le> length h \<Longrightarrow> load_bytes (h @ r) i n = load_bytes h i n"
  by (simp add: load_bytes_def)

lemma load_bytes_back:
  "length h \<le> i \<Longrightarrow> load_bytes (h @ r) i n = load_bytes r (i - length h) n"
  by (auto simp: load_bytes_def)

lemma store_bytes_back:
  "length h \<le> i \<Longrightarrow> store_bytes (h @ r) i bs = map_option (\<lambda>r'. h @ r') (store_bytes r (i - length h) bs)"
  by (auto simp: store_bytes_def)

lemma load_bytes_drop: "load_bytes (drop k m) i n = load_bytes m (k + i) n" if "k \<le> length m"
  using that by (auto simp: load_bytes_def add.commute)

section \<open>Fixed-width encodings\<close>

locale byte_codec =
  fixes enc :: "'a \<Rightarrow> u8 list" and dec :: "u8 list \<Rightarrow> 'a" and width :: nat
  assumes enc_length: "length (enc x) = width"
    and dec_enc: "dec (enc x) = x"
    and enc_dec: "length bs = width \<Longrightarrow> enc (dec bs) = bs"
begin

lemma read_written:
  "store_bytes m i (enc x) = Some m' \<Longrightarrow> map_option dec (load_bytes m' i width) = Some x"
  using load_store_same [of m i "enc x" m'] by (simp add: enc_length dec_enc)

lemma read_other:
  "store_bytes m i (enc x) = Some m' \<Longrightarrow> j + n \<le> i \<or> i + width \<le> j \<Longrightarrow>
   load_bytes m' j n = load_bytes m j n"
  by (rule load_store_other) (auto simp: enc_length)

lemma write_read:
  assumes "map_option dec (load_bytes m i width) = Some x"
  shows "store_bytes m i (enc x) = Some m"
proof -
  from assms obtain bs where bs: "load_bytes m i width = Some bs" "x = dec bs" by auto
  then have len: "i + width \<le> length m" and eq: "bs = take width (drop i m)"
    by (auto simp: load_bytes_def split: if_splits)
  have "enc x = bs" using bs load_bytes_length [OF bs(1)] by (simp add: enc_dec)
  moreover have "take i m @ take width (drop i m) @ drop (i + width) m = m"
    by (metis append_take_drop_id drop_drop add.commute)
  ultimately show ?thesis using len load_bytes_length [OF bs(1)]
    by (simp add: store_bytes_def eq)
qed

lemma enc_inj: "enc x = enc y \<Longrightarrow> x = y"
  by (metis dec_enc)

end

lemma list_of_length_2: "length bs = 2 \<Longrightarrow> bs = [bs ! 0, bs ! 1]"
  by (auto simp: numeral_2_eq_2 length_Suc_conv)

lemma list_of_length_4: "length bs = 4 \<Longrightarrow> bs = [bs ! 0, bs ! 1, bs ! 2, bs ! 3]"
  by (auto simp: numeral_eq_Suc length_Suc_conv)

lemma dec16_bytes16 [simp]: "dec16 (bytes16 w) = w"
  by (simp add: dec16_def bytes16_def wire_simps)

lemma dec32_bytes32 [simp]: "dec32 (bytes32 w) = w"
  by (simp add: dec32_def bytes32_def wire_simps)

lemma bytes16_dec16: "length bs = 2 \<Longrightarrow> bytes16 (dec16 bs) = bs"
  by (subst (2) list_of_length_2) (simp_all add: bytes16_def dec16_def wire_simps)

lemma bytes32_dec32: "length bs = 4 \<Longrightarrow> bytes32 (dec32 bs) = bs"
  by (subst (2) list_of_length_4) (simp_all add: bytes32_def dec32_def wire_simps)

interpretation host16: byte_codec bytes16 dec16 2
  by unfold_locales (simp_all add: bytes16_dec16)

interpretation host32: byte_codec bytes32 dec32 4
  by unfold_locales (simp_all add: bytes32_dec32)

interpretation net16: byte_codec "\<lambda>w. bytes16 (htons w)" "\<lambda>bs. ntohs (dec16 bs)" 2
  by unfold_locales (simp_all add: bytes16_dec16)

interpretation net32: byte_codec "\<lambda>w. bytes32 (htonl w)" "\<lambda>bs. ntohl (dec32 bs)" 4
  by unfold_locales (simp_all add: bytes32_dec32)

section \<open>Writes outside of which nothing changes\<close>

definition same_outside :: "nat set \<Rightarrow> u8 list \<Rightarrow> u8 list \<Rightarrow> bool" where
  "same_outside S m m' \<longleftrightarrow> length m' = length m \<and> (\<forall>j < length m. j \<notin> S \<longrightarrow> m' ! j = m ! j)"

lemma same_outside_store:
  "store_bytes m i bs = Some m' \<Longrightarrow> {i..<i + length bs} \<subseteq> S \<Longrightarrow> same_outside S m m'"
  by (auto simp: store_bytes_def same_outside_def nth_append min_def subset_iff split: if_splits)

lemma same_outside_trans: "same_outside S m m' \<Longrightarrow> same_outside S m' m'' \<Longrightarrow> same_outside S m m''"
  by (simp add: same_outside_def)

lemma same_outside_mono: "same_outside S m m' \<Longrightarrow> S \<subseteq> T \<Longrightarrow> same_outside T m m'"
  by (auto simp: same_outside_def)

lemma same_outside_load:
  assumes "same_outside S m m'" "{i..<i + n} \<inter> S = {}"
  shows "load_bytes m' i n = load_bytes m i n"
proof -
  have "take n (drop i m') = take n (drop i m)" if "i + n \<le> length m"
  proof (rule nth_equalityI)
    show "length (take n (drop i m')) = length (take n (drop i m))"
      using assms(1) by (simp add: same_outside_def)
    fix j assume "j < length (take n (drop i m'))"
    then have j: "j < n" by simp
    then have "i + j \<in> {i..<i + n}" by simp
    then have "i + j \<notin> S" using assms(2) by blast
    then show "take n (drop i m') ! j = take n (drop i m) ! j"
      using assms(1) that j by (simp add: same_outside_def)
  qed
  then show ?thesis using assms(1) by (simp add: load_bytes_def same_outside_def)
qed

lemma same_outside_memcpy:
  assumes "j + n \<le> length src" "i + n \<le> length m" "{i..<i + n} \<subseteq> S"
  shows "\<exists>m'. memcpy m i src j n = Some m' \<and> same_outside S m m' \<and> load_bytes m' i n = load_bytes src j n"
proof -
  let ?bs = "take n (drop j src)"
  have len: "length ?bs = n" using assms(1) by simp
  obtain m' where m': "store_bytes m i ?bs = Some m'" using assms(2) len by (simp add: store_bytes_def)
  then have "load_bytes m' i n = Some ?bs" using load_store_same [OF m'] len by simp
  then show ?thesis
    using assms m' same_outside_store [OF m', of S] len by (simp add: memcpy_def load_bytes_def)
qed

lemma same_outside_store16:
  assumes "i + 2 \<le> length m" "{i..<i + 2} \<subseteq> S"
  shows "\<exists>m'. store16 m i v = Some m' \<and> same_outside S m m' \<and> load16 m' i = Some v"
proof -
  obtain m' where m': "store_bytes m i (bytes16 v) = Some m'" using assms(1) by (simp add: store_bytes_def)
  then show ?thesis
    using same_outside_store [OF m', of S] assms host16.read_written [OF m']
    by (simp add: store16_def load16_def)
qed

lemma same_outside_store32:
  assumes "i + 4 \<le> length m" "{i..<i + 4} \<subseteq> S"
  shows "\<exists>m'. store32 m i v = Some m' \<and> same_outside S m m' \<and> load32 m' i = Some v"
proof -
  obtain m' where m': "store_bytes m i (bytes32 v) = Some m'" using assms(1) by (simp add: store_bytes_def)
  then show ?thesis
    using same_outside_store [OF m', of S] assms host32.read_written [OF m']
    by (simp add: store32_def load32_def)
qed

lemma same_outside_length: "same_outside S m m' \<Longrightarrow> length m' = length m"
  by (simp add: same_outside_def)

end
