(* ===== verification/Checksum.thy ===== *)
theory Checksum
  imports Memory
begin

text \<open>
  The two Internet checksums of \<open>user/sm.cpp\<close>: \<open>check_sum_ip\<close>, which sums the 16-bit host words of
  an IP header in a \<open>uint32_t\<close> and folds the carries \<^emph>\<open>once\<close>, and \<open>check_sum_icmp\<close>, which folds
  twice. The reference is the ones'-complement sum of RFC 1071, \<open>ones_sum\<close>: the sum with
  end-around carry. The lemmas compare the routines with it, and say which headers the receiving
  side accepts.
\<close>

section \<open>The code\<close>

text \<open>\<open>sum += ip_temp[i]\<close> for \<open>i < n\<close>, on a 32-bit sum.\<close>

fun sum_words :: "u8 list \<Rightarrow> nat \<Rightarrow> nat \<Rightarrow> u32 \<Rightarrow> u32 option" where
  "sum_words m i 0 acc = Some acc"
| "sum_words m i (Suc n) acc = do { w \<leftarrow> load16 m i; sum_words m (i + 2) n (acc + ucast w) }"

text \<open>
  The \<open>int\<close> sum \<open>q + reminder\<close> is not reduced to 16 bits before the exclusive or, so its 17th bit
  is lost in the conversion to the \<open>uint16_t\<close> result.
\<close>

definition fold_once :: "u32 \<Rightarrow> u16" where
  "fold_once s =
     (let reminder = (ucast (s mod 65536) :: u16); q = (ucast (s div 65536) :: u16)
      in (q + reminder) XOR 0xFFFF)"

definition check_sum_ip :: "u8 list \<Rightarrow> nat \<Rightarrow> nat \<Rightarrow> u16 option" where
  "check_sum_ip m off header_length =
     do { s \<leftarrow> sum_words m off (header_length * 2) 0; Some (fold_once s) }"

definition fold_twice :: "u32 \<Rightarrow> u16" where
  "fold_twice s =
     (let s1 = drop_bit 16 s + (s AND 0xFFFF); s2 = s1 + drop_bit 16 s1
      in ucast (NOT s2))"

text \<open>\<open>nbytes\<close> starts at 12, so the odd-byte branch after the loop is never taken.\<close>

definition check_sum_icmp :: "u8 list \<Rightarrow> nat \<Rightarrow> u16 option" where
  "check_sum_icmp m off = do { s \<leftarrow> sum_words m off 6 0; Some (fold_twice s) }"

section \<open>The reference: ones'-complement sums\<close>

text \<open>The 16-bit host words of a buffer.\<close>

fun words_of :: "u8 list \<Rightarrow> nat list" where
  "words_of (a # b # bs) = unat (le16 a b) # words_of bs"
| "words_of _ = []"

text \<open>Addition with end-around carry.\<close>

definition oadd :: "nat \<Rightarrow> nat \<Rightarrow> nat" where
  "oadd a b = (if a + b \<ge> 65536 then a + b - 65535 else a + b)"

definition ones_sum :: "nat list \<Rightarrow> nat" where
  "ones_sum ws = fold oadd ws 0"

text \<open>The checksum the RFC asks for, and the receiver's test.\<close>

definition rfc1071 :: "nat list \<Rightarrow> nat" where
  "rfc1071 ws = 65535 - ones_sum ws"

definition rfc1071_valid :: "nat list \<Rightarrow> bool" where
  "rfc1071_valid ws \<longleftrightarrow> ones_sum ws = 65535"

text \<open>The sum the code loses: the single fold carries out of 16 bits.\<close>

definition double_carry :: "nat \<Rightarrow> bool" where
  "double_carry n \<longleftrightarrow> n div 65536 + n mod 65536 \<ge> 65536"

section \<open>End-around carry is arithmetic modulo 65535\<close>

lemma oadd_less: "a < 65536 \<Longrightarrow> b < 65536 \<Longrightarrow> oadd a b < 65536"
  unfolding oadd_def by (simp; linarith)

lemma oadd_mod: "oadd a b mod 65535 = (a + b) mod 65535"
  using le_mod_geq [of 65535 "a + b"] by (simp add: oadd_def)

lemma oadd_eq_0: "oadd a b = 0 \<longleftrightarrow> a = 0 \<and> b = 0"
  by (auto simp: oadd_def)

lemma fold_oadd:
  assumes "\<forall>w\<in>set ws. w < 65536" and "a < 65536"
  shows "fold oadd ws a < 65536" "fold oadd ws a mod 65535 = (a + sum_list ws) mod 65535"
    "fold oadd ws a = 0 \<longleftrightarrow> a + sum_list ws = 0"
  using assms
proof (induction ws arbitrary: a)
  case (Cons w ws)
  { case 1 then show ?case using Cons(1) [of "oadd w a"] by (simp add: oadd_less) }
  { case 2
    then have "fold oadd ws (oadd w a) mod 65535 = (oadd w a + sum_list ws) mod 65535"
      using Cons(2) [of "oadd w a"] by (simp add: oadd_less)
    also have "\<dots> = (w + a + sum_list ws) mod 65535"
      by (metis oadd_mod mod_add_left_eq)
    finally show ?case by (simp add: ac_simps) }
  { case 3 then show ?case
      using Cons(3) [of "oadd w a"] by (auto simp: oadd_less oadd_eq_0) }
qed simp_all

lemma words_of_bound: "w \<in> set (words_of bs) \<Longrightarrow> w < 65536"
  by (induction bs rule: words_of.induct) (auto simp: unat_u16_less)

text \<open>The unique representative: 0 only for the zero sum, 65535 for other multiples of 65535.\<close>

definition fold_nat :: "nat \<Rightarrow> nat" where
  "fold_nat n = (if n = 0 then 0 else if n mod 65535 = 0 then 65535 else n mod 65535)"

lemma fold_nat_unique:
  assumes "m < 65536" "m mod 65535 = n mod 65535" "m = 0 \<longleftrightarrow> n = 0"
  shows "m = fold_nat n"
proof (cases "m = 65535")
  case False
  with assms(1) have "m < 65535" by simp
  with assms(2,3) show ?thesis by (auto simp: fold_nat_def)
qed (use assms in \<open>auto simp: fold_nat_def\<close>)

lemma ones_sum_eq:
  assumes "\<forall>w\<in>set ws. w < 65536"
  shows "ones_sum ws = fold_nat (sum_list ws)"
  unfolding ones_sum_def using fold_oadd [OF assms, of 0]
  by (intro fold_nat_unique) simp_all

lemma ones_sum_words_of: "ones_sum (words_of bs) = fold_nat (sum_list (words_of bs))"
  by (rule ones_sum_eq) (auto intro: words_of_bound)

section \<open>The loop computes the sum of the words\<close>

lemma unat_ucast_u32: "unat (ucast (w :: u16) :: u32) = unat w"
  using unat_u16_less [of w] by (simp add: unsigned_ucast_eq take_bit_eq_mod)

lemma sum_words_eq:
  assumes "i + 2 * n \<le> length m"
    and "unat acc + sum_list (words_of (take (2 * n) (drop i m))) < 2 ^ 32"
  shows "\<exists>s. sum_words m i n acc = Some s \<and>
    unat s = unat acc + sum_list (words_of (take (2 * n) (drop i m)))"
  using assms
proof (induction n arbitrary: i acc)
  case (Suc n)
  obtain a b r where r: "drop i m = a # b # r" "drop (i + 2) m = r"
  proof -
    have "drop i m = m ! i # m ! Suc i # drop (i + 2) m"
      using Suc.prems(1) by (simp add: Cons_nth_drop_Suc)
    then show ?thesis using that by blast
  qed
  let ?w = "le16 a b"
  have load: "load16 m i = Some ?w"
    using Suc.prems(1) r by (simp add: load16_def load_bytes_def dec16_def numeral_2_eq_2)
  have bound: "unat acc + (unat ?w + sum_list (words_of (take (2 * n) r))) < 2 ^ 32"
    using Suc.prems(2) r by simp
  then have acc: "unat (acc + ucast ?w) = unat acc + unat ?w"
    by (simp add: unat_word_ariths unat_ucast_u32)
  have "\<exists>s. sum_words m (i + 2) n (acc + ucast ?w) = Some s \<and>
      unat s = unat (acc + ucast ?w) + sum_list (words_of (take (2 * n) (drop (i + 2) m)))"
    using Suc.prems(1) bound r(2) acc by (intro Suc.IH) simp_all
  then show ?case using r load acc by auto
qed simp

lemma length_words_of: "length (words_of bs) = length bs div 2"
  by (induction bs rule: words_of.induct) auto

lemma sum_list_words_bound: "sum_list (words_of bs) \<le> 65535 * (length bs div 2)"
proof (induction bs rule: words_of.induct)
  case (1 a b bs)
  then show ?case using unat_u16_le [of "le16 a b"] by simp
qed simp_all

lemma sum_words_total:
  assumes "i + 2 * n \<le> length m" and "n \<le> 65536"
  shows "\<exists>s. sum_words m i n 0 = Some s \<and> unat s = sum_list (words_of (take (2 * n) (drop i m)))"
proof -
  have "sum_list (words_of (take (2 * n) (drop i m))) \<le> 65535 * n"
    using sum_list_words_bound [of "take (2 * n) (drop i m)"] assms(1) by simp
  also have "\<dots> < 2 ^ 32" using assms(2) by simp
  finally show ?thesis using sum_words_eq [of i n m 0] assms(1) by simp
qed

lemma sum_words_defined: "sum_words m i n acc \<noteq> None \<longleftrightarrow> n = 0 \<or> i + 2 * n \<le> length m"
proof (induction n arbitrary: i acc)
  case (Suc n)
  show ?case
  proof (cases "i + 2 \<le> length m")
    case True
    then obtain w where "load16 m i = Some w" by (simp add: load16_def load_bytes_def)
    then show ?thesis using Suc.IH [of "i + 2" "acc + ucast w"] True by auto
  qed (simp add: load16_def load_bytes_def)
qed simp

section \<open>The folds\<close>

lemma unat_ucast_u16: "unat (ucast (x :: u32) :: u16) = unat x mod 65536"
  by (simp add: unsigned_ucast_eq take_bit_eq_mod)

lemma unat_not_u16: "unat (NOT (w :: u16)) = 65535 - unat w"
proof -
  have "NOT w = 65535 - w" by (simp add: not_eq_complement)
  moreover have "w \<le> 65535"
    using unat_u16_le [of w] by (simp add: word_le_nat_alt)
  ultimately show ?thesis by (simp add: unat_sub)
qed

lemma xor_ffff: "w XOR 0xFFFF = NOT (w :: u16)"
proof -
  have "(0xFFFF :: u16) = - 1" by simp
  then show ?thesis by (metis bit.xor_one_right)
qed

lemma fold_once_nat:
  "unat (fold_once s) = 65535 - (unat s div 65536 + unat s mod 65536) mod 65536"
proof -
  have "unat s div 65536 < 65536"
    using unat_u32_less [of s] by (simp add: less_mult_imp_div_less)
  then show ?thesis
    by (simp add: fold_once_def Let_def xor_ffff unat_not_u16 unat_word_ariths
        unat_ucast_u16 unat_div_distrib unat_mod_distrib)
qed

section \<open>The code against the reference\<close>

lemma fold_twice_nat:
  "unat (fold_twice s) = 65535 -
     (let t = unat s div 65536 + unat s mod 65536 in (t + t div 65536) mod 65536)"
proof -
  let ?n = "unat s"
  let ?t = "?n div 65536 + ?n mod 65536"
  have q: "?n div 65536 < 65536"
    using unat_u32_less [of s] by (simp add: less_mult_imp_div_less)
  have r: "?n mod 65536 < 65536" by simp
  have s_and: "s AND 0xFFFF = take_bit 16 s" by (simp add: take_bit_eq_mask mask_eq_exp_minus_1)
  let ?s1 = "drop_bit 16 s + (s AND 0xFFFF)"
  have s1: "unat ?s1 = ?t"
    using q r by (simp add: s_and unat_word_ariths unat_drop_bit_eq unsigned_take_bit_eq
        drop_bit_eq_div take_bit_eq_mod)
  have "?t div 65536 \<le> 1" using q r by linarith
  with q r have lt: "?t + ?t div 65536 < 4294967296" by linarith
  have "unat (?s1 + drop_bit 16 ?s1) = (unat ?s1 + unat ?s1 div 65536) mod 4294967296"
    by (simp only: unat_word_ariths unat_drop_bit_eq drop_bit_eq_div) simp
  then have s2: "unat (?s1 + drop_bit 16 ?s1) = ?t + ?t div 65536"
    unfolding s1 by (rule trans) (rule mod_less [OF lt])
  have "(ucast (NOT x) :: u16) = NOT (ucast x)" for x :: u32
    by (rule bit_word_eqI) (simp add: bit_simps)
  then show ?thesis
    by (simp add: fold_twice_def Let_def s2 unat_not_u16 unat_ucast_u16)
qed

text \<open>Both folds work on \<open>t\<close>, the sum with its carries added back once.\<close>

abbreviation (input) folded :: "nat \<Rightarrow> nat" where
  "folded n \<equiv> n div 65536 + n mod 65536"

lemma folded_split: "n = 65535 * (n div 65536) + folded n"
  using mult_div_mod_eq [of 65536 n] by linarith

lemma folded_mod: "folded n mod 65535 = n mod 65535"
  by (metis folded_split mod_mult_self4)

lemma folded_eq_0: "folded n = 0 \<longleftrightarrow> n = 0"
  using folded_split [of n] by auto

lemma folded_bound: "n < 4294967296 \<Longrightarrow> folded n < 131071"
  using less_mult_imp_div_less [of n 65536 65536] mod_less_divisor [of 65536 n] by simp

text \<open>What each fold makes of a number \<open>t\<close> below 131071.\<close>

lemma fold_nat_of_folded:
  assumes "t < 131071" "t mod 65535 = n mod 65535" "t = 0 \<longleftrightarrow> n = 0"
  shows "fold_nat n = (if 65536 \<le> t then t - 65535 else t)"
proof (rule fold_nat_unique [symmetric])
  show "(if 65536 \<le> t then t - 65535 else t) mod 65535 = n mod 65535"
    using assms(2) le_mod_geq [of 65535 t] by simp
qed (use assms in auto)

lemma end_around:
  fixes t :: nat
  assumes "t < 131071"
  shows "(t + t div 65536) mod 65536 = (if 65536 \<le> t then t - 65535 else t)"
proof (cases "65536 \<le> t")
  case True
  with assms have "t div 65536 = 1" by (simp add: div_nat_eqI)
  moreover have "(t + 1) mod 65536 = (t - 65535) mod 65536"
    using True le_mod_geq [of 65536 "t + 1"] by simp
  moreover have "t - 65535 < 65536" using assms by simp
  ultimately show ?thesis using True by simp
qed simp

lemma lost_carry:
  fixes t :: nat
  assumes "t < 131071"
  shows "t mod 65536 = (if 65536 \<le> t then t - 65536 else t)"
  using assms le_mod_geq [of 65536 t] by auto

lemma fold_nat_folded:
  "n < 4294967296 \<Longrightarrow> fold_nat n = (if double_carry n then folded n - 65535 else folded n)"
  unfolding double_carry_def
  by (intro fold_nat_of_folded folded_bound folded_mod folded_eq_0)

lemma fold_twice_rfc: "unat (fold_twice s) = 65535 - fold_nat (unat s)"
  unfolding fold_twice_nat Let_def end_around [OF folded_bound [OF unat_u32_less]]
    fold_nat_folded [OF unat_u32_less] double_carry_def ..

lemma fold_once_rfc:
  "unat (fold_once s) = (if double_carry (unat s) then 65536 - fold_nat (unat s)
     else 65535 - fold_nat (unat s))"
proof -
  have t: "folded (unat s) < 131071" by (rule folded_bound [OF unat_u32_less])
  have step: "65535 - (if 65536 \<le> t then t - 65536 else t)
      = (if 65536 \<le> t then 65536 - (if 65536 \<le> t then t - 65535 else t)
         else 65535 - (if 65536 \<le> t then t - 65535 else t))" if "t < 131071" for t :: nat
    using that by auto
  show ?thesis
    unfolding fold_once_nat lost_carry [OF t] fold_nat_folded [OF unat_u32_less] double_carry_def
    by (rule step [OF t])
qed

text \<open>The receiver: a zero result means a valid ones'-complement sum, for any header.\<close>

lemma fold_once_zero:
  assumes "unat s < 4294836225"
  shows "fold_once s = 0 \<longleftrightarrow> fold_nat (unat s) = 65535"
proof -
  have "unat s div 65536 < 65535" "unat s mod 65536 < 65536"
    using assms by (simp_all add: less_mult_imp_div_less)
  moreover have "a < 65535 \<Longrightarrow> b < 65536 \<Longrightarrow> a + b < 131070" for a b :: nat by simp
  ultimately have "folded (unat s) < 131070" by blast
  then have "fold_nat (unat s) \<noteq> 65535" if "double_carry (unat s)"
    using that unfolding fold_nat_folded [OF unat_u32_less] double_carry_def by simp
  moreover have "fold_nat (unat s) \<le> 65535" by (simp add: fold_nat_def)
  ultimately show ?thesis
    by (auto simp: word_unat_eq_iff fold_once_rfc)
qed

text \<open>
  The sender: a header summed with a zero checksum field and then sent with the computed
  checksum is valid exactly when the single fold lost no carry.
\<close>

lemma self_checksum_nat:
  fixes q t n :: nat
  assumes "n = 65535 * q + t" "t < 131071"
  shows "fold_nat (n + (65535 - (if 65536 \<le> t then t - 65536 else t))) = 65535 \<longleftrightarrow> t < 65536"
proof (cases "65536 \<le> t")
  case True
  then have "n + (65535 - (if 65536 \<le> t then t - 65536 else t)) = 65535 * (q + 2) + 1"
    using assms by simp
  then have "fold_nat (n + (65535 - (if 65536 \<le> t then t - 65536 else t))) = 1"
    unfolding fold_nat_def by (simp only: mod_mult_self4) simp
  with True show ?thesis by simp
next
  case False
  then have "n + (65535 - (if 65536 \<le> t then t - 65536 else t)) = 65535 * (q + 1)"
    using assms by simp
  then have "fold_nat (n + (65535 - (if 65536 \<le> t then t - 65536 else t))) = 65535"
    unfolding fold_nat_def by (simp only: mod_mult_self1_is_0) simp
  with False show ?thesis by simp
qed

lemma fold_once_self_valid:
  "fold_nat (unat s + unat (fold_once s)) = 65535 \<longleftrightarrow> \<not> double_carry (unat s)"
proof -
  have t: "folded (unat s) < 131071" by (rule folded_bound [OF unat_u32_less])
  show ?thesis
    unfolding fold_once_nat lost_carry [OF t] double_carry_def not_le
    by (rule self_checksum_nat [OF folded_split t])
qed

section \<open>The routines on a buffer\<close>

definition header_words :: "u8 list \<Rightarrow> nat \<Rightarrow> nat \<Rightarrow> nat list" where
  "header_words m off n = words_of (take n (drop off m))"

lemma check_sum_ip_eq:
  assumes "off + 4 * hl \<le> length m" and "hl \<le> 15"
  obtains s where "check_sum_ip m off hl = Some (fold_once s)"
    "unat s = sum_list (header_words m off (4 * hl))" "unat s \<le> 1966050"
proof -
  obtain s where s: "sum_words m off (hl * 2) 0 = Some s"
    "unat s = sum_list (header_words m off (4 * hl))"
    using sum_words_total [of off "hl * 2" m] assms by (auto simp: header_words_def mult.commute)
  have "sum_list (header_words m off (4 * hl)) \<le> 65535 * (2 * hl)"
    unfolding header_words_def
    using sum_list_words_bound [of "take (4 * hl) (drop off m)"] assms(1) by simp
  also have "\<dots> \<le> 1966050" using assms(2) by simp
  finally show ?thesis using s by (intro that [of s]) (simp_all add: check_sum_ip_def)
qed

lemma ones_sum_header: "ones_sum (header_words m off n) = fold_nat (sum_list (header_words m off n))"
  by (simp add: header_words_def ones_sum_words_of)

lemma words_of_append:
  "even (length xs) \<Longrightarrow> words_of (xs @ ys) = words_of xs @ words_of ys"
  by (induction xs rule: words_of.induct) auto

lemma header_words_split:
  assumes "even k" "k + 2 \<le> n" "off + n \<le> length m"
  shows "header_words m off n = header_words m off k @ header_words m (off + k) 2
           @ header_words m (off + k + 2) (n - k - 2)"
proof -
  obtain r where n: "n = k + (2 + r)"
    using assms(2) by (metis le_Suc_ex add.assoc)
  have "take n (drop off m) = take k (drop off m) @ take 2 (drop (off + k) m)
      @ take r (drop (off + k + 2) m)"
    unfolding n take_add drop_drop by (simp add: ac_simps)
  then show ?thesis
    using assms n by (simp add: header_words_def words_of_append)
qed

lemma header_words_load: "header_words m' i n = header_words m i n"
  if "load_bytes m' i n = load_bytes m i n" "i + n \<le> length m" "length m' = length m"
  using that by (simp add: header_words_def load_bytes_def)

lemma header_words_stored:
  assumes "store16 m (off + k) c = Some m'" and "even k" "k + 2 \<le> n" "off + n \<le> length m"
    and "load16 m (off + k) = Some 0"
  shows "sum_list (header_words m' off n) = sum_list (header_words m off n) + unat c"
proof -
  have st: "store_bytes m (off + k) (bytes16 c) = Some m'" using assms(1) by (simp add: store16_def)
  have len: "length m' = length m" by (rule store_bytes_length [OF st])
  have pre: "header_words m' off k = header_words m off k"
    by (rule header_words_load) (use assms len in \<open>auto intro!: host16.read_other [OF st]\<close>)
  have post: "header_words m' (off + k + 2) (n - k - 2) = header_words m (off + k + 2) (n - k - 2)"
    by (rule header_words_load) (use assms len in \<open>auto intro!: host16.read_other [OF st]\<close>)
  have one: "header_words x i 2 = [unat w]" if w: "load16 x i = Some w" for x i w
  proof -
    obtain bs where bs: "load_bytes x i 2 = Some bs" "w = dec16 bs"
      using w by (auto simp: load16_def)
    then have "bs = take 2 (drop i x)" "length bs = 2"
      by (auto simp: load_bytes_def split: if_splits)
    then show ?thesis
      using list_of_length_2 [of bs] bs(2)
      by (metis header_words_def dec16_def words_of.simps(1) words_of.simps(2))
  qed
  have "load16 m' (off + k) = Some c"
    using host16.read_written [OF st] by (simp add: load16_def)
  then show ?thesis
    using one [OF assms(5)] one [of m' "off + k" c] assms(2-4) len
    by (simp add: header_words_split [of k n off] pre post [simplified])
qed

text \<open>The receiver's test, for use by other theories.\<close>

lemma check_sum_ip_zero_iff:
  assumes "off + 4 * hl \<le> length m" and "hl \<le> 15"
  shows "check_sum_ip m off hl = Some 0 \<longleftrightarrow> rfc1071_valid (header_words m off (4 * hl))"
    "\<exists>c. check_sum_ip m off hl = Some c"
proof -
  obtain s where "check_sum_ip m off hl = Some (fold_once s)"
    "unat s = sum_list (header_words m off (4 * hl))" "unat s \<le> 1966050"
    by (rule check_sum_ip_eq [OF assms])
  then show "check_sum_ip m off hl = Some 0 \<longleftrightarrow> rfc1071_valid (header_words m off (4 * hl))"
    "\<exists>c. check_sum_ip m off hl = Some c"
    by (simp_all add: fold_once_zero rfc1071_valid_def ones_sum_header)
qed

text \<open>The sender's own test of a header it has put its checksum into.\<close>

lemma check_sum_ip_self:
  assumes "off + 4 * hl \<le> length m" and "3 \<le> hl" and "hl \<le> 15"
    and "load16 m (off + 10) = Some 0"
    and "check_sum_ip m off hl = Some c" and "store16 m (off + 10) c = Some m'"
  shows "check_sum_ip m' off hl = Some 0 \<longleftrightarrow>
    \<not> double_carry (sum_list (header_words m off (4 * hl)))"
proof -
  obtain s where s: "check_sum_ip m off hl = Some (fold_once s)"
    "unat s = sum_list (header_words m off (4 * hl))" "unat s \<le> 1966050"
    by (rule check_sum_ip_eq [OF assms(1,3)])
  have len: "length m' = length m"
    using assms(6) by (simp add: store16_def store_bytes_length)
  obtain s' where s': "check_sum_ip m' off hl = Some (fold_once s')"
    "unat s' = sum_list (header_words m' off (4 * hl))" "unat s' \<le> 1966050"
    using check_sum_ip_eq [of off hl m'] assms(1,3) len by metis
  have "unat s' = unat s + unat (fold_once s)"
    using header_words_stored [of m off 10 c m' "4 * hl"] assms s s'(2) by simp
  then show ?thesis
    using s s' fold_once_self_valid [of s] by (simp add: fold_once_zero)
qed

section \<open>Properties\<close>

text \<open>
  C16: The receiving side's test is exact: on a header that lies in the buffer, \<open>check_sum_ip\<close>
  returns 0 if and only if the ones'-complement sum of its 16-bit words is valid in the sense of
  RFC 1071, although the routine folds the carries only once.
\<close>
theorem check_sum_ip_accepts_iff_valid:
  assumes "off + 4 * hl \<le> length m" and "hl \<le> 15"
  shows "check_sum_ip m off hl = Some 0 \<longleftrightarrow> rfc1071_valid (header_words m off (4 * hl))"
  by (rule check_sum_ip_zero_iff(1) [OF assms])

definition sample_header :: "u8 list" where
  "sample_header = [0x45, 0, 0, 0x30, 0, 0, 0, 0, 64, 17, 0, 0, 10, 0, 0, 1, 10, 0, 0, 2]"

theorem check_sum_ip_accepts_iff_valid_witness:
  "check_sum_ip (sample_header[10 := 0x66, 11 := 0xBB]) 0 5 = Some 0
    \<and> rfc1071_valid (header_words (sample_header[10 := 0x66, 11 := 0xBB]) 0 20)"
proof -
  have "check_sum_ip (sample_header[10 := 0x66, 11 := 0xBB]) 0 5 = Some 0" by code_simp
  moreover have "0 + 4 * 5 \<le> length (sample_header[10 := 0x66, 11 := 0xBB])" by code_simp
  ultimately show ?thesis
    using check_sum_ip_accepts_iff_valid [of 0 5 "sample_header[10 := 0x66, 11 := 0xBB]"] by simp
qed

text \<open>
  C17: The sending side is not exact: a header whose checksum field is zero, summed by
  \<open>check_sum_ip\<close> and sent with the result stored in the field, passes the receiver's test if and
  only if the single fold loses no carry, that is, unless the two 16-bit halves of the sum
  themselves add up to 65536 or more.
\<close>
theorem check_sum_ip_sent_valid_iff:
  assumes "off + 4 * hl \<le> length m" and "3 \<le> hl" and "hl \<le> 15"
    and "load16 m (off + 10) = Some 0"
    and "check_sum_ip m off hl = Some c" and "store16 m (off + 10) c = Some m'"
  shows "check_sum_ip m' off hl = Some 0 \<longleftrightarrow>
    \<not> double_carry (sum_list (header_words m off (4 * hl)))"
  by (rule check_sum_ip_self [OF assms])

text \<open>A header of the kind the program sends whose sum carries twice: it is refused.\<close>

theorem check_sum_ip_sent_valid_iff_witness:
  "check_sum_ip (sample_header[10 := 0x66, 11 := 0xBB]) 0 5 = Some 0
    \<and> check_sum_ip (sample_header[14 := 51, 15 := 200, 18 := 51, 19 := 246, 10 := 0xFF, 11 := 0xFF]) 0 5 \<noteq> Some 0"
proof -
  let ?bad = "sample_header[14 := 51, 15 := 200, 18 := 51, 19 := 246]"
  have good: "check_sum_ip (sample_header[10 := 0x66, 11 := 0xBB]) 0 5 = Some 0
      \<longleftrightarrow> \<not> double_carry (sum_list (header_words sample_header 0 (4 * 5)))"
  proof (rule check_sum_ip_sent_valid_iff)
    show "check_sum_ip sample_header 0 5 = Some 0xBB66" by code_simp
    show "store16 sample_header (0 + 10) 0xBB66 = Some (sample_header[10 := 0x66, 11 := 0xBB])"
      by code_simp
    show "load16 sample_header (0 + 10) = Some 0" by code_simp
  qed (simp_all add: sample_header_def)
  have bad: "check_sum_ip (?bad[10 := 0xFF, 11 := 0xFF]) 0 5 = Some 0
      \<longleftrightarrow> \<not> double_carry (sum_list (header_words ?bad 0 (4 * 5)))"
  proof (rule check_sum_ip_sent_valid_iff)
    show "check_sum_ip ?bad 0 5 = Some 0xFFFF" by code_simp
    show "store16 ?bad (0 + 10) 0xFFFF = Some (?bad[10 := 0xFF, 11 := 0xFF])" by code_simp
    show "load16 ?bad (0 + 10) = Some 0" by code_simp
  qed (simp_all add: sample_header_def)
  have "\<not> double_carry (sum_list (header_words sample_header 0 (4 * 5)))" by code_simp
  moreover have "double_carry (sum_list (header_words ?bad 0 (4 * 5)))" by code_simp
  ultimately show ?thesis using good bad by simp
qed

text \<open>
  C18: The ICMP checksum, which folds the carries twice, is the checksum of RFC 1071 of the 12
  bytes of the message, for every message.
\<close>
theorem check_sum_icmp_rfc1071:
  assumes "off + 12 \<le> length m"
  shows "\<exists>c. check_sum_icmp m off = Some c \<and> unat c = rfc1071 (header_words m off 12)"
proof -
  obtain s where "sum_words m off 6 0 = Some s" "unat s = sum_list (header_words m off 12)"
    using sum_words_total [of off 6 m] assms by (auto simp: header_words_def)
  then show ?thesis
    by (simp add: check_sum_icmp_def fold_twice_rfc rfc1071_def ones_sum_header)
qed

theorem check_sum_icmp_rfc1071_witness:
  "check_sum_icmp ([8, 0, 0, 0, 0, 1, 0, 0] @ [0x12, 0x34, 0x56, 0x78]) 0 = Some 0x528F \<and>
   rfc1071 (header_words ([8, 0, 0, 0, 0, 1, 0, 0] @ [0x12, 0x34, 0x56, 0x78]) 0 12) = 0x528F"
proof -
  have "check_sum_icmp ([8, 0, 0, 0, 0, 1, 0, 0] @ [0x12, 0x34, 0x56, 0x78]) 0 = Some 0x528F"
    by code_simp
  then show ?thesis
    using check_sum_icmp_rfc1071 [of 0 "[8, 0, 0, 0, 0, 1, 0, 0] @ [0x12, 0x34, 0x56, 0x78]"]
    by auto
qed

end
