(* ===== verification/Double.thy ===== *)
theory Double
  imports Prelude "HOL-Library.Log_Nat"
begin

text \<open>
  The \<open>double\<close> arithmetic of the loss rates. The code computes one expression,
  \<open>1 - (double)received / (double)sent\<close> on \<open>uint16_t\<close> counters, compares such values with \<open>>\<close> and
  \<open>==\<close>, and copies them. A \<open>double\<close> is a rational number, an infinity or a NaN; the operations
  round the exact rational result to the nearest number with a 53-bit significand, ties to even,
  as IEEE 754 does in the default rounding mode. The exponent range is not bounded: the non-zero
  results of that expression lie between \<open>2 ^ (- 17)\<close> and \<open>2 ^ 16\<close> in absolute value, where
  binary64 neither overflows nor underflows. The sign of zero, which no comparison of the code
  sees, is not modelled.
\<close>

section \<open>Rounding\<close>

datatype double = DNaN | DInf bool \<comment> \<open>negative?\<close> | DFin rat

text \<open>Round to the nearest integer, ties to even.\<close>

definition rne :: "rat \<Rightarrow> int" where
  "rne x = (let f = \<lfloor>x\<rfloor>; d = x - of_int f in
     if d < 1 / 2 then f else if d > 1 / 2 then f + 1 else if even f then f else f + 1)"

text \<open>The exponent \<open>e\<close> with \<open>2 powi e \<le> x < 2 powi (e + 1)\<close>, for a positive \<open>x\<close>.\<close>

definition ilog2 :: "rat \<Rightarrow> int" where
  "ilog2 x = (let (p, q) = quotient_of x;
       d = int (floorlog 2 (nat p)) - int (floorlog 2 (nat q))
     in if 2 powi d \<le> x then d else d - 1)"

definition ulp :: "rat \<Rightarrow> rat" where
  "ulp x = 2 powi (ilog2 x - 52)"

definition rnd_pos :: "rat \<Rightarrow> rat" where
  "rnd_pos x = of_int (rne (x / ulp x)) * ulp x"

definition rnd :: "rat \<Rightarrow> rat" where
  "rnd x = (if x = 0 then 0 else if 0 < x then rnd_pos x else - rnd_pos (- x))"

section \<open>Operations\<close>

definition dbl_of_u16 :: "u16 \<Rightarrow> double" where
  "dbl_of_u16 w = DFin (of_nat (unat w))"

definition dbl_one :: double where "dbl_one = DFin 1"

fun ddiv :: "double \<Rightarrow> double \<Rightarrow> double" where
  "ddiv (DFin a) (DFin b) =
     (if b = 0 then (if a = 0 then DNaN else DInf (a < 0)) else DFin (rnd (a / b)))"
| "ddiv (DFin a) (DInf _) = DFin 0"
| "ddiv (DInf n) (DFin b) = DInf (n \<noteq> (b < 0))"
| "ddiv _ _ = DNaN"

fun dsub :: "double \<Rightarrow> double \<Rightarrow> double" where
  "dsub (DFin a) (DFin b) = DFin (rnd (a - b))"
| "dsub (DFin a) (DInf n) = DInf (\<not> n)"
| "dsub (DInf n) (DFin b) = DInf n"
| "dsub (DInf m) (DInf n) = (if m = n then DNaN else DInf m)"
| "dsub _ _ = DNaN"

text \<open>\<open>a < b\<close>: false as soon as an operand is a NaN.\<close>

fun dlt :: "double \<Rightarrow> double \<Rightarrow> bool" where
  "dlt (DFin a) (DFin b) = (a < b)"
| "dlt (DFin a) (DInf n) = (\<not> n)"
| "dlt (DInf n) (DFin b) = n"
| "dlt (DInf m) (DInf n) = (m \<and> \<not> n)"
| "dlt _ _ = False"

text \<open>\<open>1 - (double)((double)received / (double)sent)\<close>.\<close>

definition loss_rate :: "u16 \<Rightarrow> u16 \<Rightarrow> double" where
  "loss_rate received sent = dsub dbl_one (ddiv (dbl_of_u16 received) (dbl_of_u16 sent))"

section \<open>Rounding to an integer\<close>

lemma rne_cases: "rne x = \<lfloor>x\<rfloor> \<or> rne x = \<lfloor>x\<rfloor> + 1"
  by (simp add: rne_def Let_def)

lemma rne_of_int [simp]: "rne (of_int k) = k"
  by (simp add: rne_def Let_def)

lemma rne_error: "\<bar>of_int (rne x) - x\<bar> \<le> 1 / 2"
proof -
  have "of_int \<lfloor>x\<rfloor> \<le> x" "x < of_int \<lfloor>x\<rfloor> + 1" by linarith+
  then show ?thesis by (simp add: rne_def Let_def abs_le_iff)
qed

lemma rne_mono:
  assumes "x \<le> y"
  shows "rne x \<le> rne y"
proof (cases "\<lfloor>x\<rfloor> = \<lfloor>y\<rfloor>")
  case True
  then show ?thesis using assms by (auto simp: rne_def Let_def)
next
  case False
  then have "\<lfloor>x\<rfloor> + 1 \<le> \<lfloor>y\<rfloor>" using floor_mono [OF assms] by simp
  then show ?thesis using rne_cases [of x] rne_cases [of y] by auto
qed

section \<open>The exponent\<close>

lemma floorlog_powi:
  assumes "0 < (p :: int)"
  shows "2 powi (int (floorlog 2 (nat p)) - 1) \<le> (of_int p :: rat)"
    "(of_int p :: rat) < 2 powi int (floorlog 2 (nat p))"
proof -
  define k where "k = floorlog 2 (nat p)"
  have k: "2 ^ (k - 1) \<le> nat p \<and> nat p < 2 ^ k"
    unfolding k_def using assms by (intro floorlog_bounds) simp_all
  have "k \<noteq> 0" unfolding k_def floorlog_eq_zero_iff using assms by simp
  then have k1: "int k - 1 = int (k - 1)" by simp
  have "(of_nat (2 ^ (k - 1)) :: rat) \<le> of_nat (nat p)" "(of_nat (nat p) :: rat) < of_nat (2 ^ k)"
    using k by (simp_all only: of_nat_le_iff of_nat_less_iff)
  moreover have "(of_nat (nat p) :: rat) = of_int p" using assms by simp
  ultimately show "2 powi (int (floorlog 2 (nat p)) - 1) \<le> (of_int p :: rat)"
    "(of_int p :: rat) < 2 powi int (floorlog 2 (nat p))"
    unfolding k_def [symmetric] k1 power_int_of_nat by simp_all
qed

lemma ilog2:
  assumes "0 < x"
  shows "2 powi ilog2 x \<le> x" "x < 2 powi (ilog2 x + 1)"
proof -
  obtain p q where pq: "quotient_of x = (p, q)" by (cases "quotient_of x")
  have q: "0 < q" by (rule quotient_of_denom_pos [OF pq])
  have x: "x = of_int p / of_int q" by (rule quotient_of_div [OF pq])
  with assms q have p: "0 < p" by (simp add: zero_less_divide_iff)
  let ?i = "int (floorlog 2 (nat p))" and ?j = "int (floorlog 2 (nat q))"
  let ?d = "?i - ?j"
  note fp = floorlog_powi [OF p] and fq = floorlog_powi [OF q]
  have "x < 2 powi ?i / 2 powi (?j - 1)"
    unfolding x using fp fq p q by (intro frac_less) simp_all
  also have "\<dots> = 2 powi (?d + 1)" by (simp add: power_int_diff power_int_add field_simps)
  finally have up: "x < 2 powi (?d + 1)" .
  have "2 powi (?i - 1) / 2 powi ?j \<le> x"
    unfolding x using fp fq p q by (intro frac_le) simp_all
  moreover have "(2 :: rat) powi (?d - 1) = 2 powi (?i - 1) / 2 powi ?j"
    using power_int_diff [of "2 :: rat" "?i - 1" ?j] by (simp add: algebra_simps)
  ultimately have lo: "2 powi (?d - 1) \<le> x" by simp
  show "2 powi ilog2 x \<le> x" "x < 2 powi (ilog2 x + 1)"
    using up lo by (auto simp: ilog2_def pq Let_def add.commute simp del: power_int_of_nat)
qed

lemma ilog2_mono:
  assumes "0 < x" "x \<le> y"
  shows "ilog2 x \<le> ilog2 y"
proof (rule ccontr)
  assume "\<not> ?thesis"
  then have "(2 :: rat) powi (ilog2 y + 1) \<le> 2 powi ilog2 x"
    by (intro power_int_increasing) simp_all
  then show False using ilog2(1) [OF assms(1)] ilog2(2) [of y] assms by linarith
qed

lemma ulp_pos [simp]: "0 < ulp x"
  by (simp add: ulp_def)

lemma scaled_bounds:
  assumes "0 < x"
  shows "2 ^ 52 \<le> x / ulp x" "x / ulp x < 2 ^ 53"
proof -
  have e: "2 ^ 52 * ulp x = 2 powi ilog2 x" "2 ^ 53 * ulp x = 2 powi (ilog2 x + 1)"
    by (simp_all add: ulp_def power_int_diff power_int_add)
  show "2 ^ 52 \<le> x / ulp x" using ilog2(1) [OF assms]
    by (subst pos_le_divide_eq) (simp_all add: e [simplified])
  show "x / ulp x < 2 ^ 53" using ilog2(2) [OF assms]
    by (subst pos_divide_less_eq) (simp_all add: e [simplified])
qed

section \<open>Rounding to a significand of 53 bits\<close>

lemma rnd_pos_bounds:
  assumes "0 < x"
  shows "2 powi ilog2 x \<le> rnd_pos x" "rnd_pos x \<le> 2 powi (ilog2 x + 1)"
proof -
  have "rne (of_int (2 ^ 52)) \<le> rne (x / ulp x)" "rne (x / ulp x) \<le> rne (of_int (2 ^ 53))"
    using scaled_bounds [OF assms] by (auto intro!: rne_mono)
  then have "(2 ^ 52 :: rat) \<le> of_int (rne (x / ulp x))" "of_int (rne (x / ulp x)) \<le> (2 ^ 53 :: rat)"
    by (simp_all only: rne_of_int)
      (metis of_int_le_iff of_int_numeral of_int_power)+
  then have "2 ^ 52 * ulp x \<le> rnd_pos x" "rnd_pos x \<le> 2 ^ 53 * ulp x"
    by (simp_all add: rnd_pos_def)
  then show "2 powi ilog2 x \<le> rnd_pos x" "rnd_pos x \<le> 2 powi (ilog2 x + 1)"
    by (simp_all add: ulp_def power_int_diff power_int_add)
qed

lemma rnd_pos_mono:
  assumes "0 < x" "x \<le> y"
  shows "rnd_pos x \<le> rnd_pos y"
proof (cases "ilog2 x = ilog2 y")
  case True
  then have u: "ulp x = ulp y" by (simp add: ulp_def)
  have "rne (x / ulp y) \<le> rne (y / ulp y)"
    using assms by (intro rne_mono divide_right_mono) (simp_all add: less_imp_le)
  then show ?thesis by (simp add: rnd_pos_def u)
next
  case False
  then have "ilog2 x + 1 \<le> ilog2 y" using ilog2_mono [OF assms] by simp
  then have "(2 :: rat) powi (ilog2 x + 1) \<le> 2 powi ilog2 y" by (intro power_int_increasing) simp_all
  then show ?thesis using rnd_pos_bounds [of x] rnd_pos_bounds [of y] assms by linarith
qed

lemma rnd_pos_pos: "0 < x \<Longrightarrow> 0 < rnd_pos x"
  using rnd_pos_bounds(1) [of x] zero_less_power_int [of "2 :: rat" "ilog2 x"] by linarith

lemma rnd_mono: "x \<le> y \<Longrightarrow> rnd x \<le> rnd y"
  using rnd_pos_mono [of x y] rnd_pos_mono [of "- y" "- x"] rnd_pos_pos [of y] rnd_pos_pos [of "- x"]
  by (auto simp: rnd_def)

lemma rnd_0 [simp]: "rnd 0 = 0"
  by (simp add: rnd_def)

lemma rnd_1 [simp]: "rnd 1 = 1"
  by code_simp

lemma ilog2_1: "ilog2 1 = 0"
  by code_simp

lemma rnd_error:
  assumes "\<bar>x\<bar> \<le> 1"
  shows "\<bar>rnd x - x\<bar> \<le> 1 / 2 ^ 53"
proof -
  have pos: "\<bar>rnd_pos y - y\<bar> \<le> 1 / 2 ^ 53" if y: "0 < y" "y \<le> 1" for y
  proof -
    have "ilog2 y \<le> ilog2 1" using y by (rule ilog2_mono)
    also note ilog2_1
    finally have "ulp y \<le> 2 powi (- 52)" unfolding ulp_def by (intro power_int_increasing) simp_all
    moreover have "\<bar>rnd_pos y - y\<bar> = \<bar>of_int (rne (y / ulp y)) - y / ulp y\<bar> * ulp y"
    proof -
      have "rnd_pos y - y = (of_int (rne (y / ulp y)) - y / ulp y) * ulp y"
        using less_imp_neq [OF ulp_pos [of y]] by (simp add: rnd_pos_def left_diff_distrib)
      then show ?thesis using abs_of_pos [OF ulp_pos [of y]] by (simp add: abs_mult)
    qed
    moreover have "\<dots> \<le> 1 / 2 * ulp y" by (intro mult_right_mono rne_error) (simp add: less_imp_le)
    ultimately have "\<bar>rnd_pos y - y\<bar> \<le> 1 / 2 * 2 powi (- 52)" by linarith
    then show ?thesis by (simp add: power_int_minus)
  qed
  have "\<bar>- rnd_pos (- x) - x\<bar> = \<bar>rnd_pos (- x) - - x\<bar>" by simp
  then show ?thesis using pos [of x] pos [of "- x"] assms by (auto simp: rnd_def)
qed

section \<open>Loss rates\<close>

abbreviation frac16 :: "u16 \<Rightarrow> u16 \<Rightarrow> rat" where
  "frac16 r s \<equiv> of_nat (unat r) / of_nat (unat s)"

lemma loss_rate_eq:
  "s \<noteq> 0 \<Longrightarrow> loss_rate r s = DFin (rnd (1 - rnd (frac16 r s)))"
  by (simp add: loss_rate_def dbl_one_def dbl_of_u16_def unat_eq_0)

lemma frac16_unit:
  assumes "s \<noteq> 0" "r \<le> s"
  shows "0 \<le> frac16 r s" "frac16 r s \<le> 1"
  using assms by (simp_all add: divide_le_eq_1 word_le_nat_alt unat_gt_0)

lemma rnd_frac16_unit:
  assumes "s \<noteq> 0" "r \<le> s"
  shows "0 \<le> rnd (frac16 r s)" "rnd (frac16 r s) \<le> 1"
  using rnd_mono [OF frac16_unit(1) [OF assms]] rnd_mono [OF frac16_unit(2) [OF assms]] by simp_all

lemma loss_rate_unit:
  assumes "s \<noteq> 0" "r \<le> s"
  obtains x where "loss_rate r s = DFin x" "0 \<le> x" "x \<le> 1"
proof (rule that)
  show "loss_rate r s = DFin (rnd (1 - rnd (frac16 r s)))" using assms by (rule_tac loss_rate_eq)
  have "rnd 0 \<le> rnd (1 - rnd (frac16 r s))" "rnd (1 - rnd (frac16 r s)) \<le> rnd 1"
    using rnd_frac16_unit [OF assms] by (intro rnd_mono; simp)+
  then show "0 \<le> rnd (1 - rnd (frac16 r s))" "rnd (1 - rnd (frac16 r s)) \<le> 1" by simp_all
qed

lemma loss_rate_error:
  assumes "s \<noteq> 0" "r \<le> s"
  shows "\<bar>rnd (1 - rnd (frac16 r s)) - (1 - frac16 r s)\<bar> \<le> 1 / 2 ^ 52"
proof -
  have "\<bar>rnd (frac16 r s) - frac16 r s\<bar> \<le> 1 / 2 ^ 53"
    using frac16_unit [OF assms] by (intro rnd_error) simp
  moreover have "\<bar>rnd (1 - rnd (frac16 r s)) - (1 - rnd (frac16 r s))\<bar> \<le> 1 / 2 ^ 53"
    using rnd_frac16_unit [OF assms] by (intro rnd_error) simp
  moreover have "(1 :: rat) / 2 ^ 53 + 1 / 2 ^ 53 = 1 / 2 ^ 52" by simp
  ultimately show ?thesis by linarith
qed

text \<open>Two different fractions of 16-bit numbers are at least \<open>2 ^ (- 32)\<close> apart.\<close>

lemma frac16_gap:
  assumes "s1 \<noteq> 0" "s2 \<noteq> 0" "frac16 r1 s1 < frac16 r2 s2"
  shows "frac16 r1 s1 + 1 / 2 ^ 32 \<le> frac16 r2 s2"
proof -
  let ?a = "unat r1" and ?b = "unat s1" and ?c = "unat r2" and ?d = "unat s2"
  have pos: "0 < ?b" "0 < ?d" using assms(1,2) by (simp_all add: unat_gt_0)
  then have "(of_nat (?a * ?d) :: rat) < of_nat (?c * ?b)"
    using assms(3) by (simp add: field_simps)
  then have "?a * ?d + 1 \<le> ?c * ?b" by (simp only: of_nat_less_iff)
  then have "(of_nat (?a * ?d + 1) :: rat) \<le> of_nat (?c * ?b)" by (simp only: of_nat_le_iff)
  then have "1 / (of_nat ?b * of_nat ?d :: rat)
      \<le> (of_nat (?c * ?b) - of_nat (?a * ?d)) / (of_nat ?b * of_nat ?d)"
    by (intro divide_right_mono) simp_all
  also have "\<dots> = frac16 r2 s2 - frac16 r1 s1" using pos by (simp add: field_simps)
  finally have "frac16 r1 s1 + 1 / (of_nat ?b * of_nat ?d) \<le> frac16 r2 s2" by simp
  moreover have "(of_nat (?b * ?d) :: rat) \<le> of_nat (65536 * 65536)"
    using unat_u16_less [of s1] unat_u16_less [of s2] by (intro of_nat_mono mult_le_mono) simp_all
  then have "1 / (2 ^ 32 :: rat) \<le> 1 / (of_nat ?b * of_nat ?d)"
    using pos by (intro divide_left_mono) simp_all
  ultimately show ?thesis by linarith
qed

lemma loss_rate_less:
  assumes "s1 \<noteq> 0" "r1 \<le> s1" "s2 \<noteq> 0" "r2 \<le> s2" "frac16 r2 s2 < frac16 r1 s1"
  shows "rnd (1 - rnd (frac16 r1 s1)) < rnd (1 - rnd (frac16 r2 s2))"
proof -
  have "(1 :: rat) / 2 ^ 52 + 1 / 2 ^ 52 < 1 / 2 ^ 32" by simp
  then show ?thesis
    using frac16_gap [OF assms(3,1,5)] loss_rate_error [OF assms(1,2)] loss_rate_error [OF assms(3,4)]
    by linarith
qed

text \<open>Loss rates of sane counters are ordered as the fractions are.\<close>

lemma loss_rate_order_sane:
  assumes "s1 \<noteq> 0" "r1 \<le> s1" "s2 \<noteq> 0" "r2 \<le> s2"
  shows "dlt (loss_rate r1 s1) (loss_rate r2 s2) \<longleftrightarrow> unat r2 * unat s1 < unat r1 * unat s2"
proof -
  have pos: "0 < unat s1" "0 < unat s2" using assms by (simp_all add: unat_gt_0)
  have "unat r2 * unat s1 < unat r1 * unat s2
      \<longleftrightarrow> (of_nat (unat r2 * unat s1) :: rat) < of_nat (unat r1 * unat s2)"
    by (simp only: of_nat_less_iff)
  also have "\<dots> \<longleftrightarrow> frac16 r2 s2 < frac16 r1 s1" using pos by (simp add: field_simps)
  finally have frac: "unat r2 * unat s1 < unat r1 * unat s2 \<longleftrightarrow> frac16 r2 s2 < frac16 r1 s1" .
  consider "frac16 r2 s2 < frac16 r1 s1" | "frac16 r1 s1 < frac16 r2 s2" | "frac16 r1 s1 = frac16 r2 s2"
    by linarith
  then show ?thesis
    using loss_rate_less [OF assms] loss_rate_less [OF assms(3,4,1,2)]
    by cases (simp_all add: frac loss_rate_eq assms)
qed

lemma rnd_next: "rnd (65537 / 65536) = 65537 / 65536"
proof -
  have "ilog2 (65537 / 65536) = 0" by code_simp
  then have u: "ulp (65537 / 65536) = 1 / 2 ^ 52" by (simp add: ulp_def power_int_minus inverse_eq_divide)
  have "rne ((65537 / 65536) / (1 / 2 ^ 52)) = rne (of_int (65537 * 2 ^ 36))" by simp
  also have "\<dots> = 65537 * 2 ^ 36" by (rule rne_of_int)
  finally show ?thesis by (simp add: rnd_def rnd_pos_def u)
qed

text \<open>With more replies than pings the rate is negative.\<close>

lemma loss_rate_excess:
  assumes "s \<noteq> 0" "s < r"
  obtains x where "loss_rate r s = DFin x" "x < 0"
proof (rule that)
  show "loss_rate r s = DFin (rnd (1 - rnd (frac16 r s)))" using assms(1) by (rule loss_rate_eq)
  have s: "0 < unat s" "unat s + 1 \<le> unat r" "unat s \<le> 65535"
    using assms unat_u16_less [of s] by (simp_all add: word_less_nat_alt unat_gt_0)
  then have "65537 * unat s \<le> 65536 * unat r" by linarith
  then have "(of_nat (65537 * unat s) :: rat) \<le> of_nat (65536 * unat r)" by (rule of_nat_mono)
  then have "65537 / 65536 \<le> frac16 r s" using s(1) by (simp add: field_simps)
  then have "rnd (65537 / 65536) \<le> rnd (frac16 r s)" by (rule rnd_mono)
  then have "1 - rnd (frac16 r s) < 0" using rnd_next by simp
  then show "rnd (1 - rnd (frac16 r s)) < 0" using rnd_pos_pos [of "rnd (frac16 r s) - 1"] by (simp add: rnd_def)
qed

text \<open>Against the rate of sane counters, a rate of any counters is ordered as the fractions are.\<close>

lemma loss_rate_order:
  assumes "s1 \<noteq> 0" "s2 \<noteq> 0" "r2 \<le> s2"
  shows "dlt (loss_rate r1 s1) (loss_rate r2 s2) \<longleftrightarrow> unat r2 * unat s1 < unat r1 * unat s2"
    "dlt (loss_rate r2 s2) (loss_rate r1 s1) \<longleftrightarrow> unat r1 * unat s2 < unat r2 * unat s1"
proof -
  have pos: "0 < unat s1" "0 < unat s2" "unat r2 \<le> unat s2"
    using assms by (simp_all add: unat_gt_0 word_le_nat_alt)
  have "dlt (loss_rate r1 s1) (loss_rate r2 s2) \<longleftrightarrow> unat r2 * unat s1 < unat r1 * unat s2"
    "dlt (loss_rate r2 s2) (loss_rate r1 s1) \<longleftrightarrow> unat r1 * unat s2 < unat r2 * unat s1"
    if "\<not> r1 \<le> s1"
  proof -
    have "s1 < r1" using that by simp
    then obtain x where x: "loss_rate r1 s1 = DFin x" "x < 0" by (rule loss_rate_excess [OF assms(1)])
    obtain y where y: "loss_rate r2 s2 = DFin y" "0 \<le> y" by (rule loss_rate_unit [OF assms(2,3)])
    have "unat s1 < unat r1" using that by (simp add: word_le_nat_alt)
    then have "unat s1 * unat s2 < unat r1 * unat s2" using pos(2) by (rule mult_strict_right_mono)
    moreover have "unat r2 * unat s1 \<le> unat s1 * unat s2" using mult_le_mono1 [OF pos(3), of "unat s1"] by (simp add: mult.commute)
    ultimately have "unat r2 * unat s1 < unat r1 * unat s2" by linarith
    then show "dlt (loss_rate r1 s1) (loss_rate r2 s2) \<longleftrightarrow> unat r2 * unat s1 < unat r1 * unat s2"
      "dlt (loss_rate r2 s2) (loss_rate r1 s1) \<longleftrightarrow> unat r1 * unat s2 < unat r2 * unat s1"
      using x y by simp_all
  qed
  then show "dlt (loss_rate r1 s1) (loss_rate r2 s2) \<longleftrightarrow> unat r2 * unat s1 < unat r1 * unat s2"
    "dlt (loss_rate r2 s2) (loss_rate r1 s1) \<longleftrightarrow> unat r1 * unat s2 < unat r2 * unat s1"
    using loss_rate_order_sane [of s1 r1 s2 r2] loss_rate_order_sane [of s2 r2 s1 r1] assms by blast+
qed

section \<open>Properties\<close>

text \<open>
  C40: Loss rates are ordered as the exact fractions are: for two servers whose counters are sane
  (some ping sent, no more replies than pings), the computed \<open>double\<close> of the first is below that
  of the second exactly when its fraction of lost pings is, rounding notwithstanding.
\<close>
theorem loss_rate_order_exact:
  assumes "s1 \<noteq> 0" "r1 \<le> s1" "s2 \<noteq> 0" "r2 \<le> s2"
  shows "dlt (loss_rate r1 s1) (loss_rate r2 s2) \<longleftrightarrow> unat r2 * unat s1 < unat r1 * unat s2"
  by (rule loss_rate_order_sane [OF assms])

theorem loss_rate_order_exact_witness:
  "dlt (loss_rate 65534 65535) (loss_rate 65533 65534) \<longleftrightarrow> (65533 :: nat) * 65535 < 65534 * 65534"
  using loss_rate_order_exact [of 65535 65534 65534 65533] by simp

text \<open>
  A loss rate of sane counters is a number between 0 and 1, and it is a NaN or minus infinity
  when no ping was sent: \<open>0 / 0\<close> is a NaN, and a division of a positive count by zero is infinite.
\<close>
theorem loss_rate_range:
  "(if s = 0 then loss_rate r s = (if r = 0 then DNaN else DInf True)
    else r \<le> s \<longrightarrow> (\<exists>x. loss_rate r s = DFin x \<and> 0 \<le> x \<and> x \<le> 1))"
proof (cases "s = 0")
  case True
  then show ?thesis by (simp add: loss_rate_def dbl_one_def dbl_of_u16_def unat_eq_0)
next
  case False
  then show ?thesis using loss_rate_unit [of s r] by auto
qed

theorem loss_rate_range_witness: "\<exists>x. loss_rate 2 3 = DFin x \<and> 0 \<le> x \<and> x \<le> 1"
  using loss_rate_range [of 3 2] by simp

end
