(* ===== verification/Addr.thy ===== *)
theory Addr
  imports Memory
begin

text \<open>
  The textual forms of addresses and ports: \<open>ip_into_uint\<close>, \<open>ipUint_into_str\<close> and
  \<open>mac_into_byte\<close> of \<open>user/sm.cpp\<close>, \<open>parseIP\<close> and \<open>parsePort\<close> of \<open>base/cf.cpp\<close>, and the MAC line
  of \<open>Interface::printInterfaceInformation\<close>. The lemmas are the round trips between printing and
  parsing, the agreement of the two IPv4 parsers, and the memory that \<open>sscanf\<close> really writes.
\<close>

section \<open>Characters\<close>

text \<open>\<open>c - '0'\<close>: a \<open>char\<close> is signed on the host, and the difference is an \<open>int\<close>.\<close>

definition char_minus_0 :: "char \<Rightarrow> int" where
  "char_minus_0 c = (let n = int (of_char c :: nat) in (if n < 128 then n else n - 256) - 48)"

lemma char_minus_0_digit [simp]: "d < 10 \<Longrightarrow> char_minus_0 (digit_char d) = int d"
  by (simp add: char_minus_0_def digit_char_def Let_def)

lemma digit_char_not_dot [simp]: "d < 10 \<Longrightarrow> digit_char d \<noteq> CHR ''.''"
proof
  assume "d < 10" "digit_char d = CHR ''.''"
  moreover have "char_minus_0 (CHR ''.'') = - 2" by code_simp
  ultimately show False using char_minus_0_digit [of d] by simp
qed

section \<open>Dotted decimal, the user program's way\<close>

text \<open>The loop of \<open>ip_into_uint\<close> over the characters, with its two 32-bit accumulators.\<close>

fun ip_loop :: "string \<Rightarrow> u32 \<Rightarrow> u32 \<Rightarrow> u32" where
  "ip_loop [] acc part = acc + part"
| "ip_loop (c # cs) acc part =
     (if c = CHR ''.'' then ip_loop cs ((acc + part) * 256) 0
      else ip_loop cs acc (part * 10 + word_of_int (char_minus_0 c)))"

definition ip_into_uint :: "string \<Rightarrow> u32" where
  "ip_into_uint ip_str = ip_loop ip_str 0 0"

lemma unat_div_less: "p \<noteq> 0 \<Longrightarrow> 1 < unat k \<Longrightarrow> unat (p div k) < unat p" for p :: u32
  by (simp add: unat_div_distrib unat_gt_0)

text \<open>The inner \<open>do\<close>/\<open>while\<close> of \<open>ipUint_into_str\<close>: the decimal digits of one octet.\<close>

function octet_digits :: "u32 \<Rightarrow> string \<Rightarrow> string" where
  "octet_digits part acc =
     (let acc' = digit_char (unat (part mod 10)) # acc; part' = part div 10
      in if part' \<noteq> 0 then octet_digits part' acc' else acc')"
  by pat_completeness auto
termination
proof (relation "measure (\<lambda>(part, acc). unat part)", goal_cases)
  case (2 part acc acc' part')
  then have "part \<noteq> 0" by auto
  with 2 show ?case by (simp add: unat_div_less)
qed simp

declare octet_digits.simps [simp del]

text \<open>
  The outer loop. The code counts \<open>i\<close> down from 3; here \<open>i\<close> is one more, and 0 stands for the
  index \<open>-1\<close>, outside the array \<open>ip_str\<close>.
\<close>

function octet_loop :: "u32 \<Rightarrow> nat \<Rightarrow> string list \<Rightarrow> string list option" where
  "octet_loop ip_uint i ip_str =
     (if ip_uint = 0 then Some ip_str
      else if i = 0 then None
      else octet_loop (ip_uint div 256) (i - 1) (ip_str[i - 1 := octet_digits (ip_uint mod 256) []]))"
  by pat_completeness auto
termination
  by (relation "measure (\<lambda>(ip, i, s). unat ip)") (simp_all add: unat_div_less)

declare octet_loop.simps [simp del]

definition ipUint_into_str :: "u32 \<Rightarrow> string option" where
  "ipUint_into_str ip_uint =
     do { s \<leftarrow> octet_loop ip_uint 4 ['''', '''', '''', ''''];
          Some (s ! 0 @ ''.'' @ s ! 1 @ ''.'' @ s ! 2 @ ''.'' @ s ! 3) }"

lemma octet_digits_show: "octet_digits part acc = show_nat (unat part) @ acc"
proof (induction part acc rule: octet_digits.induct)
  case (1 part acc)
  have eq: "unat (part div 10) = unat part div 10" "unat (part mod 10) = unat part mod 10"
    by (simp_all add: unat_div_distrib unat_mod_distrib)
  show ?case
  proof (cases "part div 10 = 0")
    case True
    then have "unat part div 10 = 0" using eq(1) by simp
    then have "unat part < 10" by (simp add: div_eq_0_iff)
    then show ?thesis using True eq(2)
      by (simp add: octet_digits.simps [of part] show_nat.simps [of "unat part"] Let_def)
  next
    case False
    then have "unat part div 10 \<noteq> 0" using eq(1) by (metis unat_eq_0)
    then have ge: "\<not> unat part < 10" by (simp add: div_eq_0_iff)
    from False "1.IH" have "octet_digits part acc
        = show_nat (unat part div 10) @ digit_char (unat part mod 10) # acc"
      by (simp add: octet_digits.simps [of part] Let_def eq)
    with ge show ?thesis by (simp add: show_nat.simps [of "unat part"])
  qed
qed

text \<open>What \<open>ipUint_into_str\<close> writes for one octet: nothing where only zero octets lead.\<close>

definition octet_text :: "u32 \<Rightarrow> nat \<Rightarrow> string" where
  "octet_text ip k =
     (if unat ip div 256 ^ k = 0 then '''' else show_nat (unat ip div 256 ^ k mod 256))"

lemma octet_loop_step:
  "ip \<noteq> 0 \<Longrightarrow> octet_loop ip (Suc i) s = octet_loop (ip div 256) i (s[i := show_nat (unat ip mod 256)])"
  by (subst octet_loop.simps) (simp add: octet_digits_show unat_mod_distrib)

lemma octet_loop_done: "octet_loop 0 i s = Some s"
  by (subst octet_loop.simps) simp

lemma octet_loop_eq:
  assumes "length s = i" "set s \<subseteq> {''''}" "unat ip < 256 ^ i"
  shows "octet_loop ip i (s @ r) = Some (map (octet_text ip) (rev [0..<i]) @ r)"
  using assms
proof (induction i arbitrary: ip s r)
  case 0
  then show ?case by (simp add: unat_eq_0 octet_loop_done)
next
  case (Suc i)
  from Suc.prems(1,2) obtain t where s: "s = t @ ['''']" "length t = i" "set t \<subseteq> {''''}"
    by (cases s rule: rev_exhaust) auto
  have div: "octet_text (ip div 256) k = octet_text ip (Suc k)" for k
    by (simp add: octet_text_def unat_div_distrib div_mult2_eq mult.commute)
  have upd: "(t @ '''' # r)[i := x] = t @ x # r" for x using s(2) by (simp add: list_update_append)
  have rev: "map (octet_text ip) (rev [0..<Suc i])
      = map (\<lambda>k. octet_text ip (Suc k)) (rev [0..<i]) @ [octet_text ip 0]"
  proof -
    have "[0..<Suc i] = 0 # map Suc [0..<i]" by (simp add: upt_conv_Cons map_Suc_upt del: upt_Suc)
    then show ?thesis by (simp add: rev_map del: upt_Suc)
  qed
  show ?case
  proof (cases "ip = 0")
    case True
    have "octet_text 0 = (\<lambda>_. '''')" by (rule ext) (simp add: octet_text_def)
    then have "map (octet_text 0) (rev [0..<Suc i]) = replicate (Suc i) ''''"
      by (simp only: map_replicate_const length_rev length_upt diff_zero)
    moreover have "replicate (length s) '''' = s"
      using Suc.prems(2) by (intro replicate_length_same) auto
    ultimately show ?thesis using True Suc.prems(1) by (simp only: octet_loop_done)
  next
    case False
    have "unat (ip div 256) < 256 ^ i"
      using Suc.prems(3) by (simp add: unat_div_distrib less_mult_imp_div_less)
    then have "octet_loop (ip div 256) i (t @ show_nat (unat ip mod 256) # r)
        = Some (map (octet_text (ip div 256)) (rev [0..<i]) @ show_nat (unat ip mod 256) # r)"
      using Suc.IH [of t "ip div 256"] s by simp
    then show ?thesis
      using False by (simp add: s(1) octet_loop_step upd rev div octet_text_def [of ip 0] unat_eq_0
          del: upt_Suc)
  qed
qed

lemma ipUint_into_str_eq:
  "ipUint_into_str ip = Some (octet_text ip 3 @ ''.'' @ octet_text ip 2 @ ''.'' @
     octet_text ip 1 @ ''.'' @ octet_text ip 0)"
proof -
  have "octet_loop ip 4 (['''', '''', '''', ''''] @ []) = Some (map (octet_text ip) (rev [0..<4]) @ [])"
    using unat_u32_less [of ip] by (intro octet_loop_eq) simp_all
  moreover have "rev [0..<4] = [3, 2, 1, 0]" by code_simp
  ultimately show ?thesis by (simp add: ipUint_into_str_def)
qed

section \<open>Reading digits back\<close>

lemma show_nat_digits:
  "\<exists>ds. show_nat n = map digit_char ds \<and> (\<forall>d\<in>set ds. d < 10) \<and> ds \<noteq> [] \<and>
    foldl (\<lambda>a d. a * 10 + d) 0 ds = n"
proof (induction n rule: show_nat.induct)
  case (1 n)
  show ?case
  proof (cases "n < 10")
    case True
    then have "show_nat n = map digit_char [n]" by (subst show_nat.simps) simp
    with True show ?thesis by (intro exI [of _ "[n]"]) simp
  next
    case False
    with "1.IH" obtain ds where "show_nat (n div 10) = map digit_char ds" "\<forall>d\<in>set ds. d < 10"
      "foldl (\<lambda>a d. a * 10 + d) 0 ds = n div 10" by auto
    with False show ?thesis
      by (intro exI [of _ "ds @ [n mod 10]"]) (simp add: show_nat.simps [of n])
  qed
qed

lemma ip_loop_digits:
  "\<forall>d\<in>set ds. d < 10 \<Longrightarrow> ip_loop (map digit_char ds @ cs) acc (of_nat a)
     = ip_loop cs acc (of_nat (foldl (\<lambda>a d. a * 10 + d) a ds))"
proof (induction ds arbitrary: a)
  case (Cons d ds)
  then have "ip_loop (map digit_char ds @ cs) acc (of_nat (a * 10 + d))
      = ip_loop cs acc (of_nat (foldl (\<lambda>a d. a * 10 + d) (a * 10 + d) ds))"
    by (intro Cons.IH) simp
  with Cons.prems show ?case by simp
qed simp

lemma ip_loop_show: "ip_loop (show_nat n @ cs) acc 0 = ip_loop cs acc (of_nat n)"
  using show_nat_digits [of n] ip_loop_digits [of _ cs acc 0] by auto

lemma ip_loop_octet:
  "ip_loop (octet_text ip k @ cs) acc 0 = ip_loop cs acc (of_nat (unat ip div 256 ^ k mod 256))"
  by (simp add: octet_text_def ip_loop_show)

lemma octets_value:
  "(((of_nat (n div 16777216 mod 256) * 256 + of_nat (n div 65536 mod 256)) * 256
      + of_nat (n div 256 mod 256)) * 256 + of_nat (n mod 256)) = (of_nat n :: u32)"
  if "n < 4294967296"
proof -
  have top: "n div 16777216 < 256" using that by (simp add: less_mult_imp_div_less)
  have "n = ((n div 16777216 mod 256 * 256 + n div 65536 mod 256) * 256
      + n div 256 mod 256) * 256 + n mod 256"
    using mod_mult2_eq [of n 256 256] mod_mult2_eq [of n 65536 256]
      mult_div_mod_eq [of 16777216 n] top by simp
  then show ?thesis
    by (metis (no_types, lifting) of_nat_add of_nat_mult of_nat_numeral)
qed

lemma ip_into_uint_dot: "ip_loop (CHR ''.'' # cs) acc part = ip_loop cs ((acc + part) * 256) 0"
  by simp

lemma ip_into_uint_octets:
  "ip_into_uint (octet_text ip 3 @ ''.'' @ octet_text ip 2 @ ''.'' @ octet_text ip 1 @ ''.''
     @ octet_text ip 0) = ip"
  using octets_value [OF unat_u32_less [of ip]] ip_loop_octet [of ip 0 "[]"]
  by (simp add: ip_into_uint_def ip_loop_octet)

section \<open>Dotted decimal and ports, the framework's way\<close>

text \<open>
  \<open>parseIP\<close> and \<open>parsePort\<close> return a \<open>bool\<close> and, when it is true, a result through a reference.
\<close>

datatype 'a parsed = Rejected | Parsed 'a

text \<open>The digits of one octet: at most three, so the \<open>unsigned int\<close> cannot overflow.\<close>

fun parse_num :: "string \<Rightarrow> nat \<Rightarrow> nat parsed" where
  "parse_num [] num = Parsed num"
| "parse_num (c # cs) num =
     (let d = char_minus_0 c in
      if d < 0 \<or> d > 9 then Rejected else parse_num cs (num * 10 + nat d))"

text \<open>
  The loop over the four octets. The position \<open>dotPos\<close> is the suffix it leaves, \<open>ip.find ('.')\<close>
  the length of the token in front; a token as long as the suffix is \<open>npos\<close>.
\<close>

fun parse_octets :: "nat \<Rightarrow> string \<Rightarrow> u8 list \<Rightarrow> (u8 list \<times> string) parsed" where
  "parse_octets 0 rest arr = Parsed (arr, rest)"
| "parse_octets (Suc k) rest arr =
     (let tok = takeWhile (\<lambda>c. c \<noteq> CHR ''.'') rest in
      if length tok = length rest then Rejected
      else if length tok > 3 then Rejected
      else case parse_num tok 0 of
        Rejected \<Rightarrow> Rejected
      | Parsed num \<Rightarrow>
          if num > 255 then Rejected
          else parse_octets k (drop (length tok + 1) rest) (arr @ [of_nat num]))"

definition parseIP :: "string \<Rightarrow> u32 parsed" where
  "parseIP ip =
     (case parse_octets 4 (ip @ ''.'') [] of
        Rejected \<Rightarrow> Rejected
      | Parsed (arr, rest) \<Rightarrow> if rest = [] then Parsed (ntohl (dec32 arr)) else Rejected)"

text \<open>The \<open>int\<close> of \<open>parsePort\<close> is not bounded before the end of the text: it can overflow.\<close>

fun parse_port_loop :: "string \<Rightarrow> int \<Rightarrow> int parsed option" where
  "parse_port_loop [] num = Some (Parsed num)"
| "parse_port_loop (c # cs) num =
     (let digit = char_minus_0 c in
      if digit < 0 \<or> digit > 9 then Some Rejected
      else if num * 10 + digit > 2147483647 then None
      else parse_port_loop cs (num * 10 + digit))"

definition parsePort :: "string \<Rightarrow> u16 parsed option" where
  "parsePort port = do {
     r \<leftarrow> parse_port_loop port 0;
     Some (case r of Rejected \<Rightarrow> Rejected
           | Parsed num \<Rightarrow> if num \<ge> 65536 then Rejected else Parsed (word_of_int num)) }"

lemma parse_num_ip_loop:
  assumes "parse_num tok n = Parsed num"
  shows "ip_loop (tok @ cs) acc (of_nat n) = ip_loop cs acc (of_nat num)"
  using assms
proof (induction tok n rule: parse_num.induct)
  case (2 c tok n)
  let ?d = "char_minus_0 c"
  from "2.prems" have d: "0 \<le> ?d" "?d \<le> 9" by (auto simp: Let_def split: if_splits)
  have "char_minus_0 (CHR ''.'') = - 2" by code_simp
  with d have "c \<noteq> CHR ''.''" by auto
  moreover have "(of_nat (n * 10 + nat ?d) :: u32) = of_nat n * 10 + word_of_int ?d"
    using d by simp
  ultimately show ?case using 2 d by (simp add: Let_def)
qed simp

text \<open>The texts of an octet: at most three digits, perhaps none, of value at most 255.\<close>

definition token_value :: "string \<Rightarrow> nat" where
  "token_value tok = foldl (\<lambda>n c. n * 10 + nat (char_minus_0 c)) 0 tok"

definition octet_token :: "string \<Rightarrow> bool" where
  "octet_token tok \<longleftrightarrow> length tok \<le> 3 \<and> (\<forall>c\<in>set tok. 0 \<le> char_minus_0 c \<and> char_minus_0 c \<le> 9) \<and> token_value tok \<le> 255"

lemma parse_num_value:
  "parse_num tok n = (if \<forall>c\<in>set tok. 0 \<le> char_minus_0 c \<and> char_minus_0 c \<le> 9
     then Parsed (foldl (\<lambda>n c. n * 10 + nat (char_minus_0 c)) n tok) else Rejected)"
  by (induction tok n rule: parse_num.induct) (auto simp: Let_def)

lemma octet_token_no_dot: "octet_token tok \<Longrightarrow> c \<in> set tok \<Longrightarrow> c \<noteq> CHR ''.''"
proof
  assume "octet_token tok" "c \<in> set tok" "c = CHR ''.''"
  then have "0 \<le> char_minus_0 (CHR ''.'')" by (auto simp: octet_token_def)
  moreover have "char_minus_0 (CHR ''.'') = - 2" by code_simp
  ultimately show False by simp
qed

lemma parse_octets_token:
  assumes "octet_token tok"
  shows "parse_octets (Suc k) (tok @ CHR ''.'' # cs) arr = parse_octets k cs (arr @ [of_nat (token_value tok)])"
proof -
  have "takeWhile (\<lambda>c. c \<noteq> CHR ''.'') (tok @ CHR ''.'' # cs) = tok"
    using octet_token_no_dot [OF assms] by (subst takeWhile_append2) auto
  then show ?thesis using assms by (simp add: Let_def parse_num_value octet_token_def token_value_def)
qed

lemma parse_octets_SucE:
  assumes "parse_octets (Suc k) rest arr = Parsed res"
  obtains tok cs where "rest = tok @ CHR ''.'' # cs" "octet_token tok"
    "parse_octets k cs (arr @ [of_nat (token_value tok)]) = Parsed res"
proof -
  let ?tok = "takeWhile (\<lambda>c. c \<noteq> CHR ''.'') rest"
  obtain num where num: "parse_num ?tok 0 = Parsed num" "num \<le> 255"
    "parse_octets k (drop (length ?tok + 1) rest) (arr @ [of_nat num]) = Parsed res"
    and len: "length ?tok \<noteq> length rest" "length ?tok \<le> 3"
    using assms by (auto simp: Let_def split: if_splits parsed.splits)
  then have "dropWhile (\<lambda>c. c \<noteq> CHR ''.'') rest \<noteq> []"
    by (metis append_Nil2 takeWhile_dropWhile_id)
  then obtain cs where cs: "dropWhile (\<lambda>c. c \<noteq> CHR ''.'') rest = CHR ''.'' # cs"
    using hd_dropWhile [of "\<lambda>c. c \<noteq> CHR ''.''" rest]
    by (cases "dropWhile (\<lambda>c. c \<noteq> CHR ''.'') rest") auto
  have rest: "rest = ?tok @ CHR ''.'' # cs" by (metis cs takeWhile_dropWhile_id)
  have "drop (length t + 1) (t @ CHR ''.'' # cs) = cs" for t by simp
  from this [of ?tok] have "drop (length ?tok + 1) rest = cs"
    by (simp only: rest [symmetric])
  moreover have "octet_token ?tok" "num = token_value ?tok"
    using num(1,2) len(2) by (simp_all add: octet_token_def token_value_def parse_num_value split: if_splits)
  ultimately show ?thesis using that [OF rest] num(3) by simp
qed

definition address_of :: "nat \<Rightarrow> nat \<Rightarrow> nat \<Rightarrow> nat \<Rightarrow> u32" where
  "address_of a b c d = ((of_nat a * 256 + of_nat b) * 256 + of_nat c) * 256 + of_nat d"

lemma four_octets:
  assumes "a \<le> 255" "b \<le> 255" "c \<le> 255" "d \<le> 255"
  shows "ntohl (dec32 [of_nat a, of_nat b, of_nat c, of_nat d]) = address_of a b c d"
proof -
  have "ntohl (dec32 [of_nat a, of_nat b, of_nat c, of_nat d]) = le32 (of_nat d) (of_nat c) (of_nat b) (of_nat a)"
    by (simp add: dec32_def htonl_def wire_simps)
  then show ?thesis using assms by (simp add: le32_def unat_of_nat_less address_of_def algebra_simps)
qed

lemma parseIP_tokens:
  assumes "octet_token a" "octet_token b" "octet_token c" "octet_token d"
  shows "parseIP (a @ CHR ''.'' # b @ CHR ''.'' # c @ CHR ''.'' # d)
    = Parsed (address_of (token_value a) (token_value b) (token_value c) (token_value d))"
proof -
  have four: "(4 :: nat) = Suc (Suc (Suc (Suc 0)))" by simp
  have "parse_octets 4 ((a @ CHR ''.'' # b @ CHR ''.'' # c @ CHR ''.'' # d) @ ''.'') []
      = Parsed (map of_nat [token_value a, token_value b, token_value c, token_value d], [])"
    unfolding four using assms by (simp add: parse_octets_token del: parse_octets.simps(2))
  moreover have "token_value a \<le> 255" "token_value b \<le> 255" "token_value c \<le> 255" "token_value d \<le> 255"
    using assms by (simp_all add: octet_token_def)
  ultimately show ?thesis by (simp add: parseIP_def four_octets del: htonl_inj)
qed

lemma parseIP_E:
  assumes "parseIP ip = Parsed w"
  obtains a b c d where "ip = a @ CHR ''.'' # b @ CHR ''.'' # c @ CHR ''.'' # d"
    "octet_token a" "octet_token b" "octet_token c" "octet_token d"
proof -
  have four: "(4 :: nat) = Suc (Suc (Suc (Suc 0)))" by simp
  from assms obtain arr where "parse_octets 4 (ip @ ''.'') [] = Parsed (arr, [])"
    by (auto simp: parseIP_def split: parsed.splits prod.splits if_splits)
  then have "parse_octets (Suc (Suc (Suc (Suc 0)))) (ip @ ''.'') [] = Parsed (arr, [])"
    using four by simp
  then obtain a c1 x1 where 1: "ip @ ''.'' = a @ CHR ''.'' # c1" "octet_token a"
    "parse_octets (Suc (Suc (Suc 0))) c1 x1 = Parsed (arr, [])"
    by (rule parse_octets_SucE)
  from 1(3) obtain b c2 x2 where 2: "c1 = b @ CHR ''.'' # c2" "octet_token b"
    "parse_octets (Suc (Suc 0)) c2 x2 = Parsed (arr, [])"
    by (rule parse_octets_SucE)
  from 2(3) obtain c c3 x3 where 3: "c2 = c @ CHR ''.'' # c3" "octet_token c"
    "parse_octets (Suc 0) c3 x3 = Parsed (arr, [])"
    by (rule parse_octets_SucE)
  from 3(3) obtain d c4 x4 where 4: "c3 = d @ CHR ''.'' # c4" "octet_token d" "parse_octets 0 c4 x4 = Parsed (arr, [])"
    by (rule parse_octets_SucE)
  have "ip @ ''.'' = (a @ CHR ''.'' # b @ CHR ''.'' # c @ CHR ''.'' # d) @ ''.''"
    using 1(1) 2(1) 3(1) 4(1,3) by simp
  then have "ip = a @ CHR ''.'' # b @ CHR ''.'' # c @ CHR ''.'' # d" by simp
  then show ?thesis using that 1(2) 2(2) 3(2) 4(2) by blast
qed

lemma ip_loop_token: "octet_token tok \<Longrightarrow> ip_loop (tok @ cs) acc 0 = ip_loop cs acc (of_nat (token_value tok))"
  using parse_num_ip_loop [of tok 0 "token_value tok"] by (simp add: octet_token_def token_value_def parse_num_value)

lemma ip_into_uint_tokens:
  assumes "octet_token a" "octet_token b" "octet_token c" "octet_token d"
  shows "ip_into_uint (a @ CHR ''.'' # b @ CHR ''.'' # c @ CHR ''.'' # d)
    = address_of (token_value a) (token_value b) (token_value c) (token_value d)"
  using ip_loop_token [OF assms(1)] ip_loop_token [OF assms(2)] ip_loop_token [OF assms(3)] ip_loop_token [OF assms(4), of "[]"]
  by (simp add: ip_into_uint_def address_of_def)

section \<open>Printing dotted decimal with stream operators\<close>

text \<open>
  \<open>(ip >> 24) << "." << ((ip >> 16) & 0xFF) << ...\<close>, as \<open>connectToServer\<close>, \<open>printArguments\<close> and
  \<open>printInterfaceInformation\<close> write an address.
\<close>

definition dotted :: "u32 \<Rightarrow> string" where
  "dotted ip = show_nat (unat (drop_bit 24 ip)) @ ''.'' @ show_nat (unat (drop_bit 16 ip AND 0xFF))
     @ ''.'' @ show_nat (unat (drop_bit 8 ip AND 0xFF)) @ ''.'' @ show_nat (unat (ip AND 0xFF))"

lemma unat_and_ff: "unat (x AND 0xFF) = unat x mod 256" for x :: u32
proof -
  have "x AND 0xFF = take_bit 8 x" by (simp add: take_bit_eq_mask mask_eq_exp_minus_1)
  then show ?thesis by (simp add: unsigned_take_bit_eq take_bit_nat_def)
qed

lemma dotted_eq:
  "dotted ip = show_nat (unat ip div 16777216) @ CHR ''.'' # show_nat (unat ip div 65536 mod 256)
     @ CHR ''.'' # show_nat (unat ip div 256 mod 256) @ CHR ''.'' # show_nat (unat ip mod 256)"
  by (simp add: dotted_def unat_and_ff unat_drop_bit_eq drop_bit_eq_div unat_div_distrib unat_mod_distrib)

lemma parse_num_digits:
  "\<forall>d\<in>set ds. d < 10 \<Longrightarrow> parse_num (map digit_char ds) n = Parsed (foldl (\<lambda>a d. a * 10 + d) n ds)"
  by (induction ds arbitrary: n) (auto simp: Let_def)

lemma parse_num_show: "parse_num (show_nat n) 0 = Parsed n"
  using show_nat_digits [of n] parse_num_digits by fastforce

lemma length_show_nat: "n < 1000 \<Longrightarrow> length (show_nat n) \<le> 3"
  by (subst show_nat.simps, subst show_nat.simps, subst show_nat.simps) simp

lemma show_octet:
  assumes "n \<le> 255"
  shows "octet_token (show_nat n)" "token_value (show_nat n) = n"
  using parse_num_show [of n] length_show_nat [of n] assms
  by (auto simp: octet_token_def token_value_def parse_num_value split: if_splits)

lemma parseIP_show:
  assumes "a \<le> 255" "b \<le> 255" "c \<le> 255" "d \<le> 255"
  shows "parseIP (show_nat a @ CHR ''.'' # show_nat b @ CHR ''.'' # show_nat c @ CHR ''.'' # show_nat d)
    = Parsed (((of_nat a * 256 + of_nat b) * 256 + of_nat c) * 256 + of_nat d)"
  using parseIP_tokens [OF show_octet(1) show_octet(1) show_octet(1) show_octet(1), OF assms] assms
  by (simp add: show_octet(2) address_of_def)

lemma octet_le: "n mod 256 \<le> (255 :: nat)"
  using mod_less_divisor [of 256 n] by linarith

lemma parseIP_dotted: "parseIP (dotted w) = Parsed w"
proof -
  have top: "unat w div 16777216 \<le> 255"
    using less_mult_imp_div_less [of "unat w" 256 16777216] unat_u32_less [of w] by simp
  then have "unat w div 16777216 mod 256 = unat w div 16777216" by simp
  then show ?thesis
    using octets_value [OF unat_u32_less [of w]] parseIP_show [OF top octet_le octet_le octet_le]
    by (simp add: dotted_eq)
qed

section \<open>MAC addresses\<close>

text \<open>\<open>TO_HEX\<close>, and the line of \<open>printInterfaceInformation\<close>: the last \<open>':'\<close> becomes the NUL.\<close>

definition to_hex :: "nat \<Rightarrow> char" where
  "to_hex d = (if d < 10 then char_of (d + 48) else char_of (d - 10 + 65))"

definition mac_str :: "u8 list \<Rightarrow> string" where
  "mac_str mac = butlast (concat (map (\<lambda>b. [to_hex (unat b div 16), to_hex (unat b mod 16), CHR '':'']) mac))"

definition hexval :: "char \<Rightarrow> nat option" where
  "hexval c = (let n = of_char c :: nat in
     if 48 \<le> n \<and> n \<le> 57 then Some (n - 48)
     else if 65 \<le> n \<and> n \<le> 70 then Some (n - 55)
     else if 97 \<le> n \<and> n \<le> 102 then Some (n - 87) else None)"

definition is_space :: "char \<Rightarrow> bool" where
  "is_space c = (let n = of_char c :: nat in n = 32 \<or> (9 \<le> n \<and> n \<le> 13))"

text \<open>
  One \<open>%02X\<close> of \<open>sscanf\<close>: white space is skipped, then at most two characters are taken: a sign,
  then hexadecimal digits. The item \<open>0x\<close> is a prefix of a number but no number, a matching
  failure, like no digit at all.
\<close>

definition hex_digits :: "nat \<Rightarrow> string \<Rightarrow> string" where
  "hex_digits w s = takeWhile (\<lambda>c. hexval c \<noteq> None) (take w s)"

definition hex_value :: "string \<Rightarrow> nat" where
  "hex_value ds = foldl (\<lambda>a c. a * 16 + the (hexval c)) 0 ds"

definition scan_hex2 :: "string \<Rightarrow> (u32 \<times> string) option" where
  "scan_hex2 str =
     (let s = dropWhile is_space str;
          signed = (s \<noteq> [] \<and> hd s \<in> {CHR ''+'', CHR ''-''});
          body = (if signed then tl s else s);
          width = (if signed then 1 else 2);
          ds = hex_digits width body;
          v = of_nat (hex_value ds) :: u32
      in if ds = [] \<or> (width = 2 \<and> take 2 body \<in> {''0x'', ''0X''}) then None
         else Some (if signed \<and> hd s = CHR ''-'' then - v else v, drop (length ds) body))"

text \<open>
  \<open>sscanf (mac, "%02X:...", &mac_addr[0], ...)\<close>: each conversion stores an \<open>unsigned int\<close> through
  the byte pointer it was given, four bytes at \<open>mac_addr + k\<close>. The call stops at the first
  failure; \<open>mem\<close> is the memory from \<open>mac_addr\<close> on.
\<close>

fun scan_mac :: "nat \<Rightarrow> nat \<Rightarrow> string \<Rightarrow> u8 list \<Rightarrow> u8 list option" where
  "scan_mac k 0 s mem = Some mem"
| "scan_mac k (Suc n) s mem =
     (case scan_hex2 s of
        None \<Rightarrow> Some mem
      | Some (v, r) \<Rightarrow> do {
          mem' \<leftarrow> store32 mem k v;
          (if n = 0 \<or> r = [] \<or> hd r \<noteq> CHR '':'' then Some mem'
           else scan_mac (k + 1) n (tl r) mem') })"

definition mac_into_byte :: "string \<Rightarrow> u8 list \<Rightarrow> u8 list option" where
  "mac_into_byte mac mem = scan_mac 0 6 mac mem"

lemma to_hex_facts:
  assumes "d < 16"
  shows "hexval (to_hex d) = Some d" "\<not> is_space (to_hex d)"
    "to_hex d \<noteq> CHR ''+''" "to_hex d \<noteq> CHR ''-''" "to_hex d \<noteq> CHR ''x''" "to_hex d \<noteq> CHR ''X''"
proof -
  have "\<forall>d\<in>set [0..<16]. hexval (to_hex d) = Some d \<and> \<not> is_space (to_hex d)
     \<and> to_hex d \<noteq> CHR ''+'' \<and> to_hex d \<noteq> CHR ''-'' \<and> to_hex d \<noteq> CHR ''x'' \<and> to_hex d \<noteq> CHR ''X''"
    by code_simp
  then show "hexval (to_hex d) = Some d" "\<not> is_space (to_hex d)"
    "to_hex d \<noteq> CHR ''+''" "to_hex d \<noteq> CHR ''-''" "to_hex d \<noteq> CHR ''x''" "to_hex d \<noteq> CHR ''X''"
    using assms by auto
qed

lemma scan_hex2_text:
  "a < 16 \<Longrightarrow> b < 16 \<Longrightarrow> scan_hex2 (to_hex a # to_hex b # r) = Some (of_nat (a * 16 + b), r)"
  by (simp add: scan_hex2_def Let_def to_hex_facts hex_digits_def hex_value_def)

lemma bytes32_of_u8: "bytes32 (of_nat (unat b)) = [b, 0, 0, 0]" for b :: u8
proof -
  have "unat (of_nat (unat b) :: u32) = unat b"
    using unat_u8_less [of b] by (intro unat_of_nat_less) simp
  then show ?thesis
    using unat_u8_less [of b] by (simp add: bytes32_def byte_of_def)
qed

lemma store32_of_u8:
  "store32 mem k (of_nat (unat b)) =
     (if k + 4 \<le> length mem then Some (take k mem @ [b, 0, 0, 0] @ drop (k + 4) mem) else None)"
  for b :: u8
proof -
  have "length [b, 0, 0, 0] = 4" by simp
  then show ?thesis unfolding store32_def bytes32_of_u8 store_bytes_def by metis
qed

lemma mac_str_Cons:
  "mac_str [b] = [to_hex (unat b div 16), to_hex (unat b mod 16)]"
  "mac_str (b # c # bs) = to_hex (unat b div 16) # to_hex (unat b mod 16) # CHR '':'' # mac_str (c # bs)"
  by (simp_all add: mac_str_def)

lemma scan_hex2_byte:
  "scan_hex2 (to_hex (unat b div 16) # to_hex (unat b mod 16) # r) = Some (of_nat (unat b), r)"
  for b :: u8
  using scan_hex2_text [of "unat b div 16" "unat b mod 16" r] unat_u8_less [of b]
  by (simp add: less_mult_imp_div_less)

lemma scan_mac_text:
  "bs \<noteq> [] \<Longrightarrow> scan_mac k (length bs) (mac_str bs) mem =
     (if k + length bs + 3 \<le> length mem
      then Some (take k mem @ bs @ [0, 0, 0] @ drop (k + length bs + 3) mem) else None)"
proof (induction bs arbitrary: k mem)
  case (Cons b bs)
  show ?case
  proof (cases bs)
    case Nil
    have e: "k + length [b] + 3 = k + 4" by simp
    show ?thesis
      unfolding Nil e by (simp add: mac_str_Cons scan_hex2_byte store32_of_u8)
  next
    case (Cons c cs)
    let ?mem = "take k mem @ [b, 0, 0, 0] @ drop (k + 4) mem"
    note st = store32_of_u8 [of mem k b]
    have IH: "scan_mac (k + 1) (length bs) (mac_str bs) ?mem =
       (if k + 1 + length bs + 3 \<le> length ?mem
        then Some (take (k + 1) ?mem @ bs @ [0, 0, 0] @ drop (k + 1 + length bs + 3) ?mem) else None)"
      using Cons by (intro Cons.IH) simp
    have step: "scan_mac k (length (b # bs)) (mac_str (b # bs)) mem =
        (if k + 4 \<le> length mem then scan_mac (k + 1) (length bs) (mac_str bs) ?mem else None)"
      unfolding Cons by (simp add: mac_str_Cons scan_hex2_byte st)
    show ?thesis
    proof (cases "k + 4 \<le> length mem")
      case True
      have "drop (k + 1 + length bs + 3) ?mem = drop (k + length (b # bs) + 3) mem"
      proof -
        have "length (take k mem @ [b, 0, 0, 0]) = k + 4" using True by simp
        then have "drop (length bs + (k + 4)) ((take k mem @ [b, 0, 0, 0]) @ drop (k + 4) mem)
            = drop (length bs) (drop (k + 4) mem)"
          by (metis append_eq_conv_conj drop_drop)
        then show ?thesis by (simp add: ac_simps)
      qed
      with True show ?thesis unfolding step IH by (auto simp: min_def)
    next
      case False
      then show ?thesis unfolding step by simp
    qed
  qed
qed simp

section \<open>Properties\<close>

text \<open>
  C38: Printing an address with \<open>ipUint_into_str\<close> never runs off its array of four octets, and
  \<open>ip_into_uint\<close> reads every printed address back, also where leading zero octets are printed as
  nothing.
\<close>
theorem ip_text_roundtrip: "\<exists>s. ipUint_into_str ip = Some s \<and> ip_into_uint s = ip"
  using ipUint_into_str_eq [of ip] ip_into_uint_octets [of ip] by simp

text \<open>
  \<open>ipUint_into_str\<close> prints the usual dotted decimal exactly for the addresses whose first octet
  is not zero.
\<close>
theorem ipUint_into_str_dotted_iff:
  "ipUint_into_str ip = Some (dotted ip) \<longleftrightarrow> 16777216 \<le> unat ip"
proof
  assume "16777216 \<le> unat ip"
  moreover have "unat ip div 16777216 < 256"
    using unat_u32_less [of ip] by (simp add: less_mult_imp_div_less)
  ultimately show "ipUint_into_str ip = Some (dotted ip)"
    by (simp add: ipUint_into_str_eq dotted_eq octet_text_def div_eq_0_iff)
next
  assume eq: "ipUint_into_str ip = Some (dotted ip)"
  show "16777216 \<le> unat ip"
  proof (rule ccontr)
    assume "\<not> ?thesis"
    then have z: "unat ip div 16777216 = 0" by simp
    have "show_nat 0 = ''0''" by code_simp
    with eq z show False
      by (simp add: ipUint_into_str_eq dotted_eq octet_text_def)
  qed
qed

text \<open>
  C39: The framework's \<open>parseIP\<close> accepts exactly four octets with dots between them, each of at most three
  digits (even none) and a value of at most 255, and gives the address they make; so it reads back
  every address the program prints in dotted decimal, and from whatever text it accepts the user
  program's \<open>ip_into_uint\<close> reads the same address.
\<close>
theorem parseIP_correct:
  "(parseIP s = Parsed v \<longleftrightarrow> (\<exists>a b c d. s = a @ CHR ''.'' # b @ CHR ''.'' # c @ CHR ''.'' # d
      \<and> octet_token a \<and> octet_token b \<and> octet_token c \<and> octet_token d
      \<and> v = address_of (token_value a) (token_value b) (token_value c) (token_value d)))
   \<and> parseIP (dotted w) = Parsed w \<and> (parseIP s = Parsed v \<longrightarrow> ip_into_uint s = v)"
proof -
  have "\<exists>a b c d. s = a @ CHR ''.'' # b @ CHR ''.'' # c @ CHR ''.'' # d
      \<and> octet_token a \<and> octet_token b \<and> octet_token c \<and> octet_token d
      \<and> v = address_of (token_value a) (token_value b) (token_value c) (token_value d) \<and> ip_into_uint s = v"
    if p: "parseIP s = Parsed v"
  proof -
    obtain a b c d where s: "s = a @ CHR ''.'' # b @ CHR ''.'' # c @ CHR ''.'' # d"
      "octet_token a" "octet_token b" "octet_token c" "octet_token d"
      by (rule parseIP_E [OF p])
    then show ?thesis using p parseIP_tokens [OF s(2-5)] ip_into_uint_tokens [OF s(2-5)] by auto
  qed
  then show ?thesis using parseIP_dotted parseIP_tokens by fast
qed

theorem parseIP_correct_witness: "ip_into_uint ''213.233.169.80'' = 0xD5E9A950 \<and> parseIP ''1...4'' = Parsed 0x01000004"
proof -
  have "parseIP ''213.233.169.80'' = Parsed 0xD5E9A950" "parseIP ''1...4'' = Parsed 0x01000004" by code_simp+
  then show ?thesis using parseIP_correct [of "''213.233.169.80''" "0xD5E9A950" 0] by simp
qed

text \<open>
  \<open>parsePort\<close> accepts the decimal text of exactly the numbers below 65536 and returns the number;
  it refuses the others as long as they fit an \<open>int\<close>, and overflows its \<open>int\<close>, which is
  undefined, on every larger number.
\<close>
theorem parsePort_decimal:
  "parsePort (show_nat n) =
     (if n < 65536 then Some (Parsed (of_nat n)) else if n \<le> 2147483647 then Some Rejected else None)"
proof -
  have loop: "\<forall>d\<in>set ds. d < 10 \<Longrightarrow> int a \<le> 2147483647 \<Longrightarrow> parse_port_loop (map digit_char ds) (int a)
      = (let n = foldl (\<lambda>a d. a * 10 + d) a ds in if n \<le> 2147483647 then Some (Parsed (int n)) else None)"
    for ds a
  proof (induction ds arbitrary: a)
    case (Cons d ds)
    have mono: "a \<le> foldl (\<lambda>a d. a * 10 + d) a ds" for a :: nat
    proof (induction ds arbitrary: a)
      case (Cons d ds)
      have "a * 10 + d \<le> foldl (\<lambda>a d. a * 10 + d) (a * 10 + d) ds" by (rule Cons.IH)
      then show ?case by simp
    qed simp
    show ?case
    proof (cases "a * 10 + d \<le> 2147483647")
      case True
      then have "parse_port_loop (map digit_char ds) (int (a * 10 + d))
          = (let n = foldl (\<lambda>a d. a * 10 + d) (a * 10 + d) ds in
             if n \<le> 2147483647 then Some (Parsed (int n)) else None)"
        using Cons.prems by (intro Cons.IH) simp_all
      then show ?thesis using Cons.prems True by (simp add: Let_def)
    next
      case False
      then show ?thesis using Cons.prems mono [of "a * 10 + d"] by (simp add: Let_def)
    qed
  qed (simp add: Let_def)
  obtain ds where "show_nat n = map digit_char ds" "\<forall>d\<in>set ds. d < 10"
    "foldl (\<lambda>a d. a * 10 + d) 0 ds = n"
    using show_nat_digits [of n] by auto
  then show ?thesis using loop [of ds 0] by (simp add: parsePort_def Let_def)
qed

text \<open>
  Reading a well-formed MAC address back writes nine bytes, not six: the six of the address and
  three zero bytes after the array. In a memory that ends with the array the call is undefined.
\<close>
theorem mac_into_byte_overruns:
  assumes "length mac = 6"
  shows "mac_into_byte (mac_str mac) mem =
    (if 9 \<le> length mem then Some (mac @ [0, 0, 0] @ drop 9 mem) else None)"
proof -
  have "mac \<noteq> []" using assms by auto
  then show ?thesis using scan_mac_text [of mac 0 mem] assms by (simp add: mac_into_byte_def)
qed

theorem mac_into_byte_overruns_witness:
  "mac_into_byte ''FF:FF:FF:FF:FF:FF'' (replicate 6 0) = None \<and>
   mac_into_byte ''FF:FF:FF:FF:FF:FF'' (replicate 12 7) = Some (replicate 6 255 @ [0, 0, 0, 7, 7, 7])"
proof -
  have "mac_str (replicate 6 255) = ''FF:FF:FF:FF:FF:FF''" by code_simp
  then show ?thesis
    using mac_into_byte_overruns [of "replicate 6 255" "replicate 6 0"]
      mac_into_byte_overruns [of "replicate 6 255" "replicate 12 7"] by (simp add: eval_nat_numeral)
qed

end
