(* ===== verification/Machine.thy ===== *)
theory Machine
  imports Addr
begin

text \<open>
  \<open>base/interface.cpp\<close>, \<open>base/machine.cpp\<close> and \<open>base/frame.cpp\<close>: the Ethernet interfaces of a
  virtual node, the machine that owns them, and the frames it exchanges. The operations that talk
  to the server (\<open>sendFrame\<close>, \<open>setIp\<close>, \<open>setMask\<close>) need the framework and are modelled with it.
\<close>

section \<open>Interfaces\<close>

record interface =
  if_mac :: "u8 list"
  if_index :: int
  if_ip :: u32 \<comment> \<open>in host byte order\<close>
  if_mask :: u32 \<comment> \<open>in host byte order\<close>

text \<open>The constructor leaves \<open>index\<close> alone; a fresh object holds some value there.\<close>

definition Interface_new :: "int \<Rightarrow> interface" where
  "Interface_new idx = \<lparr>if_mac = replicate 6 0, if_index = idx, if_ip = 0, if_mask = 0\<rparr>"

text \<open>\<open>memcpy (this->mac, &mac, MAC_ADDRESS_LENGTH)\<close> takes the first six bytes of the \<open>uint64\<close>.\<close>

definition Interface_init :: "interface \<Rightarrow> int \<Rightarrow> u64 \<Rightarrow> u32 \<Rightarrow> u32 \<Rightarrow> interface" where
  "Interface_init i index mac ip netmask =
     i\<lparr>if_mac := take 6 (bytes64 mac), if_index := index, if_ip := ip, if_mask := netmask\<rparr>"

definition getIp :: "interface \<Rightarrow> u32" where "getIp i = if_ip i"

definition getMask :: "interface \<Rightarrow> u32" where "getMask i = if_mask i"

definition interface_lines :: "interface \<Rightarrow> string list" where
  "interface_lines i =
     [''-- Type: Ethernet interface'', ''-- MAC address: '' @ mac_str (if_mac i),
      ''-- IP address: '' @ dotted (if_ip i), ''-- Network mask: '' @ dotted (if_mask i)]"

section \<open>Machines and frames\<close>

record machine =
  countOfInterfaces :: int
  ifaces :: "interface list"
  customInfo :: string

definition Machine_new :: "(nat \<Rightarrow> int) \<Rightarrow> int \<Rightarrow> machine" where
  "Machine_new idx count =
     \<lparr>countOfInterfaces = count, ifaces = map (\<lambda>i. Interface_new (idx i)) [0..<nat count], customInfo = ''''\<rparr>"

definition initInterface :: "machine \<Rightarrow> int \<Rightarrow> u64 \<Rightarrow> u32 \<Rightarrow> u32 \<Rightarrow> machine" where
  "initInterface m index mac ip netmask =
     (if 0 \<le> index \<and> index < countOfInterfaces m
      then m\<lparr>ifaces := (ifaces m)[nat index := Interface_init (ifaces m ! nat index) index mac ip netmask]\<rparr>
      else m)"

definition getCountOfInterfaces :: "machine \<Rightarrow> int" where
  "getCountOfInterfaces m = countOfInterfaces m"

definition setCustomInformation :: "machine \<Rightarrow> string \<Rightarrow> machine" where
  "setCustomInformation m info = m\<lparr>customInfo := info\<rparr>"

definition getCustomInformation :: "machine \<Rightarrow> string" where
  "getCustomInformation m = customInfo m"

text \<open>\<open>iface[k]\<close>: undefined beyond the array.\<close>

definition iface_at :: "interface list \<Rightarrow> nat \<Rightarrow> interface option" where
  "iface_at is k = (if k < length is then Some (is ! k) else None)"

definition rule_line :: string where
  "rule_line = replicate 42 (CHR ''='')"

definition machine_lines :: "machine \<Rightarrow> string list" where
  "machine_lines m = [rule_line] @
     concat (map (\<lambda>i. (if i > 0 then [replicate 21 (CHR ''-'')] else [])
        @ [''Interface '' @ show_nat i @ '':''] @ interface_lines (ifaces m ! i))
       [0..<nat (countOfInterfaces m)]) @ [rule_line]"

text \<open>
  A \<open>Frame\<close> is a length and a pointer: \<open>fdata\<close> is the memory from the pointer to the end of the
  buffer it points into, which may go on after the frame.
\<close>

record frame =
  flength :: u32
  fdata :: "u8 list"

definition Frame_new :: "u32 \<Rightarrow> u8 list \<Rightarrow> frame" where
  "Frame_new len data = \<lparr>flength = len, fdata = data\<rparr>"

section \<open>Well-formed machines\<close>

definition wf_interface :: "interface \<Rightarrow> bool" where
  "wf_interface i \<longleftrightarrow> length (if_mac i) = 6"

definition wf_machine :: "machine \<Rightarrow> bool" where
  "wf_machine m \<longleftrightarrow> int (length (ifaces m)) = countOfInterfaces m \<and> (\<forall>i\<in>set (ifaces m). wf_interface i)"

lemma wf_interface_init: "wf_interface (Interface_init i idx mac ip netmask)"
  by (simp add: wf_interface_def Interface_init_def)

lemma wf_machine_new: "0 \<le> count \<Longrightarrow> wf_machine (Machine_new idx count)"
  by (auto simp: wf_machine_def Machine_new_def wf_interface_def Interface_new_def)

lemma wf_machine_initInterface: "wf_machine m \<Longrightarrow> wf_machine (initInterface m k mac ip netmask)"
  by (auto simp: wf_machine_def initInterface_def wf_interface_init
      dest!: set_update_subset_insert [THEN subsetD])

end
