(* ===== verification/Packet.thy ===== *)
theory Packet
  imports Machine Checksum
begin

text \<open>
  The packets: the layout of the packed structs of \<open>user/sr_protocol.h\<close> and
  \<open>user/my_structs.h\<close> in an Ethernet frame, the validation of a received frame
  (\<open>is_valid_packet\<close>), and the construction of the headers of a sent one (\<open>set_ip_header\<close>,
  \<open>set_icmp_header_in_ping_packet\<close>). The code writes fields through struct pointers into a fresh
  buffer; the lemmas show that this pointer code produces the bytes of a plain serialisation.
\<close>

section \<open>Layout\<close>

text \<open>
  The offset of each field from the start of the frame. The UDP and the ICMP header lie at the
  same place, 20 bytes after the IP header, whatever its length field says. The bit-fields
  \<open>ip_hl\<close> and \<open>ip_v\<close> are the low and the high half of one byte.
\<close>

datatype field =
  Ether_dhost | Ether_shost | Ether_type
  | Ip_vhl | Ip_tos | Ip_len | Ip_id | Ip_off | Ip_ttl | Ip_p | Ip_sum | Ip_src | Ip_dst
  | Udp_src | Udp_dst | Udp_length | Udp_sum
  | Icmp_type | Icmp_code | Icmp_checksum | Icmp_sequence_id | Icmp_identifier | Icmp_payload

fun offset_of :: "field \<Rightarrow> nat" where
  "offset_of Ether_dhost = 0"
| "offset_of Ether_shost = 6"
| "offset_of Ether_type = 12"
| "offset_of Ip_vhl = 14"
| "offset_of Ip_tos = 15"
| "offset_of Ip_len = 16"
| "offset_of Ip_id = 18"
| "offset_of Ip_off = 20"
| "offset_of Ip_ttl = 22"
| "offset_of Ip_p = 23"
| "offset_of Ip_sum = 24"
| "offset_of Ip_src = 26"
| "offset_of Ip_dst = 30"
| "offset_of Udp_src = 34"
| "offset_of Udp_dst = 36"
| "offset_of Udp_length = 38"
| "offset_of Udp_sum = 40"
| "offset_of Icmp_type = 34"
| "offset_of Icmp_code = 35"
| "offset_of Icmp_checksum = 36"
| "offset_of Icmp_sequence_id = 38"
| "offset_of Icmp_identifier = 40"
| "offset_of Icmp_payload = 42"

definition sizeof_eth :: nat where "sizeof_eth = 14"
definition sizeof_ip :: nat where "sizeof_ip = 20"
definition sizeof_udp :: nat where "sizeof_udp = 8"
definition sizeof_icmp :: nat where "sizeof_icmp = 12"

definition UDP_SIZE :: nat where "UDP_SIZE = sizeof_eth + sizeof_ip + sizeof_udp"
definition ICMP_SIZE :: nat where "ICMP_SIZE = sizeof_eth + sizeof_ip + sizeof_icmp"

lemmas sizes = sizeof_eth_def sizeof_ip_def sizeof_udp_def sizeof_icmp_def UDP_SIZE_def ICMP_SIZE_def

abbreviation ETHERTYPE_IP :: u16 where "ETHERTYPE_IP \<equiv> 0x0800"
abbreviation IPPROTO_UDP :: u8 where "IPPROTO_UDP \<equiv> 17"
abbreviation IPPROTO_ICMP :: u8 where "IPPROTO_ICMP \<equiv> 1"

definition ip_v :: "u8 \<Rightarrow> nat" where "ip_v b = unat b div 16"
definition ip_hl :: "u8 \<Rightarrow> nat" where "ip_hl b = unat b mod 16"

definition put_ip_v :: "nat \<Rightarrow> u8 \<Rightarrow> u8" where "put_ip_v v b = of_nat (v * 16 + unat b mod 16)"
definition put_ip_hl :: "nat \<Rightarrow> u8 \<Rightarrow> u8" where "put_ip_hl h b = of_nat (unat b div 16 * 16 + h)"

lemma put_ip_vhl: "put_ip_hl 5 (put_ip_v 4 b) = 0x45"
proof -
  have "unat (put_ip_v 4 b) = 64 + unat b mod 16"
    unfolding put_ip_v_def by (subst unat_of_nat_less) simp_all
  moreover have "(64 + unat b mod 16) div 16 * 16 + 5 = 69" by simp
  ultimately have "put_ip_hl 5 (put_ip_v 4 b) = of_nat 69" by (simp only: put_ip_hl_def)
  then show ?thesis by simp
qed

lemma ip_hl_le: "ip_hl b \<le> 15"
  using mod_less_divisor [of 16 "unat b"] unfolding ip_hl_def by linarith

section \<open>Validation\<close>

text \<open>
  \<open>is_valid_packet\<close>, test by test. The comparisons with \<open>sizeof\<close> are made in \<open>size_t\<close>; the second
  one adds the size of the Ethernet header to itself, as the code does. Short-circuit evaluation
  decides which fields are loaded.
\<close>

definition udp_ok :: "u8 list \<Rightarrow> int \<Rightarrow> u16 \<Rightarrow> u8 \<Rightarrow> bool option" where
  "udp_ok m len ip_len vhl =
     (if size_of_int len < int UDP_SIZE then Some False
      else do {
        ul \<leftarrow> load16 m (offset_of Udp_length);
        Some (uint (ntohs ul) = uint (ntohs ip_len) - 4 * int (ip_hl vhl)) })"

definition icmp_ok :: "u8 list \<Rightarrow> int \<Rightarrow> bool option" where
  "icmp_ok m len =
     (if size_of_int len < int ICMP_SIZE then Some False
      else do {
        ty \<leftarrow> load8 m (offset_of Icmp_type);
        (if ty \<noteq> 0 then Some False
         else do {
           co \<leftarrow> load8 m (offset_of Icmp_code);
           (if co \<noteq> 0 then Some False
            else do {
              pd \<leftarrow> load32 m (offset_of Icmp_payload);
              Some (ntohl pd = 0x12345678) }) }) })"

definition is_valid_packet :: "frame \<Rightarrow> bool option" where
  "is_valid_packet fr =
     (let m = fdata fr; len = sint (flength fr) in
      if size_of_int len < int sizeof_eth then Some False
      else do {
        et \<leftarrow> load16 m (offset_of Ether_type);
        (if ntohs et \<noteq> ETHERTYPE_IP then Some False
         else if size_of_int len < int (sizeof_eth + sizeof_eth) then Some False
         else do {
           ipl \<leftarrow> load16 m (offset_of Ip_len);
           (if size_of_int len \<noteq> uint (ntohs ipl) + int sizeof_eth then Some False
            else do {
              vhl \<leftarrow> load8 m (offset_of Ip_vhl);
              (if ip_v vhl \<noteq> 4 then Some False
               else do {
                 c \<leftarrow> check_sum_ip m sizeof_eth (ip_hl vhl);
                 (if c \<noteq> 0 then Some False
                  else do {
                    p \<leftarrow> load8 m (offset_of Ip_p);
                    (if p \<noteq> IPPROTO_UDP \<and> p \<noteq> IPPROTO_ICMP then Some False
                     else if p = IPPROTO_UDP then udp_ok m len ipl vhl
                     else icmp_ok m len) }) }) }) }) })"

section \<open>Header construction\<close>

text \<open>
  \<open>set_ip_header\<close> on a frame buffer, with the \<open>ip\<close> pointer at \<open>sizeof_eth\<close>. The sender of a DSA or
  LSA packet (\<open>is_dsa_lsa\<close>) is the public interface if the packet leaves through the gateway
  (\<open>is_self\<close>), else the overlay interface. The last branch, which prints an error, is not reached
  by any call of the program; it leaves source and length as they are.
\<close>

definition set_ip_addresses ::
  "interface list \<Rightarrow> u16 \<Rightarrow> u32 \<Rightarrow> bool \<Rightarrow> bool \<Rightarrow> u8 list \<Rightarrow> u8 list option" where
  "set_ip_addresses ifs ip_protocol advertise_data_size is_dsa_lsa is_self m =
     (if is_dsa_lsa then do {
        i \<leftarrow> (if is_self then iface_at ifs 1 else iface_at ifs 0);
        m \<leftarrow> store32 m (offset_of Ip_src) (htonl (getIp i));
        store16 m (offset_of Ip_len) (htons (of_nat (UDP_SIZE - sizeof_eth + unat advertise_data_size))) }
      else if ip_protocol = ucast IPPROTO_ICMP then do {
        i \<leftarrow> iface_at ifs 1;
        m \<leftarrow> store32 m (offset_of Ip_src) (htonl (getIp i));
        store16 m (offset_of Ip_len) (htons (of_nat (sizeof_ip + sizeof_icmp))) }
      else if ip_protocol = ucast IPPROTO_UDP then do {
        i \<leftarrow> iface_at ifs 0;
        m \<leftarrow> store32 m (offset_of Ip_src) (htonl (getIp i));
        store16 m (offset_of Ip_len) (htons (of_nat (UDP_SIZE - sizeof_eth + unat advertise_data_size))) }
      else Some m)"

definition set_ip_checksum :: "u8 list \<Rightarrow> u8 list option" where
  "set_ip_checksum m = do {
     m \<leftarrow> store16 m (offset_of Ip_sum) 0;
     vhl \<leftarrow> load8 m (offset_of Ip_vhl);
     c \<leftarrow> check_sum_ip m sizeof_eth (ip_hl vhl);
     store16 m (offset_of Ip_sum) c }"

definition set_ip_header ::
  "interface list \<Rightarrow> u32 \<Rightarrow> u16 \<Rightarrow> u32 \<Rightarrow> bool \<Rightarrow> bool \<Rightarrow> u8 list \<Rightarrow> u8 list option" where
  "set_ip_header ifs dest_ip ip_protocol advertise_data_size is_dsa_lsa is_self m = do {
     b \<leftarrow> load8 m (offset_of Ip_vhl);
     m \<leftarrow> store8 m (offset_of Ip_vhl) (put_ip_v 4 b);
     b \<leftarrow> load8 m (offset_of Ip_vhl);
     m \<leftarrow> store8 m (offset_of Ip_vhl) (put_ip_hl 5 b);
     m \<leftarrow> store8 m (offset_of Ip_tos) 0;
     m \<leftarrow> store16 m (offset_of Ip_id) (htons 0);
     m \<leftarrow> store16 m (offset_of Ip_off) (htons 0);
     m \<leftarrow> store8 m (offset_of Ip_ttl) 64;
     m \<leftarrow> store8 m (offset_of Ip_p) (ucast ip_protocol);
     m \<leftarrow> store32 m (offset_of Ip_dst) (htonl dest_ip);
     m \<leftarrow> set_ip_addresses ifs ip_protocol advertise_data_size is_dsa_lsa is_self m;
     set_ip_checksum m }"

definition set_icmp_header_in_ping_packet :: "u16 \<Rightarrow> u8 list \<Rightarrow> u8 list option" where
  "set_icmp_header_in_ping_packet seq m = do {
     m \<leftarrow> store8 m (offset_of Icmp_type) 8;
     m \<leftarrow> store8 m (offset_of Icmp_code) 0;
     m \<leftarrow> store16 m (offset_of Icmp_identifier) 0;
     m \<leftarrow> store16 m (offset_of Icmp_sequence_id) (htons seq);
     m \<leftarrow> store32 m (offset_of Icmp_payload) (htonl 0x12345678);
     m \<leftarrow> store16 m (offset_of Icmp_checksum) 0;
     c \<leftarrow> check_sum_icmp m (offset_of Icmp_type);
     store16 m (offset_of Icmp_checksum) c }"

text \<open>The Ethernet header: two \<open>memcpy\<close>s and the type.\<close>

definition set_eth_addresses :: "u8 list \<Rightarrow> u8 list \<Rightarrow> u8 list \<Rightarrow> u8 list option" where
  "set_eth_addresses shost dhost m = do {
     m \<leftarrow> memcpy m (offset_of Ether_shost) shost 0 6;
     memcpy m (offset_of Ether_dhost) dhost 0 6 }"

definition set_eth_type :: "u8 list \<Rightarrow> u8 list option" where
  "set_eth_type m = store16 m (offset_of Ether_type) (htons ETHERTYPE_IP)"

section \<open>The reference serialisation\<close>

text \<open>Fields in network order, headers as byte strings.\<close>

definition be16 :: "u16 \<Rightarrow> u8 list" where "be16 w = [byte_of 1 w, byte_of 0 w]"
definition be32 :: "u32 \<Rightarrow> u8 list" where "be32 w = [byte_of 3 w, byte_of 2 w, byte_of 1 w, byte_of 0 w]"

definition eth_bytes :: "u8 list \<Rightarrow> u8 list \<Rightarrow> u8 list" where
  "eth_bytes dhost shost = dhost @ shost @ be16 ETHERTYPE_IP"

definition ip_bytes :: "u16 \<Rightarrow> u8 \<Rightarrow> u32 \<Rightarrow> u32 \<Rightarrow> u16 \<Rightarrow> u8 list" where
  "ip_bytes len proto src dst csum =
     [0x45, 0] @ be16 len @ [0, 0, 0, 0, 64, proto] @ bytes16 csum @ be32 src @ be32 dst"

definition udp_bytes :: "u16 \<Rightarrow> u16 \<Rightarrow> u16 \<Rightarrow> u8 list" where
  "udp_bytes sport dport len = be16 sport @ be16 dport @ be16 len @ [0, 0]"

definition icmp_bytes :: "u8 \<Rightarrow> u16 \<Rightarrow> u16 \<Rightarrow> u8 list" where
  "icmp_bytes ty seq csum = [ty, 0] @ bytes16 csum @ be16 seq @ [0, 0] @ [0x12, 0x34, 0x56, 0x78]"

lemma length_serial [simp]:
  "length (be16 w) = 2" "length (be32 v) = 4" "length (ip_bytes l p s d c) = 20"
  "length (udp_bytes a b n) = 8" "length (icmp_bytes ty seq cs) = 12"
  by (simp_all add: be16_def be32_def ip_bytes_def udp_bytes_def icmp_bytes_def)

lemma length_eth_bytes [simp]:
  "length d = 6 \<Longrightarrow> length s = 6 \<Longrightarrow> length (eth_bytes d s) = 14"
  by (simp add: eth_bytes_def)

text \<open>The checksum the code puts into a header, and whether its fold lost a carry.\<close>

definition ip_sum_words :: "u16 \<Rightarrow> u8 \<Rightarrow> u32 \<Rightarrow> u32 \<Rightarrow> nat" where
  "ip_sum_words len proto src dst = sum_list (words_of (ip_bytes len proto src dst 0))"

definition ip_csum :: "u16 \<Rightarrow> u8 \<Rightarrow> u32 \<Rightarrow> u32 \<Rightarrow> u16" where
  "ip_csum len proto src dst = fold_once (of_nat (ip_sum_words len proto src dst))"

definition icmp_csum :: "u8 \<Rightarrow> u16 \<Rightarrow> u16" where
  "icmp_csum ty seq = fold_twice (of_nat (sum_list (words_of (icmp_bytes ty seq 0))))"

section \<open>Sums of a part of a buffer\<close>

lemma sum_words_front: "i + 2 * n \<le> length m \<Longrightarrow> sum_words (m @ r) i n acc = sum_words m i n acc"
  by (induction n arbitrary: i acc) (auto simp: load16_def load_bytes_front)

lemma load16_back: "load16 (p @ m) (length p + i) = load16 m i"
  by (simp add: load16_def load_bytes_back)

lemma sum_words_back: "sum_words (p @ m) (length p + i) n acc = sum_words m i n acc"
proof (induction n arbitrary: i acc)
  case (Suc n)
  have "sum_words (p @ m) (length p + i + 2) n a = sum_words m (i + 2) n a" for a
    using Suc.IH [of "i + 2"] by (simp add: add.assoc)
  then show ?case by (simp add: load16_back)
qed simp

lemma sum_words_part:
  assumes "length p = k" "length m = 2 * n" "n \<le> 32768"
  shows "sum_words (p @ m @ r) k n 0 = Some (of_nat (sum_list (words_of m)))"
proof -
  have "sum_words (p @ m @ r) k n 0 = sum_words m 0 n 0"
    using sum_words_back [of p "m @ r" 0 n 0] sum_words_front [of 0 n m r 0] assms by simp
  moreover obtain s where "sum_words m 0 n 0 = Some s" "unat s = sum_list (words_of m)"
    using sum_words_total [of 0 n m] assms by auto
  ultimately show ?thesis by (metis of_nat_unat_id)
qed

lemma check_sum_ip_part:
  "length p = 14 \<Longrightarrow> check_sum_ip (p @ ip_bytes len proto src dst c @ r) 14 5
     = Some (fold_once (of_nat (sum_list (words_of (ip_bytes len proto src dst c)))))"
  using sum_words_part [of p 14 "ip_bytes len proto src dst c" 10 r] by (simp add: check_sum_ip_def)

lemma words_of_ip_bytes:
  "sum_list (words_of (ip_bytes len proto src dst c))
     = ip_sum_words len proto src dst + unat c"
proof -
  have "ip_bytes len proto src dst c = ([0x45, 0] @ be16 len @ [0, 0, 0, 0, 64, proto])
      @ bytes16 c @ be32 src @ be32 dst" for c
    by (simp add: ip_bytes_def)
  moreover have "words_of (bytes16 c) = [unat c]" for c
    by (simp add: bytes16_def wire_simps)
  ultimately have "words_of (ip_bytes len proto src dst c)
      = words_of ([0x45, 0] @ be16 len @ [0, 0, 0, 0, 64, proto]) @ [unat c]
        @ words_of (be32 src @ be32 dst)" for c
    by (simp only: words_of_append length_append length_bytes) (simp add: be16_def words_of_append)
  then show ?thesis by (simp add: ip_sum_words_def)
qed

lemma ip_sum_words_bound: "ip_sum_words len proto src dst \<le> 655350"
  using sum_list_words_bound [of "ip_bytes len proto src dst 0"] by (simp add: ip_sum_words_def)

text \<open>A serialised header passes the test exactly when its sum folds without a second carry.\<close>

lemma ip_bytes_valid_iff:
  assumes "length p = 14"
  shows "check_sum_ip (p @ ip_bytes len proto src dst (ip_csum len proto src dst) @ r) 14 5 = Some 0
    \<longleftrightarrow> \<not> double_carry (ip_sum_words len proto src dst)"
proof -
  let ?S = "ip_sum_words len proto src dst"
  let ?s = "of_nat ?S :: u32" and ?t = "of_nat (?S + unat (ip_csum len proto src dst)) :: u32"
  have s: "unat ?s = ?S" using ip_sum_words_bound [of len proto src dst] by (intro unat_of_nat_less) simp
  have c: "ip_csum len proto src dst = fold_once ?s" by (simp add: ip_csum_def)
  have b: "?S + unat (ip_csum len proto src dst) < 4294836225"
    using ip_sum_words_bound [of len proto src dst] unat_u16_le [of "ip_csum len proto src dst"] by simp
  then have t: "unat ?t = unat ?s + unat (fold_once ?s)"
    unfolding s c [symmetric] by (intro unat_of_nat_less) simp
  have "fold_once ?t = 0 \<longleftrightarrow> \<not> double_carry ?S"
    using fold_once_zero [of ?t] fold_once_self_valid [of ?s] t b s c by simp
  then show ?thesis using assms by (simp add: check_sum_ip_part words_of_ip_bytes)
qed

section \<open>The pointer code produces the serialisation\<close>

lemma list_of_length_20:
  assumes "length old = 20"
  obtains a b c d e f g h i j k l m n p q r s t u
  where "old = [a, b, c, d, e, f, g, h, i, j, k, l, m, n, p, q, r, s, t, u]"
  using assms by (auto simp: numeral_eq_Suc length_Suc_conv)

lemma list_of_length_12:
  assumes "length old = 12"
  obtains a b c d e f g h i j k l where "old = [a, b, c, d, e, f, g, h, i, j, k, l]"
  using assms by (auto simp: numeral_eq_Suc length_Suc_conv)

lemmas struct_ops = load8_def load16_def load32_def store8_def store16_def store32_def
  store_bytes_back load_bytes_back dec8_def

text \<open>The source address and the length that \<open>set_ip_header\<close> chooses.\<close>

definition ip_source :: "interface list \<Rightarrow> u16 \<Rightarrow> bool \<Rightarrow> bool \<Rightarrow> u32 option" where
  "ip_source ifs proto is_dsa_lsa is_self =
     map_option getIp (iface_at ifs
       (if (if is_dsa_lsa then is_self else proto = ucast IPPROTO_ICMP) then 1 else 0))"

definition ip_length :: "u16 \<Rightarrow> u32 \<Rightarrow> bool \<Rightarrow> u16" where
  "ip_length proto n is_dsa_lsa =
     (if \<not> is_dsa_lsa \<and> proto = ucast IPPROTO_ICMP then 32 else of_nat (28 + unat n))"

lemma set_ip_checksum_eq:
  assumes "length p = 14"
  shows "set_ip_checksum (p @ ip_bytes len proto src dst c0 @ r)
     = Some (p @ ip_bytes len proto src dst (ip_csum len proto src dst) @ r)"
proof -
  have st: "store16 (p @ ip_bytes len proto src dst c0 @ r) 24 c
      = Some (p @ ip_bytes len proto src dst c @ r)" for c0 c
    using assms by (simp add: struct_ops store_bytes_def ip_bytes_def be16_def be32_def bytes16_def bytes32_def wire_simps)
  have ld: "load8 (p @ ip_bytes len proto src dst c @ r) 14 = Some 0x45" for c
    using assms by (simp add: struct_ops load_bytes_def ip_bytes_def)
  have "ip_hl 0x45 = 5" by (simp add: ip_hl_def)
  then show ?thesis
    using check_sum_ip_part [OF assms, of len proto src dst 0 r]
    by (simp add: set_ip_checksum_def st ld sizes words_of_ip_bytes ip_csum_def)
qed

lemma set_ip_addresses_eq:
  assumes "length p = 14" "proto = ucast IPPROTO_ICMP \<or> proto = ucast IPPROTO_UDP \<or> dsa"
  shows "set_ip_addresses ifs proto n dsa self (p @ ip_bytes len0 b src0 dst c @ r)
     = map_option (\<lambda>src. p @ ip_bytes (ip_length proto n dsa) b src dst c @ r) (ip_source ifs proto dsa self)"
proof -
  have s32: "store32 (p @ ip_bytes l b s dst c @ r) 26 (htonl v) = Some (p @ ip_bytes l b v dst c @ r)"
    for l s v
    using assms(1) by (simp add: struct_ops store_bytes_def ip_bytes_def be16_def be32_def bytes16_def bytes32_def wire_simps)
  have s16: "store16 (p @ ip_bytes l b s dst c @ r) 16 (htons v) = Some (p @ ip_bytes v b s dst c @ r)"
    for l s v
    using assms(1) by (simp add: struct_ops store_bytes_def ip_bytes_def be16_def be32_def bytes16_def bytes32_def wire_simps)
  have ne: "(ucast IPPROTO_UDP :: u16) \<noteq> ucast IPPROTO_ICMP" by simp
  show ?thesis
    using assms(2) ne unfolding set_ip_addresses_def ip_source_def ip_length_def sizes
    by (auto simp: s32 s16 iface_at_def)
qed

lemma set_ip_header_eq:
  assumes "length p = 14" "length old = 20"
    and "proto = ucast IPPROTO_ICMP \<or> proto = ucast IPPROTO_UDP \<or> dsa"
  shows "set_ip_header ifs dst proto n dsa self (p @ old @ r) = do {
     src \<leftarrow> ip_source ifs proto dsa self;
     Some (p @ ip_bytes (ip_length proto n dsa) (ucast proto) src dst
       (ip_csum (ip_length proto n dsa) (ucast proto) src dst) @ r) }"
proof -
  obtain o0 o1 l0 l1 o4 o5 o6 o7 o8 o9 c0 c1 s0 s1 s2 s3 o16 o17 o18 o19 where
    old: "old = [o0, o1, l0, l1, o4, o5, o6, o7, o8, o9, c0, c1, s0, s1, s2, s3, o16, o17, o18, o19]"
    by (rule list_of_length_20 [OF assms(2)])
  let ?m = "p @ ip_bytes (le16 l1 l0) (ucast proto) (le32 s3 s2 s1 s0) dst (le16 c0 c1) @ r"
  have "set_ip_header ifs dst proto n dsa self (p @ old @ r)
      = do { m \<leftarrow> set_ip_addresses ifs proto n dsa self ?m; set_ip_checksum m }"
    using assms(1)
    by (simp add: set_ip_header_def put_ip_vhl old struct_ops store_bytes_def load_bytes_def ip_bytes_def
        be16_def be32_def bytes16_def bytes32_def wire_simps)
  then show ?thesis
    using assms set_ip_checksum_eq [OF assms(1)]
    by (cases "ip_source ifs proto dsa self") (simp_all add: set_ip_addresses_eq)
qed

lemma set_icmp_header_eq:
  assumes "length p = 34" "length old = 12"
  shows "set_icmp_header_in_ping_packet seq (p @ old)
     = Some (p @ icmp_bytes 8 seq (icmp_csum 8 seq))"
proof -
  obtain i0 i1 i2 i3 i4 i5 i6 i7 i8 i9 i10 i11 where
    old: "old = [i0, i1, i2, i3, i4, i5, i6, i7, i8, i9, i10, i11]"
    by (rule list_of_length_12 [OF assms(2)])
  have pay: "byte_of 3 (0x12345678 :: u32) = 0x12" "byte_of 2 (0x12345678 :: u32) = 0x34"
    "byte_of 1 (0x12345678 :: u32) = 0x56" "byte_of 0 (0x12345678 :: u32) = 0x78"
    by code_simp+
  have sum: "sum_words (p @ icmp_bytes 8 seq 0) 34 6 0
      = Some (of_nat (sum_list (words_of (icmp_bytes 8 seq 0))))"
    using sum_words_part [of p 34 "icmp_bytes 8 seq 0" 6 "[]"] assms(1) by simp
  have "check_sum_icmp (p @ icmp_bytes 8 seq 0) 34 = Some (icmp_csum 8 seq)"
    by (simp add: check_sum_icmp_def sum icmp_csum_def)
  then show ?thesis
    using assms(1) pay
    by (simp add: set_icmp_header_in_ping_packet_def old struct_ops store_bytes_def
        icmp_bytes_def be16_def bytes16_def bytes32_def wire_simps)
qed

lemma set_eth_type_eq:
  "length p = 12 \<Longrightarrow> length old = 2 \<Longrightarrow>
   set_eth_type (p @ old @ r) = Some (p @ be16 ETHERTYPE_IP @ r)"
  using list_of_length_2 [of old]
  by (simp add: set_eth_type_def struct_ops store_bytes_def be16_def bytes16_def wire_simps)

lemma set_eth_addresses_eq:
  "length dh = 6 \<Longrightarrow> length sh = 6 \<Longrightarrow> length old = 12 \<Longrightarrow>
   set_eth_addresses sh dh (old @ r) = Some (dh @ sh @ r)"
  by (simp add: set_eth_addresses_def memcpy_def load_bytes_def store_bytes_def)

text \<open>The same with a destination address that is the start of a longer memory.\<close>

lemma set_eth_addresses_take:
  "6 \<le> length dh \<Longrightarrow> length sh = 6 \<Longrightarrow> length old = 12 \<Longrightarrow>
   set_eth_addresses sh dh (old @ r) = Some (take 6 dh @ sh @ r)"
  by (simp add: set_eth_addresses_def memcpy_def load_bytes_def store_bytes_def)

lemma split_buffer:
  assumes "length m = a + b"
  obtains x y where "m = x @ y" "length x = a" "length y = b"
  using assms by (intro that [of "take a m" "drop a m"]) auto

text \<open>A header with the checksum the code computes.\<close>

definition ip_packet :: "u16 \<Rightarrow> u8 \<Rightarrow> u32 \<Rightarrow> u32 \<Rightarrow> u8 list" where
  "ip_packet len proto src dst = ip_bytes len proto src dst (ip_csum len proto src dst)"

lemma length_ip_packet [simp]: "length (ip_packet len proto src dst) = 20"
  by (simp add: ip_packet_def)

section \<open>Rewriting the header of a frame\<close>

text \<open>The header lies inside the frame.\<close>

definition header_inside :: "u8 list \<Rightarrow> bool" where
  "header_inside m \<longleftrightarrow> 34 \<le> length m \<and> 14 + 4 * ip_hl (m ! 14) \<le> length m"

lemma header_inside_same:
  "same_outside S m m' \<Longrightarrow> 14 \<notin> S \<Longrightarrow> header_inside m' = header_inside m"
  by (auto simp: header_inside_def same_outside_def)

text \<open>
  The sum of the header words without the checksum, and a header that passes the receiver's test
  unless the fold of that sum loses a carry.
\<close>

definition header_sum :: "u8 list \<Rightarrow> nat" where
  "header_sum m = sum_list (header_words (m[24 := 0, 25 := 0]) 14 (4 * ip_hl (m ! 14)))"

definition checksummed :: "u8 list \<Rightarrow> bool" where
  "checksummed m \<longleftrightarrow> (3 \<le> ip_hl (m ! 14) \<longrightarrow>
     (check_sum_ip m 14 (ip_hl (m ! 14)) = Some 0 \<longleftrightarrow> \<not> double_carry (header_sum m)))"

lemma store16_upd:
  assumes "store16 m i w = Some m'"
  shows "m' = m[i := byte_of 0 w, i + 1 := byte_of 1 w]"
proof (rule nth_equalityI)
  show "length m' = length (m[i := byte_of 0 w, i + 1 := byte_of 1 w])"
    using assms by (simp add: store16_def store_bytes_length)
  fix j assume "j < length m'"
  then show "m' ! j = m[i := byte_of 0 w, i + 1 := byte_of 1 w] ! j"
    using assms by (auto simp: store16_def store_bytes_def bytes16_def nth_append nth_Cons' nth_list_update split: if_splits
        intro!: arg_cong [where f = "(!) m"])
qed

lemma set_ip_checksum_same:
  assumes "header_inside m"
  shows "\<exists>m'. set_ip_checksum m = Some m' \<and> same_outside {24..<26} m m' \<and> checksummed m'"
proof -
  obtain m1 where m1: "store16 m 24 0 = Some m1" "same_outside {24..<26} m m1" and load: "load16 m1 24 = Some 0"
    using same_outside_store16 [of 24 m "{24..<26}" 0] assms by (auto simp: header_inside_def)
  have h1: "header_inside m1" using header_inside_same [OF m1(2)] assms by simp
  then have vhl: "load8 m1 14 = Some (m1 ! 14)"
    by (simp add: header_inside_def load8_def load_bytes_def dec8_def nth_append)
  have "sum_words m1 14 (ip_hl (m1 ! 14) * 2) 0 \<noteq> None"
    using h1 unfolding sum_words_defined by (simp add: header_inside_def)
  then obtain c where c: "check_sum_ip m1 14 (ip_hl (m1 ! 14)) = Some c"
    by (auto simp: check_sum_ip_def)
  obtain m' where m': "store16 m1 24 c = Some m'" "same_outside {24..<26} m1 m'"
    using same_outside_store16 [of 24 m1 "{24..<26}" c] h1 by (auto simp: header_inside_def)
  have hl: "m' ! 14 = m1 ! 14" using m'(2) h1 by (auto simp: same_outside_def header_inside_def)
  have "m'[24 := 0, 25 := 0] = m1"
    unfolding store16_upd [OF m'(1)] store16_upd [OF m1(1)] by (simp add: byte_of_def list_update_swap)
  then have "checksummed m'"
    using check_sum_ip_self [of 14 "ip_hl (m1 ! 14)" m1 c m'] h1 c m'(1) load ip_hl_le
    by (simp add: checksummed_def header_sum_def hl header_inside_def)
  then show ?thesis
    using m1 m' vhl c same_outside_trans by (auto simp: set_ip_checksum_def sizes)
qed

lemma set_eth_addresses_same:
  assumes "12 \<le> length m" "6 \<le> length sh" "6 \<le> length dh"
  shows "\<exists>m'. set_eth_addresses sh dh m = Some m' \<and> same_outside {0..<12} m m'
    \<and> load_bytes m' 0 12 = Some (take 6 dh @ take 6 sh)"
proof -
  obtain old r where m: "m = old @ r" "length old = 12" "length r = length m - 12"
    by (rule split_buffer [of m 12 "length m - 12"]) (use assms in simp)
  have "set_eth_addresses sh dh m = Some ((take 6 dh @ take 6 sh) @ r)"
    using assms(2,3) m by (simp add: set_eth_addresses_def memcpy_def load_bytes_def store_bytes_def)
  moreover have "same_outside {0..<12} m ((take 6 dh @ take 6 sh) @ r)"
    using assms(2,3) m by (auto simp: same_outside_def nth_append)
  ultimately show ?thesis using assms(2,3) by (simp add: load_bytes_def)
qed

end
