(* ===== verification/Servers.thy ===== *)
theory Servers
  imports Packet Double
begin

text \<open>
  The server table of \<open>user/sm.cpp\<close> and the global state around it: the structs of
  \<open>user/my_structs.h\<close> (without the mutex, see the root theory), the global variables, and the
  operations on the table: look-up and insertion, the ping statistics, the learning and forwarding
  tables.
\<close>

section \<open>Data\<close>

record ip_info =
  ii_uint :: u32
  ii_str :: string

record routing_info =
  ip_next_hop_rtt :: ip_info
  ip_next_hop_lost :: ip_info
  ri_rtt_time :: u16
  ri_lost_rate :: double
  is_active :: bool

record server_information =
  si_ip :: ip_info
  ping_lost_rate :: double
  ping_sent :: u16
  ping_received :: u16
  si_rtt_time :: u16
  sequence_id :: u16
  ping_lost_numbers :: u16
  ping_send_time :: int
  is_received_last_ping :: bool
  forwarding_table :: routing_info
  learning_table :: routing_info

text \<open>Objects with static storage are zero-initialised.\<close>

definition ip_info_zero :: ip_info where
  "ip_info_zero = \<lparr>ii_uint = 0, ii_str = ''''\<rparr>"

definition routing_info_zero :: routing_info where
  "routing_info_zero = \<lparr>ip_next_hop_rtt = ip_info_zero, ip_next_hop_lost = ip_info_zero,
     ri_rtt_time = 0, ri_lost_rate = DFin 0, is_active = False\<rparr>"

definition server_zero :: server_information where
  "server_zero = \<lparr>si_ip = ip_info_zero, ping_lost_rate = DFin 0, ping_sent = 0, ping_received = 0,
     si_rtt_time = 0, sequence_id = 0, ping_lost_numbers = 0, ping_send_time = 0,
     is_received_last_ping = False, forwarding_table = routing_info_zero,
     learning_table = routing_info_zero\<rparr>"

text \<open>
  The globals of \<open>sm.cpp\<close> and what the machine owns. \<open>server_infoes\<close> is the array of
  \<open>MAX_SERVER_NUMBERS\<close> entries, indexed by \<open>int\<close>; \<open>mac_gateway\<close> is the memory from the array
  \<open>mac_gateway[6]\<close> on: \<open>mac_into_byte\<close> writes past such an array, so the model says how many bytes,
  \<open>pad\<close>, may be written behind it. The language allows none (\<open>pad = 0\<close>); a compiler's alignment
  leaves some. The environment is explicit: \<open>heap\<close> is what fresh allocations hold,
  \<open>clock n\<close> the result of the \<open>n\<close>-th call of \<open>system_clock::now ()\<close> in nanoseconds, of which
  \<open>ticks\<close> have been made; \<open>sent_frames\<close> and \<open>console\<close> record, latest last, the calls of
  \<open>sendFrame\<close> (frame and interface) and the lines written; a line with a number that \<open>operator<<\<close>
  formats is kept as its text before, the format (\<open>fixed\<close> with two digits, or the default one), the
  number and its text after. \<open>cout_fixed\<close> says whether the manipulators have been used, which
  lasts.
\<close>

datatype out_line = Cout string | Cerr string | Cout_num string bool double string

record sm =
  number_of_servers :: int
  number_of_all_servers :: int
  src_port :: int
  sent_times :: "u16 \<rightharpoonup> int"
  server_infoes :: "int \<Rightarrow> server_information"
  ip_gateway :: ip_info
  mac_gateway :: "u8 list"
  pad :: nat
  ip_to_id :: "u32 \<rightharpoonup> int"
  ip_to_mac :: "u32 \<rightharpoonup> u8 list"
  port_to_ip :: "u16 \<rightharpoonup> u32"
  my_port_to_src_port :: "u16 \<rightharpoonup> u16"
  iface :: "interface list"
  heap :: "nat \<Rightarrow> u8"
  clock :: "nat \<Rightarrow> int"
  ticks :: nat
  sent_frames :: "(u8 list \<times> int) list"
  console :: "out_line list"
  cout_fixed :: bool

abbreviation MAX_SERVER_NUMBERS :: int where "MAX_SERVER_NUMBERS \<equiv> 1000"

definition in_servers :: "int \<Rightarrow> bool" where
  "in_servers i \<longleftrightarrow> 0 \<le> i \<and> i < MAX_SERVER_NUMBERS"

definition upd_server :: "int \<Rightarrow> (server_information \<Rightarrow> server_information) \<Rightarrow> sm \<Rightarrow> sm" where
  "upd_server i f s = s\<lparr>server_infoes := (server_infoes s)(i := f (server_infoes s i))\<rparr>"

definition now :: "sm \<Rightarrow> int" where "now s = clock s (ticks s)"
definition tick :: "sm \<Rightarrow> sm" where "tick s = s\<lparr>ticks := ticks s + 1\<rparr>"

definition put_line :: "out_line \<Rightarrow> sm \<Rightarrow> sm" where
  "put_line l s = s\<lparr>console := console s @ [l]\<rparr>"

text \<open>
  The program state before \<open>initialize\<close>: the globals with their initialisers, given the interfaces
  and the environment.
\<close>

definition sm_start :: "nat \<Rightarrow> interface list \<Rightarrow> (nat \<Rightarrow> u8) \<Rightarrow> (nat \<Rightarrow> int) \<Rightarrow> sm" where
  "sm_start gap ifs junk clk =
     \<lparr>number_of_servers = 0, number_of_all_servers = 0, src_port = 8000, sent_times = Map.empty,
      server_infoes = (\<lambda>_. server_zero), ip_gateway = ip_info_zero, mac_gateway = replicate (6 + gap) 0,
      pad = gap, ip_to_id = Map.empty, ip_to_mac = Map.empty, port_to_ip = Map.empty,
      my_port_to_src_port = Map.empty, iface = ifs, heap = junk, clock = clk, ticks = 0,
      sent_frames = [], console = [], cout_fixed = False\<rparr>"

section \<open>Look-up and insertion\<close>

definition get_index_by_ip :: "sm \<Rightarrow> u32 \<Rightarrow> int" where
  "get_index_by_ip s ip =
     (case find (\<lambda>i. ii_uint (si_ip (server_infoes s i)) = ip) [0..number_of_all_servers s - 1] of
        Some i \<Rightarrow> i | None \<Rightarrow> - 1)"

definition is_server_valid :: "sm \<Rightarrow> string \<Rightarrow> bool" where
  "is_server_valid s server_ip =
     list_ex (\<lambda>i. ii_str (si_ip (server_infoes s i)) = server_ip) [0..number_of_all_servers s - 1]"

definition inserted_server :: "server_information \<Rightarrow> server_information \<Rightarrow> server_information" where
  "inserted_server sv_in si =
     si\<lparr>si_ip := si_ip sv_in, is_received_last_ping := False, ping_lost_rate := DFin 1,
        learning_table := (learning_table si)\<lparr>ri_lost_rate := DFin 1, ri_rtt_time := u16_max\<rparr>,
        si_rtt_time := u16_max\<rparr>"

definition insert_into_server_infoes :: "server_information \<Rightarrow> sm \<Rightarrow> sm option" where
  "insert_into_server_infoes sv_in s =
     (if in_servers (number_of_all_servers s)
      then Some ((upd_server (number_of_all_servers s) (inserted_server sv_in) s)
             \<lparr>number_of_all_servers := number_of_all_servers s + 1\<rparr>)
      else None)"

section \<open>Learning\<close>

text \<open>
  The two assignments of \<open>update_learning_table\<close> to the entry's learning table. The \<open>|\<close> of the
  source is a bitwise or of two \<open>bool\<close>s.
\<close>

definition learn_rtt :: "server_information \<Rightarrow> ip_info \<Rightarrow> routing_info \<Rightarrow> routing_info" where
  "learn_rtt info ip lt =
     (if ii_uint ip = ii_uint (ip_next_hop_rtt lt) \<or> si_rtt_time info < ri_rtt_time lt
      then lt\<lparr>ip_next_hop_rtt := ip, ri_rtt_time := si_rtt_time info\<rparr> else lt)"

definition learn_lost :: "server_information \<Rightarrow> ip_info \<Rightarrow> routing_info \<Rightarrow> routing_info" where
  "learn_lost info ip lt =
     (if ii_uint ip = ii_uint (ip_next_hop_lost lt) \<or> dlt (ping_lost_rate info) (ri_lost_rate lt)
      then lt\<lparr>ip_next_hop_lost := ip, ri_lost_rate := ping_lost_rate info\<rparr> else lt)"

definition learn :: "server_information \<Rightarrow> ip_info \<Rightarrow> server_information \<Rightarrow> server_information" where
  "learn info ip si = si\<lparr>learning_table :=
     learn_lost info ip (learn_rtt info ip ((learning_table si)\<lparr>is_active := True\<rparr>))\<rparr>"

text \<open>
  \<open>update_learning_table\<close> gets the server by value and locks and unlocks the mutex of this copy, which no
  other thread sees. Mutexes are not part of the state, so the two calls are left out; for an offer read
  from an announcement POSIX leaves them undefined, since the mutex that is copied was never
  initialised, and the model takes them to return.
\<close>

definition update_learning_table :: "server_information \<Rightarrow> ip_info \<Rightarrow> sm \<Rightarrow> sm option" where
  "update_learning_table info ip s =
     (let server_id = get_index_by_ip s (ii_uint (si_ip info)) in
      if server_id = - 1
      then do { s' \<leftarrow> insert_into_server_infoes info s;
                Some (upd_server (number_of_all_servers s) (learn info ip) s') }
      else Some (upd_server server_id (learn info ip) s))"

section \<open>Whole-table loops\<close>

text \<open>\<open>for (int i = 0; i < n; i++)\<close> with a body that rewrites the entry \<open>i\<close>.\<close>

definition for_servers :: "int \<Rightarrow> (server_information \<Rightarrow> server_information) \<Rightarrow> sm \<Rightarrow> sm" where
  "for_servers n f s = fold (\<lambda>i. upd_server i f) [0..n - 1] s"

definition forwarded :: "server_information \<Rightarrow> server_information" where
  "forwarded si = si\<lparr>forwarding_table := (forwarding_table si)
     \<lparr>ip_next_hop_lost := ip_next_hop_lost (learning_table si),
      ip_next_hop_rtt := ip_next_hop_rtt (learning_table si)\<rparr>\<rparr>"

definition fill_forwarding_table :: "sm \<Rightarrow> sm" where
  "fill_forwarding_table s = for_servers (number_of_all_servers s) forwarded s"

definition reset_entry :: "ip_info \<Rightarrow> server_information \<Rightarrow> server_information" where
  "reset_entry gw si = si\<lparr>learning_table := (learning_table si)
     \<lparr>ip_next_hop_lost := gw, ri_rtt_time := si_rtt_time si, ip_next_hop_rtt := gw,
      ri_lost_rate := ping_lost_rate si\<rparr>\<rparr>"

definition reset_learning_table :: "sm \<Rightarrow> sm" where
  "reset_learning_table s = for_servers (number_of_all_servers s) (reset_entry (ip_gateway s)) s"

definition connection_checked :: "server_information \<Rightarrow> server_information" where
  "connection_checked si =
     (if is_received_last_ping si then si
      else let si' = (if ping_lost_numbers si = 2
                      then si\<lparr>ping_lost_rate := DFin 1, si_rtt_time := u16_max\<rparr> else si)
           in si'\<lparr>ping_lost_numbers := ping_lost_numbers si' + 1\<rparr>)"

definition check_connections_is_alive :: "sm \<Rightarrow> sm" where
  "check_connections_is_alive s = for_servers (number_of_servers s) connection_checked s"

section \<open>Ping statistics\<close>

text \<open>\<open>update_server_information\<close> on the entry of a ping just built, at time \<open>t\<close>.\<close>

definition ping_counted :: "int \<Rightarrow> ip_info \<Rightarrow> server_information \<Rightarrow> server_information" where
  "ping_counted t gw si =
     (let si1 = si\<lparr>sequence_id := sequence_id si + 1, ping_send_time := t\<rparr>;
          si2 = (if si_rtt_time si1 \<noteq> u16_max
                 then let si' = si1\<lparr>ping_sent := ping_sent si1 + 1\<rparr>
                      in si'\<lparr>ping_lost_rate := loss_rate (ping_received si') (ping_sent si')\<rparr>
                 else si1);
          si3 = (if ii_uint (ip_next_hop_lost (learning_table si2)) = ii_uint gw
                 then si2\<lparr>learning_table := (learning_table si2)\<lparr>ri_lost_rate := ping_lost_rate si2\<rparr>\<rparr>
                 else si2)
      in si3\<lparr>is_received_last_ping := False\<rparr>)"

definition update_server_information :: "int \<Rightarrow> sm \<Rightarrow> sm" where
  "update_server_information i s = tick (upd_server i (ping_counted (now s) (ip_gateway s)) s)"

text \<open>\<open>duration_cast<milliseconds>\<close> of a difference of time points, then the \<open>uint16_t\<close>.\<close>

definition millis :: "int \<Rightarrow> u16" where
  "millis d = word_of_int (trunc_div d 1000000)"

definition ping_answered :: "int \<Rightarrow> server_information \<Rightarrow> server_information" where
  "ping_answered received_time si =
     (let ping_time = millis (received_time - ping_send_time si);
          si1 = (if si_rtt_time si = u16_max
                 then si\<lparr>si_rtt_time := ping_time, ping_sent := ping_sent si + 1\<rparr>
                 else si\<lparr>si_rtt_time := of_nat ((unat (si_rtt_time si) + unat ping_time) div 2)\<rparr>);
          si2 = si1\<lparr>ping_received := ping_received si1 + 1, is_received_last_ping := True,
                    ping_lost_numbers := 0\<rparr>
      in si2\<lparr>ping_lost_rate := loss_rate (ping_received si2) (ping_sent si2)\<rparr>)"

definition ping_matches :: "u32 \<Rightarrow> u16 \<Rightarrow> server_information \<Rightarrow> bool" where
  "ping_matches ip seq si \<longleftrightarrow> ii_uint (si_ip si) = ip \<and> uint seq + 1 = uint (sequence_id si)"

definition receive_ping_entry :: "u32 \<Rightarrow> int \<Rightarrow> u16 \<Rightarrow> int \<Rightarrow> sm \<Rightarrow> sm option" where
  "receive_ping_entry ip received_time seq i s =
     (if ping_matches ip seq (server_infoes s i)
      then let s' = upd_server i (ping_answered received_time) s
           in update_learning_table (server_infoes s' i) (ip_gateway s') s'
      else Some s)"

definition receive_ping_packet :: "u32 \<Rightarrow> int \<Rightarrow> u16 \<Rightarrow> sm \<Rightarrow> sm option" where
  "receive_ping_packet ip received_time seq s =
     foldM (receive_ping_entry ip received_time seq) [0..number_of_servers s - 1] s"

section \<open>Initial entries\<close>

definition initial_entry :: "ip_info \<Rightarrow> string \<Rightarrow> server_information \<Rightarrow> server_information" where
  "initial_entry gw server_id si =
     (let r = \<lparr>ip_next_hop_rtt = gw, ip_next_hop_lost = gw, ri_rtt_time = u16_max,
               ri_lost_rate = DFin 1, is_active = False\<rparr>
      in si\<lparr>forwarding_table := r, learning_table := r,
            si_ip := \<lparr>ii_uint = ip_into_uint server_id, ii_str = server_id\<rparr>,
            ping_lost_rate := DFin 1, ping_received := 0, ping_sent := 0, si_rtt_time := u16_max,
            sequence_id := 0, ping_lost_numbers := 0\<rparr>)"

definition initialize_server_information :: "int \<Rightarrow> string \<Rightarrow> sm \<Rightarrow> sm option" where
  "initialize_server_information i server_id s =
     (if in_servers i
      then Some ((upd_server i (initial_entry (ip_gateway s) server_id) s)
             \<lparr>ip_to_id := (ip_to_id s)(ip_into_uint server_id \<mapsto> i)\<rparr>)
      else None)"

section \<open>MAC addresses of the peers\<close>

text \<open>The six one-byte \<open>memcpy\<close>s copy the whole address; the array is fresh.\<close>

definition store_mac_addr_to_map :: "u32 \<Rightarrow> u8 list \<Rightarrow> sm \<Rightarrow> sm option" where
  "store_mac_addr_to_map ip mac_addr s = do {
     mac \<leftarrow> foldM (\<lambda>i m. memcpy m i mac_addr i 1) [0..<6] (fresh (heap s) 6);
     Some (s\<lparr>ip_to_mac := (ip_to_mac s)(ip \<mapsto> mac)\<rparr>) }"

definition is_equal_mac :: "u8 list \<Rightarrow> u8 list \<Rightarrow> bool option" where
  "is_equal_mac mac1 mac2 =
     foldM (\<lambda>i eq. if eq then do { a \<leftarrow> load8 mac1 i; b \<leftarrow> load8 mac2 i; Some (a = b) } else Some False)
       [0..<6] True"

section \<open>Facts about the loops and look-ups\<close>

lemma for_servers_eq:
  "for_servers n f s =
     s\<lparr>server_infoes := \<lambda>i. if 0 \<le> i \<and> i < n then f (server_infoes s i) else server_infoes s i\<rparr>"
proof -
  have "fold (\<lambda>i. upd_server i f) xs s
      = s\<lparr>server_infoes := fold (\<lambda>i a. a(i := f (a i))) xs (server_infoes s)\<rparr>" for xs s
    by (induction xs arbitrary: s) (simp_all add: upd_server_def)
  moreover have "fold (\<lambda>i a. a(i := f (a i))) [0..n - 1] (server_infoes s)
      = (\<lambda>i. if 0 \<le> i \<and> i < n then f (server_infoes s i) else server_infoes s i)"
    by (rule ext) (simp add: fold_upd_cell)
  ultimately show ?thesis by (simp add: for_servers_def)
qed

lemma find_upto_Some:
  "find P [0..n - 1] = Some i \<longleftrightarrow> 0 \<le> i \<and> i < n \<and> P i \<and> (\<forall>k. 0 \<le> k \<and> k < i \<longrightarrow> \<not> P k)"
proof -
  have nth: "k < nat n \<Longrightarrow> [0..n - 1] ! k = int k" for k by (simp add: nth_upto)
  have "find P [0..n - 1] = Some i \<longleftrightarrow> (\<exists>k<nat n. P (int k) \<and> i = int k \<and> (\<forall>j<k. \<not> P (int j)))"
    unfolding find_Some_iff by (auto simp: nth)
  also have "\<dots> \<longleftrightarrow> 0 \<le> i \<and> i < n \<and> P i \<and> (\<forall>k. 0 \<le> k \<and> k < i \<longrightarrow> \<not> P k)"
  proof
    assume "\<exists>k<nat n. P (int k) \<and> i = int k \<and> (\<forall>j<k. \<not> P (int j))"
    then show "0 \<le> i \<and> i < n \<and> P i \<and> (\<forall>k. 0 \<le> k \<and> k < i \<longrightarrow> \<not> P k)"
      by (metis int_nat_eq nat_less_iff of_nat_0_le_iff zless_nat_conj nat_int)
  next
    assume "0 \<le> i \<and> i < n \<and> P i \<and> (\<forall>k. 0 \<le> k \<and> k < i \<longrightarrow> \<not> P k)"
    then show "\<exists>k<nat n. P (int k) \<and> i = int k \<and> (\<forall>j<k. \<not> P (int j))"
      by (intro exI [of _ "nat i"]) auto
  qed
  finally show ?thesis .
qed

lemma get_index_cases:
  obtains (absent) "get_index_by_ip s ip = - 1"
      "\<And>i. 0 \<le> i \<Longrightarrow> i < number_of_all_servers s \<Longrightarrow> ii_uint (si_ip (server_infoes s i)) \<noteq> ip"
    | (found) i where "get_index_by_ip s ip = i" "0 \<le> i" "i < number_of_all_servers s"
      "ii_uint (si_ip (server_infoes s i)) = ip"
      "\<And>k. 0 \<le> k \<Longrightarrow> k < i \<Longrightarrow> ii_uint (si_ip (server_infoes s k)) \<noteq> ip"
proof (cases "find (\<lambda>i. ii_uint (si_ip (server_infoes s i)) = ip) [0..number_of_all_servers s - 1]")
  case None
  then show thesis
    by (intro absent) (simp add: get_index_by_ip_def, auto simp: find_None_iff)
next
  case (Some i)
  then show thesis
    by (intro found [of i]) (simp add: get_index_by_ip_def, auto simp: find_upto_Some)
qed

lemma get_index_eqI:
  assumes "0 \<le> i" "i < number_of_all_servers s" "ii_uint (si_ip (server_infoes s i)) = ip"
    and "\<And>k. 0 \<le> k \<Longrightarrow> k < i \<Longrightarrow> ii_uint (si_ip (server_infoes s k)) \<noteq> ip"
  shows "get_index_by_ip s ip = i"
proof -
  have "find (\<lambda>i. ii_uint (si_ip (server_infoes s i)) = ip) [0..number_of_all_servers s - 1] = Some i"
    using assms by (simp add: find_upto_Some)
  then show ?thesis by (simp add: get_index_by_ip_def)
qed

section \<open>The invariant of the table\<close>

definition wf_servers :: "sm \<Rightarrow> bool" where
  "wf_servers s \<longleftrightarrow> 0 \<le> number_of_servers s \<and> number_of_servers s \<le> number_of_all_servers s
     \<and> number_of_all_servers s \<le> MAX_SERVER_NUMBERS"

lemma upd_server_fields [simp]:
  "number_of_servers (upd_server i f s) = number_of_servers s"
  "number_of_all_servers (upd_server i f s) = number_of_all_servers s"
  "ip_gateway (upd_server i f s) = ip_gateway s"
  "server_infoes (upd_server i f s) k = (if k = i then f (server_infoes s i) else server_infoes s k)"
  by (simp_all add: upd_server_def)

lemma wf_upd_server [simp]: "wf_servers (upd_server i f s) = wf_servers s"
  by (simp add: wf_servers_def)

lemma wf_for_servers [simp]: "wf_servers (for_servers n f s) = wf_servers s"
  by (simp add: wf_servers_def for_servers_eq)

lemma insert_defined:
  "wf_servers s \<Longrightarrow> (insert_into_server_infoes info s \<noteq> None) = (number_of_all_servers s < 1000)"
  by (auto simp: insert_into_server_infoes_def in_servers_def wf_servers_def)

lemma wf_insert: "insert_into_server_infoes info s = Some s' \<Longrightarrow> wf_servers s \<Longrightarrow> wf_servers s'"
  by (auto simp: insert_into_server_infoes_def in_servers_def wf_servers_def split: if_splits)

lemma wf_update_learning_table:
  "update_learning_table info ip s = Some s' \<Longrightarrow> wf_servers s \<Longrightarrow> wf_servers s'"
  by (auto simp: update_learning_table_def Let_def Option.bind_eq_Some_conv
      dest: wf_insert split: if_splits)

lemma update_learning_table_defined:
  assumes "wf_servers s" "get_index_by_ip s (ii_uint (si_ip info)) \<noteq> - 1 \<or> number_of_all_servers s < 1000"
  shows "\<exists>s'. update_learning_table info ip s = Some s'"
  using assms insert_defined [OF assms(1), of info]
  by (auto simp: update_learning_table_def Let_def)

lemma learn_ip [simp]: "si_ip (learn info ip si) = si_ip si"
  by (simp add: learn_def)

text \<open>The entry of a known server is the only one an update rewrites.\<close>

lemma update_learning_table_known:
  assumes "get_index_by_ip s (ii_uint (si_ip info)) = i" "i \<noteq> - 1"
  shows "update_learning_table info ip s = Some (upd_server i (learn info ip) s)"
  using assms by (simp add: update_learning_table_def Let_def)

text \<open>No update moves an entry: a server found at an index stays there.\<close>

lemma update_learning_table_index:
  assumes "update_learning_table info ip s = Some s'" "get_index_by_ip s a = i" "i \<noteq> - 1"
  shows "get_index_by_ip s' a = i"
proof -
  obtain i': "0 \<le> i" "i < number_of_all_servers s" "ii_uint (si_ip (server_infoes s i)) = a"
    "\<And>k. 0 \<le> k \<Longrightarrow> k < i \<Longrightarrow> ii_uint (si_ip (server_infoes s k)) \<noteq> a"
    by (rule get_index_cases [of s a]) (use assms(2,3) in auto)
  show ?thesis
  proof (cases "get_index_by_ip s (ii_uint (si_ip info)) = - 1")
    case False
    then have "s' = upd_server (get_index_by_ip s (ii_uint (si_ip info))) (learn info ip) s"
      using assms(1) by (simp add: update_learning_table_known)
    then show ?thesis using i' by (intro get_index_eqI) auto
  next
    case True
    then have s': "s' = upd_server (number_of_all_servers s) (learn info ip)
        ((upd_server (number_of_all_servers s) (inserted_server info) s)
          \<lparr>number_of_all_servers := number_of_all_servers s + 1\<rparr>)"
      using assms(1) by (auto simp: update_learning_table_def insert_into_server_infoes_def split: if_splits)
    show ?thesis using i' by (intro get_index_eqI) (auto simp: s')
  qed
qed

lemma update_learning_table_entry:
  assumes "update_learning_table info ip s = Some s'" "get_index_by_ip s a = i" "i \<noteq> - 1"
  shows "server_infoes s' i =
    (if ii_uint (si_ip info) = a then learn info ip (server_infoes s i) else server_infoes s i)"
proof -
  obtain i': "0 \<le> i" "i < number_of_all_servers s" "ii_uint (si_ip (server_infoes s i)) = a"
    by (rule get_index_cases [of s a]) (use assms(2,3) in auto)
  show ?thesis
  proof (cases "get_index_by_ip s (ii_uint (si_ip info)) = - 1")
    case False
    then have s': "s' = upd_server (get_index_by_ip s (ii_uint (si_ip info))) (learn info ip) s"
      using assms(1) by (simp add: update_learning_table_known)
    show ?thesis
      by (rule get_index_cases [of s "ii_uint (si_ip info)"]) (use False s' i' assms(2) in auto)
  next
    case True
    then have "ii_uint (si_ip info) \<noteq> a" using assms(2,3) by auto
    moreover have "s' = upd_server (number_of_all_servers s) (learn info ip)
        ((upd_server (number_of_all_servers s) (inserted_server info) s)
          \<lparr>number_of_all_servers := number_of_all_servers s + 1\<rparr>)"
      using assms(1) True by (auto simp: update_learning_table_def insert_into_server_infoes_def split: if_splits)
    ultimately show ?thesis using i' by simp
  qed
qed

end
