(* ===== verification/Routes.thy ===== *)
theory Routes
  imports Servers
begin

text \<open>
  Route choice. \<open>update_learning_table\<close> (sm.cpp) keeps, for every server, the next hop of least
  round-trip time and the next hop of least loss rate. The locale \<open>route_metric\<close> is the contract of
  such a choice: a strict order on the metric under which an offer replaces the current route if it
  is better or comes from the same next hop. It is interpreted for both metrics of the code, and the
  two assignments of \<open>update_learning_table\<close> refine its step; so the learned routes are optimal.
\<close>

section \<open>Route choice\<close>

text \<open>
  The specification of one learning step: an offer of a route by a next hop replaces the current
  route if the hop is the current one or if its metric is better.
\<close>

definition route_step :: "('m \<Rightarrow> 'm \<Rightarrow> bool) \<Rightarrow> ip_info \<times> 'm \<Rightarrow> ip_info \<times> 'm \<Rightarrow> ip_info \<times> 'm" where
  "route_step better offer cur =
     (if ii_uint (fst offer) = ii_uint (fst cur) \<or> better (snd offer) (snd cur) then offer else cur)"

locale route_metric =
  fixes better :: "'m \<Rightarrow> 'm \<Rightarrow> bool"
  assumes irrefl: "\<not> better m m"
    and trans: "better a b \<Longrightarrow> better b c \<Longrightarrow> better a c"
begin

lemma step_in: "route_step better offer cur \<in> {offer, cur}"
  by (simp add: route_step_def)

lemma asym: "better a b \<Longrightarrow> \<not> better b a"
  using irrefl trans by blast

text \<open>
  After offers from pairwise different hops, none of them the current one, the route is one of
  the offers or the old one, and nothing offered is better.
\<close>

lemma fold_monotone:
  assumes "distinct (map (ii_uint \<circ> fst) offers)" "ii_uint (fst cur) \<notin> (ii_uint \<circ> fst) ` set offers"
  shows "fold (route_step better) offers cur = cur
    \<or> better (snd (fold (route_step better) offers cur)) (snd cur)"
  using assms
proof (induction offers arbitrary: cur)
  case (Cons x offers)
  show ?case
  proof (cases "better (snd x) (snd cur)")
    case True
    then have "route_step better x cur = x" by (simp add: route_step_def)
    then show ?thesis using Cons.IH [of x] Cons.prems True trans by auto
  next
    case False
    then have "route_step better x cur = cur" using Cons.prems by (auto simp: route_step_def)
    then show ?thesis using Cons by auto
  qed
qed simp

lemma fold_best:
  assumes "distinct (map (ii_uint \<circ> fst) offers)" "ii_uint (fst cur) \<notin> (ii_uint \<circ> fst) ` set offers"
  shows "fold (route_step better) offers cur \<in> insert cur (set offers) \<and>
    (\<forall>r \<in> insert cur (set offers). \<not> better (snd r) (snd (fold (route_step better) offers cur)))"
  using assms
proof (induction offers arbitrary: cur)
  case (Cons x offers)
  let ?f = "fold (route_step better) offers"
  have c: "route_step better x cur = (if better (snd x) (snd cur) then x else cur)"
    using Cons.prems by (auto simp: route_step_def)
  have fresh: "ii_uint (fst x) \<notin> (ii_uint \<circ> fst) ` set offers"
    "ii_uint (fst cur) \<notin> (ii_uint \<circ> fst) ` set offers" "distinct (map (ii_uint \<circ> fst) offers)"
    using Cons.prems by (simp_all add: comp_def)
  note IHx = Cons.IH [of x, OF fresh(3,1)] and IHc = Cons.IH [of cur, OF fresh(3,2)]
  show ?case
  proof (cases "better (snd x) (snd cur)")
    case True
    then have "\<not> better (snd cur) (snd (?f x))" using IHx trans by blast
    then show ?thesis using IHx c True by auto
  next
    case False
    then have "\<not> better (snd x) (snd (?f cur))"
      using fold_monotone [OF fresh(3,2)] trans by metis
    then show ?thesis using IHc c False by auto
  qed
qed (simp add: irrefl)

end

section \<open>Both choices of the code\<close>

interpretation rtt: route_metric "(<) :: u16 \<Rightarrow> u16 \<Rightarrow> bool"
  by unfold_locales auto

lemma dlt_irrefl: "\<not> dlt a a"
  by (cases a) auto

lemma dlt_trans: "dlt a b \<Longrightarrow> dlt b c \<Longrightarrow> dlt a c"
  by (cases a; cases b; cases c) auto

interpretation loss: route_metric dlt
  by unfold_locales (use dlt_irrefl dlt_trans in blast)+

definition rtt_route :: "routing_info \<Rightarrow> ip_info \<times> u16" where
  "rtt_route lt = (ip_next_hop_rtt lt, ri_rtt_time lt)"

definition loss_route :: "routing_info \<Rightarrow> ip_info \<times> double" where
  "loss_route lt = (ip_next_hop_lost lt, ri_lost_rate lt)"

text \<open>What an entry received from a peer offers.\<close>

definition rtt_offer :: "server_information \<times> ip_info \<Rightarrow> ip_info \<times> u16" where
  "rtt_offer r = (snd r, si_rtt_time (fst r))"

definition loss_offer :: "server_information \<times> ip_info \<Rightarrow> ip_info \<times> double" where
  "loss_offer r = (snd r, ping_lost_rate (fst r))"

lemma rtt_route_learn:
  "rtt_route (learning_table (learn info ip si))
     = route_step (<) (rtt_offer (info, ip)) (rtt_route (learning_table si))"
  by (simp add: rtt_route_def rtt_offer_def learn_def learn_rtt_def learn_lost_def route_step_def)

lemma loss_route_learn:
  "loss_route (learning_table (learn info ip si))
     = route_step dlt (loss_offer (info, ip)) (loss_route (learning_table si))"
  by (simp add: loss_route_def loss_offer_def learn_def learn_rtt_def learn_lost_def route_step_def)

section \<open>A sequence of updates\<close>

definition offers_for :: "u32 \<Rightarrow> (server_information \<times> ip_info) list \<Rightarrow> (server_information \<times> ip_info) list" where
  "offers_for a rs = filter (\<lambda>r. ii_uint (si_ip (fst r)) = a) rs"

definition update_all :: "(server_information \<times> ip_info) list \<Rightarrow> sm \<Rightarrow> sm option" where
  "update_all rs s = foldM (\<lambda>r. update_learning_table (fst r) (snd r)) rs s"

text \<open>The updates for other servers do not touch an entry; its own are applied in order.\<close>

lemma update_all_entry:
  assumes "update_all rs s = Some s'" "get_index_by_ip s a = i" "i \<noteq> - 1"
  shows "get_index_by_ip s' a = i
    \<and> server_infoes s' i = fold (\<lambda>r. learn (fst r) (snd r)) (offers_for a rs) (server_infoes s i)"
  using assms
proof (induction rs arbitrary: s)
  case Nil
  then show ?case by (simp add: update_all_def offers_for_def)
next
  case (Cons r rs)
  then obtain t where t: "update_learning_table (fst r) (snd r) s = Some t" "update_all rs t = Some s'"
    by (auto simp: update_all_def Option.bind_eq_Some_conv)
  have "get_index_by_ip t a = i" by (rule update_learning_table_index [OF t(1) Cons.prems(2,3)])
  then show ?case
    using Cons.IH [OF t(2)] update_learning_table_entry [OF t(1) Cons.prems(2,3)] Cons.prems(3)
    by (simp add: offers_for_def)
qed

lemma fold_learn_routes:
  "rtt_route (learning_table (fold (\<lambda>r. learn (fst r) (snd r)) rs si))
     = fold (route_step (<)) (map rtt_offer rs) (rtt_route (learning_table si))"
  "loss_route (learning_table (fold (\<lambda>r. learn (fst r) (snd r)) rs si))
     = fold (route_step dlt) (map loss_offer rs) (loss_route (learning_table si))"
  by (induction rs arbitrary: si) (simp_all add: rtt_route_learn loss_route_learn)

lemma offer_hops:
  "map (ii_uint \<circ> fst) (map rtt_offer rs) = map (ii_uint \<circ> snd) rs"
  "map (ii_uint \<circ> fst) (map loss_offer rs) = map (ii_uint \<circ> snd) rs"
  by (simp_all add: rtt_offer_def loss_offer_def)

text \<open>
  C1: Route learning. Let a node process a sequence of announcements, about any servers, in which
  no two announcements about the server of address \<open>a\<close> come from the same peer and none from its
  current next hop. Then the route it has learned for \<open>a\<close> by round-trip time is one of those
  announced or the old one, and none of them is faster; the same for the route by loss rate, where
  none of them has a smaller loss rate.
\<close>

theorem learned_route_optimal:
  fixes s a
  defines "lt0 \<equiv> learning_table (server_infoes s (get_index_by_ip s a))"
  assumes "update_all rs s = Some s'" "get_index_by_ip s a \<noteq> - 1"
    and "distinct (map (ii_uint \<circ> snd) (offers_for a rs))"
    and "ii_uint (ip_next_hop_rtt lt0) \<notin> (ii_uint \<circ> snd) ` set (offers_for a rs)"
    and "ii_uint (ip_next_hop_lost lt0) \<notin> (ii_uint \<circ> snd) ` set (offers_for a rs)"
  shows "let lt = learning_table (server_infoes s' (get_index_by_ip s' a)) in
    rtt_route lt \<in> insert (rtt_route lt0) (rtt_offer ` set (offers_for a rs))
    \<and> (\<forall>r \<in> insert (rtt_route lt0) (rtt_offer ` set (offers_for a rs)). ri_rtt_time lt \<le> snd r)
    \<and> loss_route lt \<in> insert (loss_route lt0) (loss_offer ` set (offers_for a rs))
    \<and> (\<forall>r \<in> insert (loss_route lt0) (loss_offer ` set (offers_for a rs)). \<not> dlt (snd r) (ri_lost_rate lt))"
proof -
  let ?os = "offers_for a rs" and ?lt = "learning_table (server_infoes s' (get_index_by_ip s' a))"
  note e = update_all_entry [OF assms(2) refl assms(3)]
  have r: "rtt_route ?lt = fold (route_step (<)) (map rtt_offer ?os) (rtt_route lt0)"
    and l: "loss_route ?lt = fold (route_step dlt) (map loss_offer ?os) (loss_route lt0)"
    using e by (simp_all add: fold_learn_routes lt0_def)
  have "rtt_route ?lt \<in> insert (rtt_route lt0) (rtt_offer ` set ?os)
    \<and> (\<forall>r \<in> insert (rtt_route lt0) (rtt_offer ` set ?os). \<not> snd r < snd (rtt_route ?lt))"
    unfolding r using rtt.fold_best [of "map rtt_offer ?os" "rtt_route lt0"] assms(4,5)
    by (simp add: offer_hops rtt_route_def rtt_offer_def comp_def image_image)
  moreover have "loss_route ?lt \<in> insert (loss_route lt0) (loss_offer ` set ?os)
    \<and> (\<forall>r \<in> insert (loss_route lt0) (loss_offer ` set ?os). \<not> dlt (snd r) (snd (loss_route ?lt)))"
    unfolding l using loss.fold_best [of "map loss_offer ?os" "loss_route lt0"] assms(4,6)
    by (simp add: offer_hops loss_route_def loss_offer_def comp_def image_image)
  ultimately show ?thesis
    by (simp add: Let_def rtt_route_def loss_route_def not_less)
qed

text \<open>A node with one server, 100 ms away and lossless through the gateway, and three announcements.\<close>

definition demo_node :: sm where
  "demo_node = upd_server 0 (\<lambda>si. si\<lparr>si_ip := \<lparr>ii_uint = 1, ii_str = ''s''\<rparr>, learning_table :=
     \<lparr>ip_next_hop_rtt = \<lparr>ii_uint = 10, ii_str = ''g''\<rparr>, ip_next_hop_lost = \<lparr>ii_uint = 10, ii_str = ''g''\<rparr>,
      ri_rtt_time = 100, ri_lost_rate = DFin 0, is_active = False\<rparr>\<rparr>)
     ((sm_start 0 [] (\<lambda>_. 0) (\<lambda>_. 0))\<lparr>number_of_servers := 1, number_of_all_servers := 1\<rparr>)"

definition demo_offers :: "(server_information \<times> ip_info) list" where
  "demo_offers = map (\<lambda>(a, t, p). (server_zero\<lparr>si_ip := \<lparr>ii_uint = a, ii_str = ''''\<rparr>, si_rtt_time := t,
     ping_lost_rate := DFin 1\<rparr>, \<lparr>ii_uint = p, ii_str = ''p''\<rparr>)) [(1, 40, 7), (2, 5, 7), (1, 30, 8)]"

theorem learned_route_optimal_witness:
  "\<exists>s'. update_all demo_offers demo_node = Some s'
    \<and> ii_uint (ip_next_hop_rtt (learning_table (server_infoes s' (get_index_by_ip s' 1)))) = 8
    \<and> ri_rtt_time (learning_table (server_infoes s' (get_index_by_ip s' 1))) \<le> 30"
proof -
  have "update_all demo_offers demo_node \<noteq> None" by code_simp
  then obtain s' where s': "update_all demo_offers demo_node = Some s'" by auto
  have "ii_uint (ip_next_hop_rtt (learning_table (server_infoes (the (update_all demo_offers demo_node))
      (get_index_by_ip (the (update_all demo_offers demo_node)) 1)))) = 8" by code_simp
  moreover have "get_index_by_ip demo_node 1 \<noteq> - 1"
    "distinct (map (ii_uint \<circ> snd) (offers_for 1 demo_offers))"
    "ii_uint (ip_next_hop_rtt (learning_table (server_infoes demo_node (get_index_by_ip demo_node 1))))
      \<notin> (ii_uint \<circ> snd) ` set (offers_for 1 demo_offers)"
    "ii_uint (ip_next_hop_lost (learning_table (server_infoes demo_node (get_index_by_ip demo_node 1))))
      \<notin> (ii_uint \<circ> snd) ` set (offers_for 1 demo_offers)"
    by code_simp+
  moreover have "snd (rtt_offer (demo_offers ! 2)) = 30" "demo_offers ! 2 \<in> set (offers_for 1 demo_offers)"
    by (code_simp, simp add: demo_offers_def offers_for_def)
  ultimately show ?thesis
    using learned_route_optimal [OF s', of 1] s' by (fastforce simp: Let_def)
qed

end
