(* ===== verification/Stats.thy ===== *)
theory Stats
  imports Servers
begin

text \<open>
  The ping statistics (sm.cpp: \<open>update_server_information\<close>, \<open>check_connections_is_alive\<close>,
  \<open>receive_ping_packet\<close>): what a sequence of pings, checks and replies does to the entry of a
  server. The lemmas show when the counters and the loss rate stay meaningful, when a server is
  declared down, and which entry a reply reaches.
\<close>

section \<open>The life of an entry\<close>

datatype entry_event = Pinged int | Checked | Answered int

fun entry_step :: "ip_info \<Rightarrow> entry_event \<Rightarrow> server_information \<Rightarrow> server_information" where
  "entry_step gw (Pinged t) si = ping_counted t gw si"
| "entry_step gw Checked si = connection_checked si"
| "entry_step gw (Answered t) si = ping_answered t si"

text \<open>A sequence in which no ping is answered twice, nor one that was not sent.\<close>

fun answered_once :: "ip_info \<Rightarrow> entry_event list \<Rightarrow> server_information \<Rightarrow> bool" where
  "answered_once gw [] si = True"
| "answered_once gw (e # es) si =
     ((\<forall>t. e = Answered t \<longrightarrow> \<not> is_received_last_ping si) \<and> answered_once gw es (entry_step gw e si))"

definition entry_run :: "ip_info \<Rightarrow> entry_event list \<Rightarrow> server_information \<Rightarrow> server_information" where
  "entry_run gw es si = fold (entry_step gw) es si"

section \<open>The counters\<close>

definition unit_rate :: "double \<Rightarrow> bool" where
  "unit_rate r \<longleftrightarrow> (\<exists>x. r = DFin x \<and> 0 \<le> x \<and> x \<le> 1)"

text \<open>
  The invariant: no more replies than pings; an outstanding ping to a server that is up is counted;
  at most \<open>n\<close> pings were counted.
\<close>

definition counters_ok :: "nat \<Rightarrow> server_information \<Rightarrow> bool" where
  "counters_ok n si \<longleftrightarrow> unat (ping_received si) \<le> unat (ping_sent si) \<and> unat (ping_sent si) \<le> n
     \<and> (si_rtt_time si \<noteq> u16_max \<longrightarrow> \<not> is_received_last_ping si \<longrightarrow> unat (ping_received si) < unat (ping_sent si))
     \<and> unit_rate (ping_lost_rate si)"

lemma unat_Suc_u16: "unat w < 65535 \<Longrightarrow> unat (w + 1) = unat w + 1" for w :: u16
  by (simp add: unat_word_ariths)

lemma unit_rate_loss: "unat r \<le> unat s \<Longrightarrow> 0 < unat s \<Longrightarrow> unit_rate (loss_rate r s)"
  using loss_rate_unit [of s r] by (auto simp: unit_rate_def word_le_nat_alt unat_gt_0)

lemma unit_rate_1: "unit_rate (DFin 1)"
  by (simp add: unit_rate_def)

lemma counters_pinged:
  assumes "counters_ok n si" "n < 65535"
  shows "counters_ok (n + 1) (ping_counted t gw si)"
  using assms unit_rate_loss [of "ping_received si" "ping_sent si + 1"] unat_Suc_u16 [of "ping_sent si"]
  by (auto simp: counters_ok_def ping_counted_def Let_def)

lemma counters_checked: "counters_ok n si \<Longrightarrow> counters_ok n (connection_checked si)"
  by (auto simp: counters_ok_def connection_checked_def Let_def unit_rate_1)

lemma counters_answered:
  assumes "counters_ok n si" "n < 65535" "\<not> is_received_last_ping si"
  shows "counters_ok (n + 1) (ping_answered t si)"
  using assms unit_rate_loss [of "ping_received si + 1" "ping_sent si + 1"]
    unit_rate_loss [of "ping_received si + 1" "ping_sent si"]
    unat_Suc_u16 [of "ping_sent si"] unat_Suc_u16 [of "ping_received si"]
  by (auto simp: counters_ok_def ping_answered_def Let_def)

lemma counters_mono: "counters_ok n si \<Longrightarrow> n \<le> m \<Longrightarrow> counters_ok m si"
  by (auto simp: counters_ok_def)

lemma counters_step:
  assumes "counters_ok n si" "n < 65535" "\<forall>t. e = Answered t \<longrightarrow> \<not> is_received_last_ping si"
  shows "counters_ok (n + 1) (entry_step gw e si)"
  using assms counters_pinged counters_answered counters_mono [OF counters_checked, of n si "n + 1"]
  by (cases e) auto

lemma counters_run:
  assumes "counters_ok n si" "n + length es \<le> 65535" "answered_once gw es si"
  shows "counters_ok (n + length es) (entry_run gw es si)"
  using assms
proof (induction es arbitrary: n si)
  case (Cons e es)
  then have "counters_ok (n + 1) (entry_step gw e si)" by (intro counters_step) simp_all
  then show ?case using Cons.IH [of "n + 1" "entry_step gw e si"] Cons.prems
    by (simp add: entry_run_def)
qed (simp add: entry_run_def)

text \<open>
  C31: As long as no ping is answered twice, and for the first 65535 events, a server has at most as
  many replies as pings, and its loss rate is a number between 0 and 1, whatever the order of pings,
  checks and replies.
\<close>

theorem ping_counters_sane:
  assumes "length es \<le> 65535" "answered_once gw es (initial_entry gw name si)"
  shows "let si' = entry_run gw es (initial_entry gw name si) in
    ping_received si' \<le> ping_sent si' \<and> (\<exists>x. ping_lost_rate si' = DFin x \<and> 0 \<le> x \<and> x \<le> 1)"
proof -
  have "counters_ok 0 (initial_entry gw name si)"
    by (simp add: counters_ok_def initial_entry_def unit_rate_1 Let_def)
  then have "counters_ok (length es) (entry_run gw es (initial_entry gw name si))"
    using counters_run [of 0 "initial_entry gw name si" es gw] assms by simp
  then show ?thesis by (simp add: Let_def counters_ok_def unit_rate_def word_le_nat_alt)
qed

theorem ping_counters_sane_witness:
  "ping_received (entry_run ip_info_zero [Pinged 0, Answered 5000000] (initial_entry ip_info_zero ''10.0.0.1'' server_zero))
    \<le> ping_sent (entry_run ip_info_zero [Pinged 0, Answered 5000000] (initial_entry ip_info_zero ''10.0.0.1'' server_zero))"
proof -
  have "answered_once ip_info_zero [Pinged 0, Answered 5000000] (initial_entry ip_info_zero ''10.0.0.1'' server_zero)"
    by (simp add: ping_counted_def Let_def)
  from ping_counters_sane [OF _ this] show ?thesis by (simp add: Let_def)
qed

section \<open>Silence\<close>

text \<open>The effect of one \<open>ping\<close> command on the entry of a server.\<close>

definition silent_ping :: "ip_info \<Rightarrow> int \<Rightarrow> server_information \<Rightarrow> server_information" where
  "silent_ping gw t si = ping_counted t gw (connection_checked si)"

lemma silent_ping_rtt:
  "si_rtt_time (silent_ping gw t si) =
     (if \<not> is_received_last_ping si \<and> ping_lost_numbers si = 2 then u16_max else si_rtt_time si)"
  "\<not> is_received_last_ping (silent_ping gw t si)"
  "ping_lost_numbers (silent_ping gw t si) = ping_lost_numbers si + (if is_received_last_ping si then 0 else 1)"
  by (simp_all add: silent_ping_def ping_counted_def connection_checked_def Let_def)

lemma silent_ping_down:
  assumes "\<not> is_received_last_ping si" "ping_lost_numbers si = 2 \<or> (si_rtt_time si = u16_max \<and> ping_lost_rate si = DFin 1)"
  shows "si_rtt_time (silent_ping gw t si) = u16_max \<and> ping_lost_rate (silent_ping gw t si) = DFin 1"
  using assms by (auto simp: silent_ping_def ping_counted_def connection_checked_def Let_def)

lemma silent_pings_down:
  assumes "\<not> is_received_last_ping si" "si_rtt_time si = u16_max \<and> ping_lost_rate si = DFin 1"
  shows "si_rtt_time (fold (silent_ping gw) ts si) = u16_max \<and> ping_lost_rate (fold (silent_ping gw) ts si) = DFin 1"
  using assms
proof (induction ts arbitrary: si)
  case (Cons t ts)
  then show ?case using silent_ping_down [of si gw t] silent_ping_rtt(2) [of gw t si] by simp
qed simp

text \<open>
  C21: Failure detection. After a reply, a server that answers no further ping is declared down
  (round-trip time infinite, loss rate 1) by the fourth \<open>ping\<close> command, that is after three lost
  pings, not earlier, and stays down for any number of further silent pings.
\<close>

theorem silent_server_declared_down:
  assumes "is_received_last_ping si" "ping_lost_numbers si = 0" "si_rtt_time si \<noteq> u16_max"
  shows "(si_rtt_time (fold (silent_ping gw) ts si) = u16_max) = (4 \<le> length ts)
    \<and> (4 \<le> length ts \<longrightarrow> ping_lost_rate (fold (silent_ping gw) ts si) = DFin 1)"
proof (cases "4 \<le> length ts")
  case True
  then obtain a b c d us where ts: "ts = a # b # c # d # us"
    by (auto simp: numeral_eq_Suc Suc_le_length_iff)
  let ?s = "silent_ping gw c (silent_ping gw b (silent_ping gw a si))"
  have "\<not> is_received_last_ping ?s" "ping_lost_numbers ?s = 2"
    using assms by (simp_all add: silent_ping_rtt)
  then have "si_rtt_time (silent_ping gw d ?s) = u16_max \<and> ping_lost_rate (silent_ping gw d ?s) = DFin 1"
    by (intro silent_ping_down) simp_all
  then show ?thesis
    using silent_pings_down [of "silent_ping gw d ?s" gw us] silent_ping_rtt(2) [of gw d ?s] True
    by (simp add: ts)
next
  case False
  then consider "ts = []" | a where "ts = [a]" | a b where "ts = [a, b]" | a b c where "ts = [a, b, c]"
    by (cases ts rule: list.exhaust; cases "tl ts"; cases "tl (tl ts)"; cases "tl (tl (tl ts))") auto
  then show ?thesis using assms by cases (simp_all add: silent_ping_rtt)
qed

theorem silent_server_declared_down_witness:
  "si_rtt_time (fold (silent_ping ip_info_zero) [1, 2, 3]
      (server_zero\<lparr>si_rtt_time := 7, is_received_last_ping := True\<rparr>)) \<noteq> u16_max
    \<and> si_rtt_time (fold (silent_ping ip_info_zero) [1, 2, 3, 4]
      (server_zero\<lparr>si_rtt_time := 7, is_received_last_ping := True\<rparr>)) = u16_max"
proof -
  let ?si = "server_zero\<lparr>si_rtt_time := 7, is_received_last_ping := True\<rparr>"
  have "is_received_last_ping ?si" "ping_lost_numbers ?si = 0" "si_rtt_time ?si \<noteq> u16_max"
    by (simp_all add: server_zero_def)
  note down = silent_server_declared_down [OF this, of ip_info_zero]
  show ?thesis using down [of "[1, 2, 3]"] down [of "[1, 2, 3, 4]"] by simp
qed

section \<open>Replies\<close>

text \<open>
  A reply to the ping just sent to a server is recognised, except when its sequence number was
  65535: the code compares \<open>sequence_id + 1\<close> as an \<open>int\<close> with the wrapped 16-bit counter.
\<close>

theorem reply_recognised_iff:
  "ping_matches (ii_uint (si_ip si)) (sequence_id si) (ping_counted t gw si) \<longleftrightarrow> sequence_id si \<noteq> 65535"
proof -
  have "uint w + 1 = uint (w + 1) \<longleftrightarrow> w \<noteq> 65535" for w :: u16
  proof (cases "unat w < 65535")
    case True
    then have "int (unat (w + 1)) = int (unat w) + 1" by (simp add: unat_Suc_u16)
    then have "uint (w + 1) = uint w + 1" by (simp only: of_nat_unat)
    with True show ?thesis by auto
  next
    case False
    then have "w = 65535" using unat_u16_le [of w] by (simp add: word_unat_eq_iff)
    then show ?thesis by simp
  qed
  then show ?thesis by (simp add: ping_matches_def ping_counted_def Let_def)
qed

lemma receive_entries_none:
  assumes "\<forall>i\<in>set is. \<not> ping_matches ip seq (server_infoes s i)"
  shows "foldM (receive_ping_entry ip t seq) is s = Some s"
  using assms by (induction "is") (simp_all add: receive_ping_entry_def)

lemma ping_answered_fields [simp]:
  "si_ip (ping_answered t si) = si_ip si" "sequence_id (ping_answered t si) = sequence_id si"
  "learning_table (ping_answered t si) = learning_table si"
  by (simp_all add: ping_answered_def Let_def)

lemma get_index_upd:
  assumes "\<And>si. si_ip (f si) = si_ip si"
  shows "get_index_by_ip (upd_server k f s) a = get_index_by_ip s a"
proof -
  have "(\<lambda>i. ii_uint (si_ip (server_infoes (upd_server k f s) i)) = a)
      = (\<lambda>i. ii_uint (si_ip (server_infoes s i)) = a)"
    by (rule ext) (simp add: assms)
  then show ?thesis by (simp only: get_index_by_ip_def upd_server_fields)
qed

lemma receive_entry_match:
  assumes "ping_matches ip seq (server_infoes s i)" "get_index_by_ip s ip = i" "i \<noteq> - 1"
  shows "receive_ping_entry ip t seq i s
    = Some (upd_server i (\<lambda>si. learn (ping_answered t si) (ip_gateway s) (ping_answered t si)) s)"
proof -
  have "ii_uint (si_ip (server_infoes s i)) = ip" using assms(1) by (simp add: ping_matches_def)
  then have "get_index_by_ip (upd_server i (ping_answered t) s)
      (ii_uint (si_ip (server_infoes (upd_server i (ping_answered t) s) i))) = i"
    using assms(2) by (simp add: get_index_upd)
  from update_learning_table_known [OF this assms(3)] show ?thesis
    using assms(1) by (simp add: receive_ping_entry_def Let_def upd_server_def)
qed

text \<open>
  Echo replies. If one configured server has the source address of a reply and expects its
  sequence number, and no other does, \<open>receive_ping_packet\<close> updates the statistics of this entry,
  offers its new figures as a route through the gateway, and changes nothing else; if none does, it
  changes nothing.
\<close>

theorem receive_ping_packet_effect:
  assumes "get_index_by_ip s ip = i" "\<forall>k. 0 \<le> k \<and> k < number_of_servers s \<and> k \<noteq> i
    \<longrightarrow> \<not> ping_matches ip seq (server_infoes s k)"
  shows "receive_ping_packet ip t seq s = Some
    (if 0 \<le> i \<and> i < number_of_servers s \<and> ping_matches ip seq (server_infoes s i)
     then upd_server i (\<lambda>si. learn (ping_answered t si) (ip_gateway s) (ping_answered t si)) s else s)"
proof (cases "0 \<le> i \<and> i < number_of_servers s \<and> ping_matches ip seq (server_infoes s i)")
  case False
  then have "\<forall>k\<in>set [0..number_of_servers s - 1]. \<not> ping_matches ip seq (server_infoes s k)"
    using assms(2) by auto
  then show ?thesis using False by (auto simp: receive_ping_packet_def receive_entries_none)
next
  case True
  let ?s' = "upd_server i (\<lambda>si. learn (ping_answered t si) (ip_gateway s) (ping_answered t si)) s"
  have r: "[0..number_of_servers s - 1] = [0..i - 1] @ i # [i + 1..number_of_servers s - 1]"
    using True by (simp add: upto_split3)
  have "\<forall>k\<in>set [0..i - 1]. \<not> ping_matches ip seq (server_infoes s k)"
    "\<forall>k\<in>set [i + 1..number_of_servers s - 1]. \<not> ping_matches ip seq (server_infoes ?s' k)"
    using assms(2) True by auto
  then show ?thesis
    using True receive_entry_match [of ip seq s i t] assms(1)
    by (simp add: receive_ping_packet_def r foldM_append receive_entries_none)
qed

text \<open>A node whose only server expects a reply to the ping 0.\<close>

definition waiting_node :: sm where
  "waiting_node = upd_server 0 (\<lambda>si. si\<lparr>si_ip := \<lparr>ii_uint = 1, ii_str = ''0.0.0.1''\<rparr>, sequence_id := 1\<rparr>)
     ((sm_start 0 [] (\<lambda>_. 0) (\<lambda>_. 0))\<lparr>number_of_servers := 1, number_of_all_servers := 1\<rparr>)"

theorem receive_ping_packet_effect_witness:
  "\<exists>s'. receive_ping_packet 1 3000000 0 waiting_node = Some s' \<and> ping_received (server_infoes s' 0) = 1"
proof -
  have g: "get_index_by_ip waiting_node 1 = 0" by code_simp
  have m: "ping_matches 1 0 (server_infoes waiting_node 0)" "number_of_servers waiting_node = 1"
    by (simp_all add: waiting_node_def ping_matches_def sm_start_def)
  have "ping_received (learn (ping_answered 3000000 si) gw (ping_answered 3000000 si)) = ping_received si + 1"
    for si gw by (simp add: learn_def ping_answered_def Let_def)
  moreover have "ping_received (server_infoes waiting_node 0) = 0"
    by (simp add: waiting_node_def sm_start_def server_zero_def)
  moreover have "\<forall>k. 0 \<le> k \<and> k < number_of_servers waiting_node \<and> k \<noteq> 0
      \<longrightarrow> \<not> ping_matches 1 0 (server_infoes waiting_node k)" by (auto simp: m(2))
  ultimately show ?thesis
    using receive_ping_packet_effect [OF g, of 0 3000000] m by simp
qed

text \<open>
  A duplicated reply is counted twice. After the first ping of a server and its reply, a second
  copy of the reply still matches, and drives the loss rate to -1.
\<close>

theorem duplicate_reply_negative_loss:
  assumes "millis (t1 - t0) \<noteq> u16_max"
  shows "let si0 = ping_counted t0 gw (initial_entry gw name si); si1 = ping_answered t1 si0 in
    ping_matches (ii_uint (si_ip si0)) 0 si1 \<and> ping_lost_rate (ping_answered t2 si1) = DFin (- 1)"
proof -
  have "loss_rate 2 1 = DFin (- 1)" by code_simp
  then show ?thesis using assms
    by (simp add: Let_def ping_matches_def ping_counted_def ping_answered_def initial_entry_def)
qed

theorem duplicate_reply_negative_loss_witness:
  "ping_lost_rate (ping_answered 9000000 (ping_answered 5000000
    (ping_counted 0 ip_info_zero (initial_entry ip_info_zero ''10.0.0.1'' server_zero)))) = DFin (- 1)"
proof -
  have "millis (5000000 - 0) \<noteq> u16_max" by (simp add: millis_def trunc_div_def)
  from duplicate_reply_negative_loss [OF this] show ?thesis by (simp add: Let_def)
qed

end
