(* ===== verification/Sending.thy ===== *)
theory Sending
  imports Servers
begin

text \<open>
  The frames the node sends (sm.cpp): echo requests (\<open>send_icmp_packet\<close>), announcements
  (\<open>send_advertise_packet\<close>) and probes (\<open>send_udp_packet\<close> with its callers \<open>send_dsa_packet\<close> and
  \<open>send_lsa_packet\<close>). The code builds each of them through struct pointers into an uninitialised
  buffer; the lemmas show that the frame handed to \<open>sendFrame\<close> is the plain serialisation of its
  headers, independent of what the buffer held.
\<close>

section \<open>Sending\<close>

text \<open>
  \<open>sendFrame\<close> as seen by the node: the bytes of the frame go out on an interface. (How the framework
  encodes it on the connection is modelled in the theory of the client framework.)
\<close>

definition send_frame :: "frame \<Rightarrow> int \<Rightarrow> sm \<Rightarrow> sm option" where
  "send_frame fr i s = do {
     d \<leftarrow> load_bytes (fdata fr) 0 (unat (flength fr));
     Some (s\<lparr>sent_frames := sent_frames s @ [(d, i)]\<rparr>) }"

text \<open>\<open>iface[k].mac\<close> as the source of a \<open>memcpy\<close>.\<close>

definition iface_mac :: "sm \<Rightarrow> nat \<Rightarrow> u8 list option" where
  "iface_mac s k = map_option if_mac (iface_at (iface s) k)"

section \<open>Echo requests\<close>

definition icmp_frame :: "sm \<Rightarrow> server_information \<Rightarrow> u8 list option" where
  "icmp_frame s si = do {
     mac \<leftarrow> iface_mac s 1;
     d \<leftarrow> set_eth_addresses mac (mac_gateway s) (fresh (heap s) ICMP_SIZE);
     d \<leftarrow> set_eth_type d;
     d \<leftarrow> set_ip_header (iface s) (ii_uint (si_ip si)) (ucast IPPROTO_ICMP) 0 False False d;
     set_icmp_header_in_ping_packet (sequence_id si) d }"

text \<open>\<open>send_icmp_packet (&server_infoes[i])\<close>: the entry is updated before the frame is sent.\<close>

definition send_icmp_packet :: "int \<Rightarrow> sm \<Rightarrow> sm option" where
  "send_icmp_packet i s = do {
     d \<leftarrow> icmp_frame s (server_infoes s i);
     send_frame (Frame_new (of_nat ICMP_SIZE) d) 1 (update_server_information i s) }"

section \<open>Announcements\<close>

text \<open>The UDP header: \<open>length\<close>, \<open>port_dst\<close>, \<open>port_src\<close>, \<open>udp_sum\<close>.\<close>

definition set_udp_length_dst :: "u16 \<Rightarrow> u16 \<Rightarrow> u8 list \<Rightarrow> u8 list option" where
  "set_udp_length_dst len dport d = do {
     d \<leftarrow> store16 d (offset_of Udp_length) (htons len);
     store16 d (offset_of Udp_dst) (htons dport) }"

definition set_udp_src_sum :: "u16 \<Rightarrow> u8 list \<Rightarrow> u8 list option" where
  "set_udp_src_sum sport d = do {
     d \<leftarrow> store16 d (offset_of Udp_src) (htons sport);
     store16 d (offset_of Udp_sum) 0 }"

text \<open>\<open>adv\<close> is the memory from \<open>advertise_data\<close> on.\<close>

definition advertise_frame :: "sm \<Rightarrow> u32 \<Rightarrow> u8 list \<Rightarrow> u8 list \<Rightarrow> u32 \<Rightarrow> u8 list option" where
  "advertise_frame s ip_dst mac_dst adv n = do {
     d \<leftarrow> set_eth_type (fresh (heap s) (UDP_SIZE + unat n));
     d \<leftarrow> memcpy d (offset_of Ether_dhost) mac_dst 0 6;
     mac \<leftarrow> iface_mac s 0;
     d \<leftarrow> memcpy d (offset_of Ether_shost) mac 0 6;
     d \<leftarrow> set_ip_header (iface s) ip_dst (ucast IPPROTO_UDP) n False False d;
     d \<leftarrow> set_udp_length_dst (of_nat (sizeof_udp + unat n)) 5000 d;
     d \<leftarrow> set_udp_src_sum 5000 d;
     memcpy d UDP_SIZE adv 0 (unat n) }"

definition send_advertise_packet :: "u32 \<Rightarrow> u8 list \<Rightarrow> u8 list \<Rightarrow> u32 \<Rightarrow> sm \<Rightarrow> sm option" where
  "send_advertise_packet ip_dst mac_dst adv n s = do {
     d \<leftarrow> advertise_frame s ip_dst mac_dst adv n;
     send_frame (Frame_new (n + of_nat UDP_SIZE) d) 0 s }"

section \<open>Probes\<close>

text \<open>
  \<open>send_udp_packet\<close> in the order of its statements, in three parts between which another thread may
  run: the headers up to the lock; the critical section, which takes the next local port; the rest.
  The last part reads \<open>src_port\<close> again, outside the lock.
\<close>

definition probe_headers :: "u32 \<Rightarrow> u32 \<Rightarrow> bool \<Rightarrow> sm \<Rightarrow> u8 list option" where
  "probe_headers ip_dst next_hop is_dsa s = do {
     d \<leftarrow> set_eth_type (fresh (heap s) (UDP_SIZE + 4));
     d \<leftarrow> set_ip_header (iface s) ip_dst (ucast IPPROTO_UDP) 4 True (next_hop = ii_uint (ip_gateway s)) d;
     set_udp_length_dst (of_nat (sizeof_udp + 4)) (if is_dsa then 1000 else 2000) d }"

text \<open>
  The next local port, taken under the lock; \<open>owner\<close> is what a forwarded packet leaves in the two
  translation maps (its source address and port as they stand in the packet), \<open>None\<close> for a probe of
  the node itself. The maps are indexed by \<open>uint16_t\<close>, the counter is an \<open>int\<close>.
\<close>

definition alloc_port :: "(u32 \<times> u16) option \<Rightarrow> sm \<Rightarrow> (u16 \<times> sm) option" where
  "alloc_port owner s =
     (let q = word_of_int (src_port s);
          s1 = (case owner of None \<Rightarrow> s
                | Some (ip_src, port_src) \<Rightarrow> s\<lparr>port_to_ip := (port_to_ip s)(q \<mapsto> ip_src),
                    my_port_to_src_port := (my_port_to_src_port s)(q \<mapsto> port_src)\<rparr>)
      in do { p \<leftarrow> incr_int (src_port s); Some (q, s1\<lparr>src_port := p\<rparr>) })"

definition take_port :: "u8 list \<Rightarrow> sm \<Rightarrow> (u8 list \<times> sm) option" where
  "take_port d s = do {
     (q, s') \<leftarrow> alloc_port None s;
     d \<leftarrow> set_udp_src_sum q d;
     Some (d, s') }"

text \<open>
  \<open>ip_to_mac[next_hop]\<close> inserts a null pointer for an unknown peer, which the \<open>memcpy\<close> then reads.
\<close>

definition probe_finish :: "u32 \<Rightarrow> u8 list \<Rightarrow> sm \<Rightarrow> sm option" where
  "probe_finish next_hop d s = do {
     d \<leftarrow> memcpy d UDP_SIZE (bytes32 (htonl 0x12345678)) 0 4;
     s \<leftarrow> (if next_hop = ii_uint (ip_gateway s)
          then do {
            mac \<leftarrow> iface_mac s 1;
            d \<leftarrow> set_eth_addresses mac (mac_gateway s) d;
            send_frame (Frame_new (of_nat (4 + UDP_SIZE)) d) 1 s }
          else do {
            mac \<leftarrow> iface_mac s 0;
            peer \<leftarrow> ip_to_mac s next_hop;
            d \<leftarrow> set_eth_addresses mac peer d;
            send_frame (Frame_new (of_nat (4 + UDP_SIZE)) d) 0 s });
     Some (tick (s\<lparr>sent_times := (sent_times s)(word_of_int (src_port s - 1) \<mapsto> now s)\<rparr>)) }"

definition send_udp_packet :: "u32 \<Rightarrow> u32 \<Rightarrow> bool \<Rightarrow> sm \<Rightarrow> sm option" where
  "send_udp_packet ip_dst next_hop is_dsa s = do {
     d \<leftarrow> probe_headers ip_dst next_hop is_dsa s;
     (d, s) \<leftarrow> take_port d s;
     probe_finish next_hop d s }"

text \<open>\<open>ip_to_id[ip]\<close>: an unknown address is inserted with the value 0.\<close>

definition id_of :: "u32 \<Rightarrow> sm \<Rightarrow> int \<times> sm" where
  "id_of ip s = (case ip_to_id s ip of Some i \<Rightarrow> (i, s)
     | None \<Rightarrow> (0, s\<lparr>ip_to_id := (ip_to_id s)(ip \<mapsto> 0)\<rparr>))"

definition sent_line :: "string \<Rightarrow> string \<Rightarrow> string \<Rightarrow> sm \<Rightarrow> sm" where
  "sent_line kind ip_dst next_hop_str s =
     put_line (Cout (kind @ '' packet '' @ show_int (src_port s - 1) @ '' destined for '' @ ip_dst
       @ '' sent to '' @ next_hop_str)) s"

definition send_lsa_packet :: "string \<Rightarrow> sm \<Rightarrow> sm option" where
  "send_lsa_packet ip_dst s =
     (let (server_id, s) = id_of (ip_into_uint ip_dst) s;
          next_hop = ip_next_hop_lost (forwarding_table (server_infoes s server_id))
      in do {
        s \<leftarrow> send_udp_packet (ip_into_uint ip_dst) (ii_uint next_hop) False s;
        Some (sent_line ''LSA'' ip_dst (ii_str next_hop) s) })"

definition send_dsa_packet :: "string \<Rightarrow> sm \<Rightarrow> sm option" where
  "send_dsa_packet ip_dst s =
     (let (server_id, s) = id_of (ip_into_uint ip_dst) s;
          next_hop = ip_next_hop_rtt (forwarding_table (server_infoes s server_id))
      in do {
        s \<leftarrow> send_udp_packet (ip_into_uint ip_dst) (ii_uint next_hop) True s;
        Some (sent_line ''DSA'' ip_dst (ii_str next_hop) s) })"

section \<open>Well-formed nodes\<close>

definition wf_node :: "sm \<Rightarrow> bool" where
  "wf_node s \<longleftrightarrow> wf_servers s \<and> 2 \<le> length (iface s) \<and> (\<forall>i\<in>set (iface s). wf_interface i)
     \<and> 6 \<le> length (mac_gateway s) \<and> (\<forall>mac\<in>ran (ip_to_mac s). length mac = 6)"

lemma wf_node_iface:
  assumes "wf_node s" "k < 2"
  shows "iface_at (iface s) k = Some (iface s ! k)" "length (if_mac (iface s ! k)) = 6"
    "iface_mac s k = Some (if_mac (iface s ! k))"
  using assms by (auto simp: wf_node_def iface_at_def iface_mac_def wf_interface_def)

lemma wf_node_peer: "wf_node s \<Longrightarrow> ip_to_mac s p = Some mac \<Longrightarrow> length mac = 6"
  by (auto simp: wf_node_def ran_def)

section \<open>The frames are the serialisations\<close>

definition gateway_mac :: "sm \<Rightarrow> u8 list" where
  "gateway_mac s = take 6 (mac_gateway s)"

lemma length_gateway_mac: "wf_node s \<Longrightarrow> length (gateway_mac s) = 6"
  by (simp add: wf_node_def gateway_mac_def)

definition ping_bytes :: "sm \<Rightarrow> server_information \<Rightarrow> u8 list" where
  "ping_bytes s si = eth_bytes (gateway_mac s) (if_mac (iface s ! 1))
     @ ip_packet 32 IPPROTO_ICMP (if_ip (iface s ! 1)) (ii_uint (si_ip si))
     @ icmp_bytes 8 (sequence_id si) (icmp_csum 8 (sequence_id si))"

lemma icmp_frame_eq:
  assumes "wf_node s"
  shows "icmp_frame s si = Some (ping_bytes s si)"
proof -
  obtain e r where m: "fresh (heap s) ICMP_SIZE = e @ r" "length e = 12" "length r = 34"
    by (rule split_buffer [of "fresh (heap s) ICMP_SIZE" 12 34]) (simp add: sizes)
  obtain t r' where r: "r = t @ r'" "length t = 2" "length r' = 32"
    by (rule split_buffer [of r 2 32]) (simp add: m)
  obtain h i where h: "r' = h @ i" "length h = 20" "length i = 12"
    by (rule split_buffer [of r' 20 12]) (simp add: r)
  let ?eth = "eth_bytes (gateway_mac s) (if_mac (iface s ! 1))"
  note ifs = wf_node_iface [OF assms, of 1, simplified]
  have gw: "6 \<le> length (mac_gateway s)" using assms by (simp add: wf_node_def)
  have len: "length ?eth = 14" using ifs length_gateway_mac [OF assms] by simp
  have "set_eth_type (gateway_mac s @ if_mac (iface s ! 1) @ t @ h @ i) = Some (?eth @ h @ i)"
    using set_eth_type_eq [of "gateway_mac s @ if_mac (iface s ! 1)" t "h @ i"] r ifs
      length_gateway_mac [OF assms] by (simp add: eth_bytes_def)
  moreover have "ip_source (iface s) (ucast IPPROTO_ICMP) False False = Some (if_ip (iface s ! 1))"
    by (simp add: ip_source_def ifs getIp_def)
  moreover have "(ucast (ucast IPPROTO_ICMP :: u16) :: u8) = IPPROTO_ICMP" by simp
  ultimately show ?thesis
    using set_ip_header_eq [OF len h(2), of "ucast IPPROTO_ICMP"]
      set_icmp_header_eq [of "?eth @ ip_packet 32 IPPROTO_ICMP (if_ip (iface s ! 1)) (ii_uint (si_ip si))" i] len h(3)
    by (simp add: icmp_frame_def ifs m r h set_eth_addresses_take gw gateway_mac_def [symmetric]
        ip_length_def ping_bytes_def ip_packet_def)
qed

text \<open>Both UDP senders: addresses before or after the headers, the UDP header over eight old bytes.\<close>

lemma set_udp_length_dst_eq:
  assumes "length p = 34" "old = [a0, a1, a2, a3, a4, a5, a6, a7]"
  shows "set_udp_length_dst len dport (p @ old @ r)
     = Some (p @ [a0, a1] @ be16 dport @ be16 len @ [a6, a7] @ r)"
  using assms by (simp add: set_udp_length_dst_def struct_ops store_bytes_def be16_def bytes16_def wire_simps)

lemma set_udp_src_sum_eq:
  assumes "length p = 34"
  shows "set_udp_src_sum sport (p @ [a0, a1] @ be16 dport @ be16 len @ [a6, a7] @ r)
     = Some (p @ udp_bytes sport dport len @ r)"
  using assms
  by (simp add: set_udp_src_sum_def struct_ops store_bytes_def udp_bytes_def be16_def bytes16_def wire_simps)

lemma list_of_length_8:
  assumes "length old = 8"
  obtains a b c d e f g h where "old = [a, b, c, d, e, f, g, h]"
  using assms by (auto simp: numeral_eq_Suc length_Suc_conv)

lemma set_dhost_eq: "6 \<le> length dh \<Longrightarrow> length old = 6 \<Longrightarrow>
   memcpy (old @ r) (offset_of Ether_dhost) dh 0 6 = Some (take 6 dh @ r)"
  by (simp add: memcpy_def load_bytes_def store_bytes_def)

lemma set_shost_eq: "length sh = 6 \<Longrightarrow> length dh = 6 \<Longrightarrow> length old = 6 \<Longrightarrow>
   memcpy (dh @ old @ r) (offset_of Ether_shost) sh 0 6 = Some (dh @ sh @ r)"
  by (simp add: memcpy_def load_bytes_def store_bytes_def)

text \<open>The parts of a fresh UDP frame.\<close>

lemma split_udp_frame:
  assumes "length m = UDP_SIZE + n"
  obtains d s t h u x where "m = d @ s @ t @ h @ u @ x" "length d = 6" "length s = 6"
    "length t = 2" "length h = 20" "length u = 8" "length x = n"
proof -
  obtain d m1 where 1: "m = d @ m1" "length d = 6" "length m1 = 36 + n"
    by (rule split_buffer [of m 6 "36 + n"]) (simp add: assms sizes)
  obtain s m2 where 2: "m1 = s @ m2" "length s = 6" "length m2 = 30 + n"
    by (rule split_buffer [of m1 6 "30 + n"]) (simp add: 1)
  obtain t m3 where 3: "m2 = t @ m3" "length t = 2" "length m3 = 28 + n"
    by (rule split_buffer [of m2 2 "28 + n"]) (simp add: 2)
  obtain h m4 where 4: "m3 = h @ m4" "length h = 20" "length m4 = 8 + n"
    by (rule split_buffer [of m3 20 "8 + n"]) (simp add: 3)
  obtain u x where 5: "m4 = u @ x" "length u = 8" "length x = n"
    by (rule split_buffer [of m4 8 n]) (simp add: 4)
  show thesis using that 1 2 3 4 5 by simp
qed

definition announcement_bytes :: "sm \<Rightarrow> u32 \<Rightarrow> u8 list \<Rightarrow> u8 list \<Rightarrow> u8 list" where
  "announcement_bytes s ip_dst mac_dst pay = eth_bytes mac_dst (if_mac (iface s ! 0))
     @ ip_packet (of_nat (28 + length pay)) IPPROTO_UDP (if_ip (iface s ! 0)) ip_dst
     @ udp_bytes 5000 5000 (of_nat (8 + length pay)) @ pay"

lemma advertise_frame_eq:
  assumes "wf_node s" "6 \<le> length mac_dst" "unat n \<le> length adv"
  shows "advertise_frame s ip_dst mac_dst adv n
     = Some (announcement_bytes s ip_dst (take 6 mac_dst) (take (unat n) adv))"
proof -
  obtain d o2 t h u x where m: "fresh (heap s) (UDP_SIZE + unat n) = d @ o2 @ t @ h @ u @ x"
    "length d = 6" "length o2 = 6" "length t = 2" "length h = 20" "length u = 8" "length x = unat n"
    by (rule split_udp_frame [of "fresh (heap s) (UDP_SIZE + unat n)"]) simp
  obtain u0 u1 u2 u3 u4 u5 u6 u7 where u: "u = [u0, u1, u2, u3, u4, u5, u6, u7]"
    by (rule list_of_length_8 [OF m(6)])
  note ifs = wf_node_iface [OF assms(1), of 0, simplified]
  let ?eth = "eth_bytes (take 6 mac_dst) (if_mac (iface s ! 0))"
  let ?ip = "ip_packet (of_nat (28 + unat n)) IPPROTO_UDP (if_ip (iface s ! 0)) ip_dst"
  have len: "length ?eth = 14" "length (?eth @ ?ip) = 34" using ifs assms by simp_all
  have "set_eth_type (d @ o2 @ t @ h @ u @ x) = Some (d @ o2 @ be16 ETHERTYPE_IP @ h @ u @ x)"
    using set_eth_type_eq [of "d @ o2" t] m by simp
  moreover have "memcpy (d @ o2 @ r) (offset_of Ether_dhost) mac_dst 0 6 = Some (take 6 mac_dst @ o2 @ r)" for r
    by (rule set_dhost_eq [OF assms(2) m(2)])
  moreover have "memcpy (take 6 mac_dst @ o2 @ be16 ETHERTYPE_IP @ r) (offset_of Ether_shost)
      (if_mac (iface s ! 0)) 0 6 = Some (?eth @ r)" for r
    using set_shost_eq [OF ifs(2) _ m(3), of "take 6 mac_dst"] assms(2) by (simp add: eth_bytes_def)
  moreover have "set_ip_header (iface s) ip_dst (ucast IPPROTO_UDP) n False False (?eth @ h @ r)
      = Some (?eth @ ?ip @ r)" for r
    using set_ip_header_eq [OF len(1) m(5), of "ucast IPPROTO_UDP"] ifs
    by (simp add: ip_source_def ip_length_def ip_packet_def getIp_def)
  moreover have "set_udp_length_dst l 5000 (?eth @ ?ip @ u @ x)
      = Some (?eth @ ?ip @ [u0, u1] @ be16 5000 @ be16 l @ [u6, u7] @ x)" for l
    using set_udp_length_dst_eq [OF len(2) u] by simp
  moreover have "set_udp_src_sum 5000 (?eth @ ?ip @ [u0, u1] @ be16 5000 @ be16 l @ [u6, u7] @ x)
      = Some (?eth @ ?ip @ udp_bytes 5000 5000 l @ x)" for l
    using set_udp_src_sum_eq [OF len(2)] by simp
  moreover have "memcpy (?eth @ ?ip @ udp_bytes 5000 5000 l @ x) UDP_SIZE adv 0 (unat n)
      = Some (?eth @ ?ip @ udp_bytes 5000 5000 l @ take (unat n) adv)" for l
    using len m assms by (simp add: memcpy_def load_bytes_def store_bytes_back store_bytes_def sizes)
  moreover have "length (take (unat n) adv) = unat n" using assms by simp
  ultimately show ?thesis
    by (simp add: advertise_frame_def m(1) ifs announcement_bytes_def sizeof_udp_def)
qed

section \<open>Sending a probe\<close>

text \<open>The link and the peer of a next hop: the gateway lies behind interface 1, the peers behind 0.\<close>

definition hop_iface :: "sm \<Rightarrow> u32 \<Rightarrow> nat" where
  "hop_iface s next_hop = (if next_hop = ii_uint (ip_gateway s) then 1 else 0)"

definition hop_mac :: "sm \<Rightarrow> u32 \<Rightarrow> u8 list option" where
  "hop_mac s next_hop =
     (if next_hop = ii_uint (ip_gateway s) then Some (gateway_mac s) else ip_to_mac s next_hop)"

definition probe_port :: "bool \<Rightarrow> u16" where
  "probe_port is_dsa = (if is_dsa then 1000 else 2000)"

definition probe_payload :: "u8 list" where
  "probe_payload = [0x12, 0x34, 0x56, 0x78]"

definition probe_bytes :: "sm \<Rightarrow> u32 \<Rightarrow> u32 \<Rightarrow> u8 list \<Rightarrow> u16 \<Rightarrow> bool \<Rightarrow> u8 list" where
  "probe_bytes s ip_dst next_hop peer sport is_dsa =
     (let own = iface s ! hop_iface s next_hop in
      eth_bytes peer (if_mac own) @ ip_packet 32 IPPROTO_UDP (if_ip own) ip_dst
        @ udp_bytes sport (probe_port is_dsa) 12 @ probe_payload)"

text \<open>The state after the frame has left: the port is taken and the time noted under it.\<close>

definition probe_sent :: "sm \<Rightarrow> u32 \<Rightarrow> u32 \<Rightarrow> u8 list \<Rightarrow> bool \<Rightarrow> sm" where
  "probe_sent s ip_dst next_hop peer is_dsa = tick (s\<lparr>src_port := src_port s + 1,
     sent_frames := sent_frames s @
       [(probe_bytes s ip_dst next_hop peer (word_of_int (src_port s)) is_dsa, int (hop_iface s next_hop))],
     sent_times := (sent_times s)(word_of_int (src_port s) \<mapsto> now s)\<rparr>)"

lemma probe_headers_eq:
  assumes "wf_node s"
  shows "\<exists>e u0 u1 u6 u7 x. length e = 12 \<and> length x = 4 \<and>
    probe_headers ip_dst next_hop is_dsa s = Some (e @ be16 ETHERTYPE_IP
      @ ip_packet 32 IPPROTO_UDP (if_ip (iface s ! hop_iface s next_hop)) ip_dst
      @ [u0, u1] @ be16 (probe_port is_dsa) @ be16 12 @ [u6, u7] @ x)"
proof -
  obtain d o2 t h u x where m: "fresh (heap s) (UDP_SIZE + 4) = d @ o2 @ t @ h @ u @ x"
    "length d = 6" "length o2 = 6" "length t = 2" "length h = 20" "length u = 8" "length x = 4"
    by (rule split_udp_frame [of "fresh (heap s) (UDP_SIZE + 4)"]) simp
  obtain u0 u1 u2 u3 u4 u5 u6 u7 where u: "u = [u0, u1, u2, u3, u4, u5, u6, u7]"
    by (rule list_of_length_8 [OF m(6)])
  let ?e = "(d @ o2) @ be16 ETHERTYPE_IP"
  let ?ip = "ip_packet 32 IPPROTO_UDP (if_ip (iface s ! hop_iface s next_hop)) ip_dst"
  have len: "length ?e = 14" "length (?e @ ?ip) = 34" using m by simp_all
  have "set_eth_type (d @ o2 @ t @ h @ u @ x) = Some (?e @ h @ u @ x)"
    using set_eth_type_eq [of "d @ o2" t] m by simp
  moreover have "set_ip_header (iface s) ip_dst (ucast IPPROTO_UDP) 4 True
      (next_hop = ii_uint (ip_gateway s)) (?e @ h @ u @ x) = Some (?e @ ?ip @ u @ x)"
    using set_ip_header_eq [OF len(1) m(5), of "ucast IPPROTO_UDP"] wf_node_iface [OF assms]
    by (simp add: ip_source_def ip_length_def ip_packet_def getIp_def hop_iface_def)
  moreover have "set_udp_length_dst 12 (probe_port is_dsa) (?e @ ?ip @ u @ x)
      = Some (?e @ ?ip @ [u0, u1] @ be16 (probe_port is_dsa) @ be16 12 @ [u6, u7] @ x)"
    using set_udp_length_dst_eq [OF len(2) u] by simp
  ultimately have "probe_headers ip_dst next_hop is_dsa s
      = Some (?e @ ?ip @ [u0, u1] @ be16 (probe_port is_dsa) @ be16 12 @ [u6, u7] @ x)"
    by (simp add: probe_headers_def m(1) sizeof_udp_def probe_port_def)
  then show ?thesis using m
    by (intro exI [of _ "d @ o2"] exI [of _ u0] exI [of _ u1] exI [of _ u6] exI [of _ u7] exI [of _ x]) simp
qed

lemma take_port_eq:
  assumes "length p = 34" "src_port s < 2147483647"
  shows "take_port (p @ [a0, a1] @ be16 dport @ be16 len @ [a6, a7] @ r) s
     = Some (p @ udp_bytes (word_of_int (src_port s)) dport len @ r, s\<lparr>src_port := src_port s + 1\<rparr>)"
  using assms(2) unfolding take_port_def
  by (simp add: incr_int_def alloc_port_def set_udp_src_sum_eq [OF assms(1), simplified])

lemma payload_eq: "bytes32 (htonl 0x12345678) = probe_payload"
  by code_simp

lemma send_frame_all:
  "length d < 4294967296 \<Longrightarrow> send_frame (Frame_new (of_nat (length d)) d) i s
     = Some (s\<lparr>sent_frames := sent_frames s @ [(d, i)]\<rparr>)"
  by (simp add: send_frame_def Frame_new_def load_bytes_def unat_of_nat_less)

lemma probe_finish_eq:
  assumes "wf_node s" "hop_mac s next_hop = Some peer" "length e = 12" "length x = 4"
    and "length m = 30"
  shows "probe_finish next_hop (e @ m @ x) s = Some (tick (s\<lparr>
     sent_frames := sent_frames s @ [(peer @ if_mac (iface s ! hop_iface s next_hop) @ m @ probe_payload,
       int (hop_iface s next_hop))],
     sent_times := (sent_times s)(word_of_int (src_port s - 1) \<mapsto> now s)\<rparr>))"
proof -
  have "memcpy (e @ m @ x) UDP_SIZE (bytes32 (htonl 0x12345678)) 0 4 = Some (e @ m @ probe_payload)"
    using assms by (simp add: payload_eq memcpy_def load_bytes_def store_bytes_back store_bytes_def
        sizes probe_payload_def)
  moreover have "6 \<le> length (mac_gateway s)" using assms by (simp add: wf_node_def)
  moreover have peer: "length peer = 6"
    using assms wf_node_peer length_gateway_mac by (fastforce simp: hop_mac_def split: if_splits)
  moreover have "send_frame (Frame_new 46 (peer @ if_mac (iface s ! k) @ m @ probe_payload)) i s
      = Some (s\<lparr>sent_frames := sent_frames s @ [(peer @ if_mac (iface s ! k) @ m @ probe_payload, i)]\<rparr>)"
    if "k < 2" for k i
    using send_frame_all [of "peer @ if_mac (iface s ! k) @ m @ probe_payload"] assms(5) peer
      wf_node_iface [OF assms(1) that] by (simp add: probe_payload_def)
  ultimately show ?thesis
    using assms(2) wf_node_iface [OF assms(1), of 0] wf_node_iface [OF assms(1), of 1] assms(3)
    by (auto simp: probe_finish_def hop_mac_def hop_iface_def set_eth_addresses_take sizes
        gateway_mac_def now_def simp del: append_assoc)
qed

lemma wf_node_src_port [simp]: "wf_node (s\<lparr>src_port := p\<rparr>) = wf_node s"
  by (simp add: wf_node_def wf_servers_def)

lemma hop_src_port [simp]:
  "hop_mac (s\<lparr>src_port := p\<rparr>) h = hop_mac s h" "hop_iface (s\<lparr>src_port := p\<rparr>) h = hop_iface s h"
  by (simp_all add: hop_mac_def hop_iface_def gateway_mac_def)

lemma send_udp_packet_eq:
  assumes "wf_node s" "hop_mac s next_hop = Some peer" "src_port s < 2147483647"
  shows "send_udp_packet ip_dst next_hop is_dsa s = Some (probe_sent s ip_dst next_hop peer is_dsa)"
proof -
  let ?own = "iface s ! hop_iface s next_hop"
  obtain e u0 u1 u6 u7 x where h: "length e = 12" "length x = 4"
    "probe_headers ip_dst next_hop is_dsa s = Some (e @ be16 ETHERTYPE_IP
      @ ip_packet 32 IPPROTO_UDP (if_ip ?own) ip_dst
      @ [u0, u1] @ be16 (probe_port is_dsa) @ be16 12 @ [u6, u7] @ x)"
    using probe_headers_eq [OF assms(1), of ip_dst next_hop is_dsa] by blast
  let ?p = "e @ be16 ETHERTYPE_IP @ ip_packet 32 IPPROTO_UDP (if_ip ?own) ip_dst"
  have "take_port (?p @ [u0, u1] @ be16 (probe_port is_dsa) @ be16 12 @ [u6, u7] @ x) s
      = Some (?p @ udp_bytes (word_of_int (src_port s)) (probe_port is_dsa) 12 @ x,
          s\<lparr>src_port := src_port s + 1\<rparr>)"
    by (rule take_port_eq) (use h assms(3) in simp_all)
  then show ?thesis
    using probe_finish_eq [of "s\<lparr>src_port := src_port s + 1\<rparr>" next_hop peer e x
        "be16 ETHERTYPE_IP @ ip_packet 32 IPPROTO_UDP (if_ip ?own) ip_dst
          @ udp_bytes (word_of_int (src_port s)) (probe_port is_dsa) 12"] h assms
    by (simp add: send_udp_packet_def probe_sent_def probe_bytes_def Let_def eth_bytes_def now_def tick_def)
qed

section \<open>A sample node\<close>

text \<open>
  Two interfaces, a gateway, one server, which answered three of four pings, and one known peer; used
  to instantiate the properties.
\<close>

definition sample_ifaces :: "interface list" where
  "sample_ifaces = [\<lparr>if_mac = [2, 0, 0, 0, 0, 1], if_index = 0, if_ip = 0x0A000001, if_mask = 0xFFFFFF00\<rparr>,
     \<lparr>if_mac = [2, 0, 0, 0, 0, 2], if_index = 1, if_ip = 0xC0A80102, if_mask = 0xFFFFFF00\<rparr>]"

definition sample_server :: server_information where
  "sample_server = server_zero\<lparr>si_ip := \<lparr>ii_uint = 0x08080404, ii_str = ''8.8.4.4''\<rparr>,
     ping_sent := 4, ping_received := 3, si_rtt_time := 20, sequence_id := 4,
     forwarding_table := \<lparr>ip_next_hop_rtt = \<lparr>ii_uint = 0xC0A80101, ii_str = ''192.168.1.1''\<rparr>,
       ip_next_hop_lost = \<lparr>ii_uint = 0x0A000002, ii_str = ''10.0.0.2''\<rparr>,
       ri_rtt_time = 20, ri_lost_rate = DFin 0, is_active = False\<rparr>\<rparr>"

definition sample_node :: sm where
  "sample_node = (sm_start 3 sample_ifaces (\<lambda>_. 0xAA) (\<lambda>n. 1000000 * int n))
     \<lparr>number_of_servers := 1, number_of_all_servers := 1, server_infoes := (\<lambda>_. sample_server),
      ip_gateway := \<lparr>ii_uint = 0xC0A80101, ii_str = ''192.168.1.1''\<rparr>,
      mac_gateway := [2, 0, 0, 0, 0, 9, 0, 0, 0], ip_to_id := [0x08080404 \<mapsto> 0],
      ip_to_mac := [0x0A000002 \<mapsto> [2, 0, 0, 0, 0, 3]]\<rparr>"

lemma wf_sample_node: "wf_node sample_node"
  by (simp add: wf_node_def wf_servers_def sample_node_def sm_start_def sample_ifaces_def wf_interface_def)

lemma sample_node_fields [simp]:
  "pad sample_node = 3" "number_of_servers sample_node = 1" "server_infoes sample_node i = sample_server"
  "src_port sample_node = 8000" "sent_frames sample_node = []" "number_of_all_servers sample_node = 1"
  by (simp_all add: sample_node_def sm_start_def)

section \<open>Properties\<close>

lemma map_option_sent_line:
  "map_option sent_frames (m \<bind> (\<lambda>s. Some (sent_line kind dst hop s))) = map_option sent_frames m"
  by (cases m) (simp_all add: sent_line_def put_line_def)

lemma send_icmp_packet_eq:
  assumes "wf_node s"
  shows "send_icmp_packet i s = Some ((update_server_information i s)
    \<lparr>sent_frames := sent_frames s @ [(ping_bytes s (server_infoes s i), 1)]\<rparr>)"
proof -
  have "length (ping_bytes s (server_infoes s i)) = 46"
    using wf_node_iface [OF assms, of 1] length_gateway_mac [OF assms] by (simp add: ping_bytes_def)
  then show ?thesis
    using send_frame_all [of "ping_bytes s (server_infoes s i)" 1 "update_server_information i s"]
      icmp_frame_eq [OF assms]
    by (simp add: send_icmp_packet_def sizes update_server_information_def tick_def upd_server_def)
qed

text \<open>
  Echo requests. On a well-formed node \<open>send_icmp_packet\<close> returns and sends, through the public
  interface, exactly the serialised echo request to the server, from the node's public address, with
  the sequence number the entry had before the call and the payload 0x12345678, whatever the
  uninitialised buffer held.
\<close>

theorem send_icmp_packet_frame:
  assumes "wf_node s"
  shows "\<exists>s'. send_icmp_packet i s = Some s' \<and>
    server_infoes s' i = ping_counted (now s) (ip_gateway s) (server_infoes s i) \<and>
    sent_frames s' = sent_frames s @ [(eth_bytes (take 6 (mac_gateway s)) (if_mac (iface s ! 1))
      @ ip_packet 32 1 (if_ip (iface s ! 1)) (ii_uint (si_ip (server_infoes s i)))
      @ icmp_bytes 8 (sequence_id (server_infoes s i)) (icmp_csum 8 (sequence_id (server_infoes s i))), 1)]"
  using send_icmp_packet_eq [OF assms, of i]
  by (simp add: ping_bytes_def gateway_mac_def update_server_information_def tick_def upd_server_def)

theorem send_icmp_packet_frame_witness:
  "\<exists>s'. send_icmp_packet 0 sample_node = Some s' \<and> sequence_id (server_infoes s' 0) = 5
    \<and> map snd (sent_frames s') = [1]"
proof -
  have "sequence_id (ping_counted (now sample_node) (ip_gateway sample_node) sample_server) = 5"
    by (simp add: ping_counted_def Let_def sample_server_def)
  moreover obtain s' d where "send_icmp_packet 0 sample_node = Some s'"
    "server_infoes s' 0 = ping_counted (now sample_node) (ip_gateway sample_node) (server_infoes sample_node 0)"
    "sent_frames s' = sent_frames sample_node @ [(d, 1)]"
    using send_icmp_packet_frame [OF wf_sample_node, of 0] by metis
  ultimately show ?thesis by (intro exI [of _ s']) simp
qed

text \<open>
  C32: Probes. \<open>send_udp_packet\<close> to a next hop whose MAC address is known returns and sends exactly
  the serialised probe: through the public interface and with the public source address if the next
  hop is the gateway, else to the peer through the overlay interface; from the local port
  \<open>src_port\<close>, which it takes, and under which it notes the time.
\<close>

theorem send_udp_packet_frame:
  assumes "wf_node s" "src_port s < 2147483647"
    and "peer = (if next_hop = ii_uint (ip_gateway s) then Some (take 6 (mac_gateway s)) else ip_to_mac s next_hop)"
    and "peer \<noteq> None" "k = (if next_hop = ii_uint (ip_gateway s) then 1 else 0)"
  shows "\<exists>s'. send_udp_packet ip_dst next_hop is_dsa s = Some s' \<and> src_port s' = src_port s + 1 \<and>
    sent_times s' (word_of_int (src_port s)) = Some (now s) \<and>
    sent_frames s' = sent_frames s @ [(eth_bytes (the peer) (if_mac (iface s ! k))
      @ ip_packet 32 17 (if_ip (iface s ! k)) ip_dst
      @ udp_bytes (word_of_int (src_port s)) (if is_dsa then 1000 else 2000) 12
      @ [0x12, 0x34, 0x56, 0x78], int k)]"
proof -
  have "hop_mac s next_hop = Some (the peer)" "k = hop_iface s next_hop"
    using assms(3,4,5) by (auto simp: hop_mac_def hop_iface_def gateway_mac_def)
  then show ?thesis
    using send_udp_packet_eq [OF assms(1) _ assms(2)]
    by (simp add: probe_sent_def probe_bytes_def probe_port_def probe_payload_def tick_def Let_def)
qed

theorem send_udp_packet_frame_witness:
  "\<exists>s'. send_udp_packet 0x08080404 0x0A000002 True sample_node = Some s' \<and> src_port s' = 8001
    \<and> map snd (sent_frames s') = [0]"
  using send_udp_packet_frame [OF wf_sample_node, of _ "0x0A000002" 0 "0x08080404" True]
  by (force simp: sample_node_def sm_start_def)

text \<open>
  \<open>ip_to_id\<close> holds only the servers of the configuration, but \<open>dsa\<close> and \<open>lsa\<close> accept every server
  of the table. For any other address the look-up inserts 0, and the probe takes the route of the
  first server of the table.
\<close>

theorem probe_unknown_id_uses_first_entry:
  assumes "ip_to_id s (ip_into_uint ip_dst) = None" "s0 = s\<lparr>ip_to_id := (ip_to_id s)(ip_into_uint ip_dst \<mapsto> 0)\<rparr>"
  shows "map_option sent_frames (send_dsa_packet ip_dst s) = map_option sent_frames
      (send_udp_packet (ip_into_uint ip_dst) (ii_uint (ip_next_hop_rtt (forwarding_table (server_infoes s 0)))) True s0)
    \<and> map_option sent_frames (send_lsa_packet ip_dst s) = map_option sent_frames
      (send_udp_packet (ip_into_uint ip_dst) (ii_uint (ip_next_hop_lost (forwarding_table (server_infoes s 0)))) False s0)"
  using assms by (simp add: send_dsa_packet_def send_lsa_packet_def id_of_def Let_def map_option_sent_line)

theorem probe_unknown_id_uses_first_entry_witness:
  "map_option sent_frames (send_lsa_packet ''8.8.8.8'' sample_node) = map_option sent_frames
    (send_udp_packet 0x08080808 0x0A000002 False (sample_node\<lparr>ip_to_id := [0x08080404 \<mapsto> 0, 0x08080808 \<mapsto> 0]\<rparr>))"
proof -
  have "ip_into_uint ''8.8.8.8'' = 0x08080808" by code_simp
  moreover have "ip_to_id sample_node = [0x08080404 \<mapsto> 0]"
    "ii_uint (ip_next_hop_lost (forwarding_table sample_server)) = 0x0A000002"
    by (simp_all add: sample_node_def sample_server_def)
  ultimately show ?thesis
    using probe_unknown_id_uses_first_entry [of sample_node "''8.8.8.8''"] by simp
qed

text \<open>
  A race. Between the critical section of \<open>send_udp_packet\<close>, which takes the port, and its last
  statement, which reads \<open>src_port\<close> again, another thread may take ports. Then the time of this probe
  is noted under the wrong port, and none for its own.
\<close>

theorem probe_time_race:
  assumes "take_port d s = Some (d', s1)" "wf_node s2" "hop_mac s2 next_hop = Some peer"
    and "length d' = 46" "src_port s2 = src_port s1 + k" "0 < k" "k < 65536"
  shows "\<exists>s3. probe_finish next_hop d' s2 = Some s3
    \<and> sent_times s3 (word_of_int (src_port s)) = sent_times s2 (word_of_int (src_port s))
    \<and> sent_times s3 (word_of_int (src_port s + k)) = Some (now s2)"
proof -
  obtain e y where 1: "d' = e @ y" "length e = 12" "length y = 34"
    by (rule split_buffer [of d' 12 34]) (simp add: assms)
  obtain m x where 2: "y = m @ x" "length m = 30" "length x = 4"
    by (rule split_buffer [of y 30 4]) (simp add: 1)
  have s1: "src_port s1 = src_port s + 1"
    using assms(1) by (auto simp: take_port_def alloc_port_def incr_int_def Option.bind_eq_Some_conv split: if_splits)
  have "(word_of_int (src_port s + k) :: u16) \<noteq> word_of_int (src_port s)"
  proof -
    have "uint (word_of_int k :: u16) = k" using assms(6,7) by (simp add: uint_word_of_int)
    then have "(word_of_int k :: u16) \<noteq> 0" using assms(6) by auto
    then show ?thesis by simp
  qed
  then show ?thesis
    using probe_finish_eq [OF assms(2,3) 1(2) 2(3,2)] 1(1) 2(1) s1 assms(5)
    by (simp add: tick_def)
qed

text \<open>The lock is taken for port 8000; meanwhile a forwarded packet takes 8001.\<close>

theorem probe_time_race_witness:
  "\<exists>d s1 s3. take_port (replicate 46 0) sample_node = Some (d, s1)
    \<and> probe_finish 0xC0A80101 d (s1\<lparr>src_port := 8002\<rparr>) = Some s3
    \<and> sent_times s3 8000 = None \<and> sent_times s3 8001 \<noteq> None"
proof -
  obtain d s1 where t: "take_port (replicate 46 0) sample_node = Some (d, s1)"
    by (cases "take_port (replicate 46 0) sample_node")
      (auto simp: take_port_def alloc_port_def set_udp_src_sum_def struct_ops store_bytes_def incr_int_def)
  have s1: "s1 = sample_node\<lparr>src_port := 8001\<rparr>" and d: "length d = 46"
    using t by (auto simp: take_port_def alloc_port_def set_udp_src_sum_def struct_ops store_bytes_def incr_int_def)
  have "hop_mac (s1\<lparr>src_port := 8002\<rparr>) 0xC0A80101 = Some [2, 0, 0, 0, 0, 9]"
    by (simp add: s1 hop_mac_def gateway_mac_def sample_node_def sm_start_def)
  moreover have "wf_node (s1\<lparr>src_port := 8002\<rparr>)" using wf_sample_node by (simp add: s1)
  moreover have "sent_times (s1\<lparr>src_port := 8002\<rparr>) = Map.empty"
    by (simp add: s1 sample_node_def sm_start_def)
  ultimately show ?thesis
    using probe_time_race [OF t, of "s1\<lparr>src_port := 8002\<rparr>" "0xC0A80101" _ 1] t d by (auto simp: s1)
qed

end
