(* ===== verification/Advert.thy ===== *)
theory Advert
  imports Sending Routes
begin

text \<open>
  Announcements (sm.cpp): \<open>advertise_data\<close> serialises the reachable servers of the node, 12 bytes
  each, \<open>receive_advertise_data\<close> reads such a message and offers its routes to
  \<open>update_learning_table\<close>. The lemmas relate the two: what a receiver makes of a sender's message,
  and on which messages the receiver leaves the buffer.
\<close>

section \<open>Writing\<close>

text \<open>One round of the loop: the buffer and the offset.\<close>

definition put_entry :: "server_information \<Rightarrow> u8 list \<times> nat \<Rightarrow> (u8 list \<times> nat) option" where
  "put_entry si st =
     (let (buf, offset) = st in
      if si_rtt_time si = u16_max then Some (buf, offset)
      else do {
        buf \<leftarrow> memcpy buf offset (bytes32 (htonl (ii_uint (si_ip si)))) 0 4;
        buf \<leftarrow> memcpy buf (offset + 4) (bytes32 (htonl (ucast (si_rtt_time si)))) 0 4;
        buf \<leftarrow> memcpy buf (offset + 8) (bytes16 (htons (ping_sent si))) 0 2;
        buf \<leftarrow> memcpy buf (offset + 10) (bytes16 (htons (ping_received si))) 0 2;
        Some (buf, offset + 12) })"

definition advertise_buffer :: "sm \<Rightarrow> (u8 list \<times> nat) option" where
  "advertise_buffer s = do {
     (buf, offset) \<leftarrow> foldM (\<lambda>i. put_entry (server_infoes s i)) [0..number_of_servers s - 1]
       (fresh (heap s) (nat (12 * number_of_servers s + 4)), 0);
     buf \<leftarrow> memcpy buf offset (bytes32 0) 0 4;
     Some (buf, offset + 4) }"

definition advertise_data :: "sm \<Rightarrow> sm option" where
  "advertise_data s = do {
     (buf, offset) \<leftarrow> advertise_buffer s;
     mac_broadcast \<leftarrow> mac_into_byte ''FF:FF:FF:FF:FF:FF'' (fresh (heap s) (6 + pad s));
     send_advertise_packet (ip_into_uint ''255.255.255.255'') mac_broadcast buf (of_nat offset) s }"

section \<open>Reading\<close>

text \<open>
  One entry of a message: the server it describes and the peer that sent it, as
  \<open>update_learning_table\<close> gets them. The loss rate is computed from the counters as they stand in
  the message, before \<open>ntohs\<close>. Of the members the code leaves uninitialised only the mutex is used
  later, by \<open>update_learning_table\<close> on its copy; see there.
\<close>

definition read_offer :: "u8 list \<Rightarrow> nat \<Rightarrow> u32 \<Rightarrow> (server_information \<times> ip_info) option" where
  "read_offer m i ip_src = do {
     ip_server \<leftarrow> load32 m i;
     rtt_to_server \<leftarrow> load32 m (i + 4);
     sent_to_server \<leftarrow> load16 m (i + 8);
     received_to_server \<leftarrow> load16 m (i + 10);
     server_str \<leftarrow> ipUint_into_str (ntohl ip_server);
     host_str \<leftarrow> ipUint_into_str ip_src;
     Some (server_zero\<lparr>si_rtt_time := ucast (ntohl rtt_to_server),
             ping_lost_rate := loss_rate received_to_server sent_to_server,
             ping_sent := ntohs sent_to_server, ping_received := ntohs received_to_server,
             si_ip := \<lparr>ii_uint = ntohl ip_server, ii_str = server_str\<rparr>\<rparr>,
           \<lparr>ii_uint = ip_src, ii_str = host_str\<rparr>) }"

definition take_offer :: "u8 list \<Rightarrow> u32 \<Rightarrow> nat \<Rightarrow> sm \<Rightarrow> sm option" where
  "take_offer m ip_src i s = do {
     r \<leftarrow> read_offer m i ip_src;
     update_learning_table (fst r) (snd r) s }"

text \<open>\<open>for (int i = 0; i < advertise_size - 4; i += 12)\<close>.\<close>

function receive_loop :: "u8 list \<Rightarrow> int \<Rightarrow> u32 \<Rightarrow> nat \<Rightarrow> sm \<Rightarrow> sm option" where
  "receive_loop m n ip_src i s =
     (if int i < n - 4
      then do { s' \<leftarrow> take_offer m ip_src i s; receive_loop m n ip_src (i + 12) s' }
      else Some s)"
  by pat_completeness auto
termination by (relation "measure (\<lambda>(m, n, a, i, s). nat (n - int i))") auto

declare receive_loop.simps [simp del]

definition receive_advertise_data :: "u8 list \<Rightarrow> int \<Rightarrow> u32 \<Rightarrow> u8 list \<Rightarrow> sm \<Rightarrow> sm option" where
  "receive_advertise_data m n ip_src mac_shost s = do {
     s \<leftarrow> receive_loop m n ip_src 0 s;
     store_mac_addr_to_map ip_src mac_shost s }"

section \<open>The message\<close>

text \<open>The reference serialisation of an entry and of a message.\<close>

definition entry_bytes :: "server_information \<Rightarrow> u8 list" where
  "entry_bytes si = be32 (ii_uint (si_ip si)) @ be32 (ucast (si_rtt_time si))
     @ be16 (ping_sent si) @ be16 (ping_received si)"

definition up_servers :: "sm \<Rightarrow> server_information list" where
  "up_servers s = filter (\<lambda>si. si_rtt_time si \<noteq> u16_max)
     (map (server_infoes s) [0..number_of_servers s - 1])"

definition message_bytes :: "server_information list \<Rightarrow> u8 list" where
  "message_bytes sis = concat (map entry_bytes sis) @ [0, 0, 0, 0]"

lemma length_entry_bytes [simp]: "length (entry_bytes si) = 12"
  by (simp add: entry_bytes_def)

lemma length_entries [simp]: "length (concat (map entry_bytes sis)) = 12 * length sis"
  by (induction sis) simp_all

lemma length_message [simp]: "length (message_bytes sis) = 12 * length sis + 4"
  by (simp add: message_bytes_def)

lemma memcpy_at:
  "length p = k \<Longrightarrow> length old = n \<Longrightarrow> length bs = n \<Longrightarrow> memcpy (p @ old @ r) k bs 0 n = Some (p @ bs @ r)"
  by (simp add: memcpy_def load_bytes_def store_bytes_def)

lemma memcpy_be:
  "length p = k \<Longrightarrow> length old = 4 \<Longrightarrow> memcpy (p @ old @ r) k (bytes32 (htonl w)) 0 4 = Some (p @ be32 w @ r)"
  "length p = k \<Longrightarrow> length old2 = 2 \<Longrightarrow> memcpy (p @ old2 @ r) k (bytes16 (htons v)) 0 2 = Some (p @ be16 v @ r)"
  using memcpy_at [of p k old 4 "bytes32 (htonl w)" r] memcpy_at [of p k old2 2 "bytes16 (htons v)" r]
  by (simp_all add: be32_def be16_def wire_simps)

lemma put_entry_up:
  assumes "si_rtt_time si \<noteq> u16_max" "length p = k" "length old = 12"
  shows "put_entry si (p @ old @ r, k) = Some (p @ entry_bytes si @ r, k + 12)"
proof -
  obtain a old1 where 1: "old = a @ old1" "length a = 4" "length old1 = 8"
    by (rule split_buffer [of old 4 8]) (simp add: assms)
  obtain b old2 where 2: "old1 = b @ old2" "length b = 4" "length old2 = 4"
    by (rule split_buffer [of old1 4 4]) (simp add: 1)
  obtain c d where 3: "old2 = c @ d" "length c = 2" "length d = 2"
    by (rule split_buffer [of old2 2 2]) (simp add: 2)
  let ?ip = "be32 (ii_uint (si_ip si))" and ?rtt = "be32 (ucast (si_rtt_time si))"
  have "memcpy (p @ old @ r) k (bytes32 (htonl (ii_uint (si_ip si)))) 0 4 = Some (p @ ?ip @ b @ c @ d @ r)"
    using memcpy_be(1) [OF assms(2) 1(2)] 1 2 3 by simp
  moreover have "memcpy (p @ ?ip @ b @ c @ d @ r) (k + 4) (bytes32 (htonl (ucast (si_rtt_time si)))) 0 4
      = Some (p @ ?ip @ ?rtt @ c @ d @ r)"
    using memcpy_be(1) [of "p @ ?ip" "k + 4" b] assms(2) 2 by simp
  moreover have "memcpy (p @ ?ip @ ?rtt @ c @ d @ r) (k + 8) (bytes16 (htons (ping_sent si))) 0 2
      = Some (p @ ?ip @ ?rtt @ be16 (ping_sent si) @ d @ r)"
    using memcpy_be(2) [of "p @ ?ip @ ?rtt" "k + 8" c] assms(2) 3 by simp
  moreover have "memcpy (p @ ?ip @ ?rtt @ be16 (ping_sent si) @ d @ r) (k + 10)
      (bytes16 (htons (ping_received si))) 0 2
      = Some (p @ ?ip @ ?rtt @ be16 (ping_sent si) @ be16 (ping_received si) @ r)"
    using memcpy_be(2) [of "p @ ?ip @ ?rtt @ be16 (ping_sent si)" "k + 10" d] assms(2) 3 by simp
  ultimately show ?thesis using assms(1) by (simp add: put_entry_def entry_bytes_def)
qed

lemma put_entries:
  assumes "length p = k" "12 * length is \<le> length old"
  shows "\<exists>old'. foldM (\<lambda>i. put_entry (f i)) is (p @ old, k)
     = Some (p @ concat (map entry_bytes (filter (\<lambda>si. si_rtt_time si \<noteq> u16_max) (map f is))) @ old',
             k + 12 * length (filter (\<lambda>si. si_rtt_time si \<noteq> u16_max) (map f is)))
    \<and> length old' + 12 * length (filter (\<lambda>si. si_rtt_time si \<noteq> u16_max) (map f is)) = length old"
  using assms
proof (induction "is" arbitrary: p k old)
  case Nil
  then show ?case by simp
next
  case (Cons i "is")
  show ?case
  proof (cases "si_rtt_time (f i) = u16_max")
    case True
    then have "put_entry (f i) (p @ old, k) = Some (p @ old, k)" by (simp add: put_entry_def)
    then show ?thesis using Cons True by simp
  next
    case False
    obtain old1 r where old: "old = old1 @ r" "length old1 = 12" "length r = length old - 12"
      by (rule split_buffer [of old 12 "length old - 12"]) (use Cons.prems in simp)
    have step: "put_entry (f i) (p @ old, k) = Some ((p @ entry_bytes (f i)) @ r, k + 12)"
      using put_entry_up [OF False Cons.prems(1) old(2)] old by simp
    let ?ups = "filter (\<lambda>si. si_rtt_time si \<noteq> u16_max) (map f is)"
    have "12 * length is \<le> length r" using Cons.prems old(3) by simp
    then obtain old' where h: "foldM (\<lambda>i. put_entry (f i)) is ((p @ entry_bytes (f i)) @ r, k + 12)
        = Some ((p @ entry_bytes (f i)) @ concat (map entry_bytes ?ups) @ old', k + 12 + 12 * length ?ups)"
      "length old' + 12 * length ?ups = length r"
      using Cons.IH [of "p @ entry_bytes (f i)" "k + 12" r] Cons.prems(1) by auto
    have "length old = 12 + length r" by (simp add: old(1,2))
    then show ?thesis
      by (intro exI [of _ old']) (simp add: step h(1) [simplified] False h(2) [symmetric])
  qed
qed

lemma advertise_buffer_eq:
  assumes "0 \<le> number_of_servers s"
  shows "\<exists>r. advertise_buffer s
    = Some (message_bytes (up_servers s) @ r, 12 * length (up_servers s) + 4)"
proof -
  let ?n = "nat (12 * number_of_servers s + 4)"
  have "12 * length [0..number_of_servers s - 1] \<le> length (fresh (heap s) ?n)"
    using assms by simp
  from put_entries [of "[]" 0, OF _ this, of "server_infoes s"]
  obtain old where f: "foldM (\<lambda>i. put_entry (server_infoes s i)) [0..number_of_servers s - 1] (fresh (heap s) ?n, 0)
      = Some (concat (map entry_bytes (up_servers s)) @ old, 12 * length (up_servers s))"
    "length old + 12 * length (up_servers s) = ?n"
    by (auto simp: up_servers_def)
  have "length (up_servers s) \<le> length [0..number_of_servers s - 1]"
    unfolding up_servers_def by (metis length_filter_le length_map)
  then have "4 \<le> length old" using f(2) assms by simp
  then obtain o4 r where old: "old = o4 @ r" "length o4 = 4"
    by (metis split_buffer le_add_diff_inverse)
  have "bytes32 0 = [0, 0, 0, 0 :: u8]" by (simp add: bytes32_def wire_simps)
  then have "memcpy (concat (map entry_bytes (up_servers s)) @ old) (12 * length (up_servers s)) (bytes32 0) 0 4
      = Some (concat (map entry_bytes (up_servers s)) @ [0, 0, 0, 0] @ r)"
    using memcpy_at [OF length_entries, of o4 4 "bytes32 0" "up_servers s" r] old by simp
  then show ?thesis by (simp add: advertise_buffer_def f message_bytes_def)
qed

section \<open>The frame of an announcement\<close>

lemma up_servers_bound:
  assumes "wf_servers s"
  shows "length (up_servers s) \<le> 1000"
proof -
  have "length (up_servers s) \<le> length [0..number_of_servers s - 1]"
    unfolding up_servers_def by (metis length_filter_le length_map)
  moreover have "nat (number_of_servers s) \<le> 1000" using assms by (auto simp: wf_servers_def nat_le_iff)
  ultimately show ?thesis by simp
qed

lemma broadcast_mac:
  assumes "9 \<le> length mem"
  shows "\<exists>r. mac_into_byte ''FF:FF:FF:FF:FF:FF'' mem = Some (replicate 6 255 @ r)"
proof -
  have "mac_str (replicate 6 255) = ''FF:FF:FF:FF:FF:FF''" by code_simp
  then show ?thesis
    using scan_mac_text [of "replicate 6 255" 0 mem] assms by (simp add: mac_into_byte_def)
qed

lemma broadcast_ip: "ip_into_uint ''255.255.255.255'' = 0xFFFFFFFF"
  by code_simp

lemma advertise_data_eq:
  assumes "wf_node s" "3 \<le> pad s"
  shows "advertise_data s = Some (s\<lparr>sent_frames := sent_frames s @
    [(announcement_bytes s 0xFFFFFFFF (replicate 6 255) (message_bytes (up_servers s)), 0)]\<rparr>)"
proof -
  let ?n = "12 * length (up_servers s) + 4"
  obtain r where buf: "advertise_buffer s = Some (message_bytes (up_servers s) @ r, ?n)"
    using advertise_buffer_eq [of s] assms by (auto simp: wf_node_def wf_servers_def)
  obtain m where mac: "mac_into_byte ''FF:FF:FF:FF:FF:FF'' (fresh (heap s) (6 + pad s)) = Some (replicate 6 255 @ m)"
    using broadcast_mac [of "fresh (heap s) (6 + pad s)"] assms by auto
  have n: "?n \<le> 12004" using up_servers_bound [of s] assms by (simp add: wf_node_def)
  then have un: "unat (of_nat ?n :: u32) = ?n" by (intro unat_of_nat_less) simp
  let ?a = "announcement_bytes s 0xFFFFFFFF (replicate 6 255) (message_bytes (up_servers s))"
  have "advertise_frame s 0xFFFFFFFF (replicate 6 255 @ m) (message_bytes (up_servers s) @ r) (of_nat ?n)
      = Some ?a"
    using advertise_frame_eq [OF assms(1), of "replicate 6 255 @ m" "of_nat ?n"
        "message_bytes (up_servers s) @ r" "0xFFFFFFFF"] unfolding un by simp
  moreover have la: "length ?a = 42 + ?n"
    using wf_node_iface [OF assms(1), of 0] by (simp add: announcement_bytes_def)
  moreover have "send_frame (Frame_new (of_nat ?n + of_nat UDP_SIZE) ?a) 0 s
      = Some (s\<lparr>sent_frames := sent_frames s @ [(?a, 0)]\<rparr>)"
    using send_frame_all [of ?a 0 s] n unfolding la by (simp add: sizes add.commute)
  ultimately show ?thesis
    by (simp add: advertise_data_def buf mac broadcast_ip send_advertise_packet_def)
qed

section \<open>What a receiver makes of a message\<close>

definition ip_text :: "u32 \<Rightarrow> string" where
  "ip_text a = the (ipUint_into_str a)"

lemma ipUint_into_str_text: "ipUint_into_str a = Some (ip_text a)"
  by (simp add: ip_text_def ipUint_into_str_eq)

text \<open>The offer that a receiver reads from the entry of a server; note the swapped counters.\<close>

definition received_offer :: "u32 \<Rightarrow> server_information \<Rightarrow> server_information \<times> ip_info" where
  "received_offer ip_src si =
     (server_zero\<lparr>si_rtt_time := si_rtt_time si,
        ping_lost_rate := loss_rate (htons (ping_received si)) (htons (ping_sent si)),
        ping_sent := ping_sent si, ping_received := ping_received si,
        si_ip := \<lparr>ii_uint = ii_uint (si_ip si), ii_str = ip_text (ii_uint (si_ip si))\<rparr>\<rparr>,
      \<lparr>ii_uint = ip_src, ii_str = ip_text ip_src\<rparr>)"

lemma load_at:
  "length p = k \<Longrightarrow> load32 (p @ be32 w @ r) k = Some (htonl w)"
  "length p = k \<Longrightarrow> load16 (p @ be16 v @ r) k = Some (htons v)"
  by (simp_all add: struct_ops load_bytes_def be32_def be16_def dec32_def dec16_def htonl_def htons_def)

lemma read_offer_entry:
  assumes "length p = k"
  shows "read_offer (p @ entry_bytes si @ r) k ip_src = Some (received_offer ip_src si)"
proof -
  let ?a = "be32 (ii_uint (si_ip si))" and ?t = "be32 (ucast (si_rtt_time si))" and ?s = "be16 (ping_sent si)"
  let ?m = "p @ entry_bytes si @ r"
  have "load32 ?m k = Some (htonl (ii_uint (si_ip si)))"
    using load_at(1) [OF assms, of "ii_uint (si_ip si)"] by (simp add: entry_bytes_def)
  moreover have "load32 ?m (k + 4) = Some (htonl (ucast (si_rtt_time si)))"
    using load_at(1) [of "p @ ?a" "k + 4"] assms by (simp add: entry_bytes_def)
  moreover have "load16 ?m (k + 8) = Some (htons (ping_sent si))"
    using load_at(2) [of "p @ ?a @ ?t" "k + 8"] assms by (simp add: entry_bytes_def)
  moreover have "load16 ?m (k + 10) = Some (htons (ping_received si))"
    using load_at(2) [of "p @ ?a @ ?t @ ?s" "k + 10"] assms by (simp add: entry_bytes_def)
  moreover have "(ucast (ucast (si_rtt_time si) :: u32) :: u16) = si_rtt_time si"
    by (simp add: word_unat_eq_iff unat_ucast_u16 unat_ucast_u32 unat_u16_less)
  ultimately show ?thesis
    by (simp add: read_offer_def received_offer_def ipUint_into_str_text)
qed

text \<open>The \<open>k\<close>th entry of an announcement stands at \<open>12 * k\<close>.\<close>

lemma read_offer_announced:
  assumes "advertise_buffer a = Some (buf, n)" "0 \<le> number_of_servers a" "k < length (up_servers a)" "si = up_servers a ! k"
  shows "read_offer (take n buf) (12 * k) ip_src = Some (received_offer ip_src si)"
proof -
  let ?sis = "up_servers a"
  obtain r where "buf = message_bytes ?sis @ r" "n = 12 * length ?sis + 4"
    using advertise_buffer_eq [OF assms(2)] assms(1) by auto
  then have m: "take n buf = message_bytes ?sis" by simp
  have "message_bytes (xs @ si # ys) = concat (map entry_bytes xs) @ entry_bytes si @ message_bytes ys" for xs ys
    by (simp add: message_bytes_def)
  then have "message_bytes ?sis
      = concat (map entry_bytes (take k ?sis)) @ entry_bytes si @ message_bytes (drop (Suc k) ?sis)"
    using arg_cong [OF id_take_nth_drop [OF assms(3)], of message_bytes] assms(4) by metis
  moreover have "length (concat (map entry_bytes (take k ?sis))) = 12 * k" using assms(3) by simp
  ultimately show ?thesis unfolding m using read_offer_entry by metis
qed

lemma receive_loop_message:
  assumes "length p = k" "n = int (k + 12 * length sis + 4)"
  shows "receive_loop (p @ message_bytes sis) n ip_src k s = update_all (map (received_offer ip_src) sis) s"
  using assms
proof (induction sis arbitrary: p k s)
  case Nil
  then show ?case by (simp add: receive_loop.simps update_all_def)
next
  case (Cons si sis)
  have "take_offer (p @ message_bytes (si # sis)) ip_src k s
      = update_learning_table (fst (received_offer ip_src si)) (snd (received_offer ip_src si)) s"
    using read_offer_entry [OF Cons.prems(1), of si "message_bytes sis" ip_src]
    by (simp add: take_offer_def message_bytes_def)
  moreover have "receive_loop (p @ message_bytes (si # sis)) n ip_src (k + 12) t
      = update_all (map (received_offer ip_src) sis) t" for t
    using Cons.IH [of "p @ entry_bytes si" "k + 12" t] Cons.prems by (simp add: message_bytes_def)
  ultimately show ?case
    using Cons.prems by (subst receive_loop.simps) (simp add: update_all_def fun_eq_iff cong: Option.bind_cong)
qed

lemma store_mac_eq:
  assumes "6 \<le> length mac"
  shows "store_mac_addr_to_map ip mac s = Some (s\<lparr>ip_to_mac := (ip_to_mac s)(ip \<mapsto> take 6 mac)\<rparr>)"
proof -
  obtain a b c d e f r where mac: "mac = a # b # c # d # e # f # r"
    using assms by (auto simp: numeral_eq_Suc Suc_le_length_iff)
  have "foldM (\<lambda>i m. memcpy m i mac i 1) [0..<6] (fresh j 6) = Some [a, b, c, d, e, f]" for j
    by (simp add: mac fresh_def upt_rec memcpy_def load_bytes_def store_bytes_def)
  then show ?thesis by (simp add: store_mac_addr_to_map_def mac)
qed

section \<open>Properties\<close>

text \<open>
  C33: Announcing. On a well-formed node \<open>advertise_data\<close> returns and sends one frame, on the
  overlay link: the broadcast of the list of the servers it can reach. The only condition beyond
  well-formedness is that three bytes behind the local array \<open>mac_broadcast\<close> may be overwritten.
\<close>

theorem advertise_data_sends:
  assumes "wf_node s" "3 \<le> pad s"
  shows "\<exists>d. advertise_data s = Some (s\<lparr>sent_frames := sent_frames s @ [(d, 0)]\<rparr>) \<and>
    d = eth_bytes (replicate 6 255) (if_mac (iface s ! 0))
      @ ip_packet (of_nat (32 + 12 * length (up_servers s))) 17 (if_ip (iface s ! 0)) 0xFFFFFFFF
      @ udp_bytes 5000 5000 (of_nat (12 + 12 * length (up_servers s)))
      @ concat (map entry_bytes (up_servers s)) @ [0, 0, 0, 0]"
  using advertise_data_eq [OF assms]
  by (simp add: announcement_bytes_def message_bytes_def algebra_simps)

theorem advertise_data_sends_witness:
  "\<exists>d. advertise_data sample_node = Some (sample_node\<lparr>sent_frames := [(d, 0)]\<rparr>)
    \<and> drop 42 d = [8, 8, 4, 4, 0, 0, 0, 20, 0, 4, 0, 3, 0, 0, 0, 0]"
proof -
  have "concat (map entry_bytes (up_servers sample_node)) = [8, 8, 4, 4, 0, 0, 0, 20, 0, 4, 0, 3]"
    by code_simp
  moreover have "length (if_mac (iface sample_node ! 0)) = 6" by code_simp
  ultimately show ?thesis
    using advertise_data_sends [OF wf_sample_node] by (auto simp: eth_bytes_def)
qed

text \<open>
  C20: Announcement round trip. A receiver that processes the message written by \<open>advertise_data\<close>
  updates its learning table with one offer per reachable server of the sender, in order, each with
  the sender as next hop, the server's address and round-trip time unchanged, and the loss rate of
  the byte-swapped counters; then it stores the sender's MAC address.
\<close>

theorem advertise_receive_roundtrip:
  assumes "advertise_buffer a = Some (buf, n)" "0 \<le> number_of_servers a" "6 \<le> length mac"
  shows "receive_advertise_data (take n buf) (int n) ip_src mac s = do {
    s' \<leftarrow> update_all (map (received_offer ip_src) (up_servers a)) s;
    Some (s'\<lparr>ip_to_mac := (ip_to_mac s')(ip_src \<mapsto> take 6 mac)\<rparr>) }"
proof -
  obtain r where "buf = message_bytes (up_servers a) @ r" "n = 12 * length (up_servers a) + 4"
    using advertise_buffer_eq [OF assms(2)] assms(1) by auto
  then show ?thesis
    using receive_loop_message [of "[]" 0 "int n" "up_servers a" ip_src s] store_mac_eq [OF assms(3)]
    by (simp add: receive_advertise_data_def)
qed

theorem advertise_receive_roundtrip_witness:
  "\<exists>buf. advertise_buffer sample_node = Some (buf, 16) \<and>
    receive_advertise_data (take 16 buf) 16 7 [1, 2, 3, 4, 5, 6] demo_node = do {
      s' \<leftarrow> update_all [received_offer 7 sample_server] demo_node;
      Some (s'\<lparr>ip_to_mac := (ip_to_mac s')(7 \<mapsto> [1, 2, 3, 4, 5, 6])\<rparr>) }"
proof -
  have "map_option snd (advertise_buffer sample_node) = Some 16" by code_simp
  then obtain buf where buf: "advertise_buffer sample_node = Some (buf, 16)" by auto
  have "up_servers sample_node = [sample_server]"
    by (simp add: up_servers_def) (simp add: sample_server_def)
  then show ?thesis
    using advertise_receive_roundtrip [OF buf, of "[1, 2, 3, 4, 5, 6]" 7 demo_node] buf by simp
qed

lemma received_rate_compare:
  assumes "s \<noteq> 0" "r \<le> s"
  shows "dlt (loss_rate (htons r) (htons s)) (loss_rate r s)
      \<longleftrightarrow> (unat r div 256) * (unat s mod 256) < (unat r mod 256) * (unat s div 256)"
    "dlt (loss_rate r s) (loss_rate (htons r) (htons s))
      \<longleftrightarrow> (unat r mod 256) * (unat s div 256) < (unat r div 256) * (unat s mod 256)"
    "loss_rate (htons r) (htons s) = loss_rate r s
      \<longleftrightarrow> (unat r div 256) * (unat s mod 256) = (unat r mod 256) * (unat s div 256)"
proof -
  let ?a = "unat r div 256" and ?b = "unat r mod 256" and ?c = "unat s div 256" and ?d = "unat s mod 256"
  have "htons 0 = 0" by code_simp
  then have s': "htons s \<noteq> 0" using assms(1) htons_inj [of s 0] by metis
  have swap: "(a + 256 * b) * (256 * c + d) + 65535 * (a * d) = (256 * a + b) * (c + 256 * d) + 65535 * (b * c)"
    for a b c d :: nat by (simp add: algebra_simps)
  have e: "unat (htons r) * unat s + 65535 * (?a * ?d) = unat r * unat (htons s) + 65535 * (?b * ?c)"
    using swap [of ?a ?b ?c ?d] by (simp add: unat_htons)
  note o = loss_rate_order [OF s' assms, of "htons r"]
  show lt: "dlt (loss_rate (htons r) (htons s)) (loss_rate r s) \<longleftrightarrow> ?a * ?d < ?b * ?c"
    "dlt (loss_rate r s) (loss_rate (htons r) (htons s)) \<longleftrightarrow> ?b * ?c < ?a * ?d"
    unfolding o using e by linarith+
  have eq: "loss_rate (htons r) (htons s) = loss_rate r s" if "?a * ?d = ?b * ?c"
  proof -
    have "unat (htons r) * unat s = unat r * unat (htons s)" using e that by simp
    then have "(of_nat (unat (htons r) * unat s) :: rat) = of_nat (unat r * unat (htons s))" by (rule arg_cong)
    then have "frac16 (htons r) (htons s) = frac16 r s"
      using s' assms(1) by (simp add: frac_eq_eq unat_eq_0 del: htons_inj)
    then show ?thesis by (simp only: loss_rate_eq [OF s'] loss_rate_eq [OF assms(1)])
  qed
  obtain x where "loss_rate r s = DFin x" by (rule loss_rate_unit [OF assms])
  then have "?a * ?d = ?b * ?c" if "loss_rate (htons r) (htons s) = loss_rate r s"
    using lt that by (simp add: linorder_neq_iff)
  then show "loss_rate (htons r) (htons s) = loss_rate r s \<longleftrightarrow> ?a * ?d = ?b * ?c" using eq by blast
qed

text \<open>
  C36: The announced loss rates. Of every server in an announcement the receiver reads the counters as
  the sender has them, but the loss rate it computes is that of the counters with their bytes swapped,
  since it divides before \<open>ntohs\<close>. For a server with at least one ping and no more replies than pings that
  rate is too low, too high or right exactly if the product of the high byte of the replies and the
  low byte of the pings is less than, greater than or equal to that of the low byte of the replies and the
  high byte of the pings. It is right as long as neither counter has passed 255.
\<close>

theorem received_loss_rate_swapped:
  assumes "advertise_buffer a = Some (buf, n)" "0 \<le> number_of_servers a"
    and "k < length (up_servers a)" "si = up_servers a ! k" "ping_sent si \<noteq> 0" "ping_received si \<le> ping_sent si"
  shows "\<exists>e hop. read_offer (take n buf) (12 * k) ip_src = Some (e, hop)
    \<and> ping_sent e = ping_sent si \<and> ping_received e = ping_received si
    \<and> (let r = unat (ping_received e); s = unat (ping_sent e); rate = loss_rate (ping_received e) (ping_sent e);
           p = (r div 256) * (s mod 256); q = (r mod 256) * (s div 256) in
         (dlt (ping_lost_rate e) rate \<longleftrightarrow> p < q) \<and> (dlt rate (ping_lost_rate e) \<longleftrightarrow> q < p)
         \<and> (ping_lost_rate e = rate \<longleftrightarrow> p = q))"
proof -
  have "read_offer (take n buf) (12 * k) ip_src = Some (received_offer ip_src si)"
    by (rule read_offer_announced [OF assms(1-4)])
  then show ?thesis
    using received_rate_compare [OF assms(5,6)] by (auto simp: received_offer_def Let_def)
qed

text \<open>A server that answered 255 of 256 pings: its swapped counters are 65280 and 1.\<close>

definition pinged_often :: sm where
  "pinged_often = upd_server 0 (\<lambda>si. si\<lparr>ping_sent := 256, ping_received := 255\<rparr>) sample_node"

theorem received_loss_rate_swapped_witness:
  "\<exists>buf n e hop. advertise_buffer pinged_often = Some (buf, n) \<and> read_offer (take n buf) 0 7 = Some (e, hop)
    \<and> dlt (ping_lost_rate e) (loss_rate 255 256) \<and> ping_lost_rate e \<noteq> loss_rate 255 256"
proof -
  let ?si = "sample_server\<lparr>ping_sent := 256, ping_received := 255\<rparr>"
  have n: "number_of_servers pinged_often = 1" "server_infoes pinged_often 0 = ?si"
    by (simp_all add: pinged_often_def)
  then have up: "up_servers pinged_often = [?si]" by (simp add: up_servers_def) (simp add: sample_server_def)
  obtain buf m where buf: "advertise_buffer pinged_often = Some (buf, m)"
    using advertise_buffer_eq [of pinged_often] n(1) by auto
  have m: "unat (256 :: u16) = 256" "unat (255 :: u16) = 255" by simp_all
  obtain e hop where "read_offer (take m buf) (12 * 0) 7 = Some (e, hop)" "ping_sent e = 256" "ping_received e = 255"
    "dlt (ping_lost_rate e) (loss_rate 255 256)" "ping_lost_rate e \<noteq> loss_rate 255 256"
    using received_loss_rate_swapped [OF buf, of 0 ?si 7] unfolding up Let_def by (auto simp: n(1) m)
  then show ?thesis using buf by (intro exI [of _ buf] exI [of _ m] exI [of _ e] exI [of _ hop]) simp
qed

lemma take_offer_total:
  assumes "wf_servers s" "i + 12 \<le> length m" "number_of_all_servers s < 1000"
  shows "\<exists>s'. take_offer m ip_src i s = Some s' \<and> wf_servers s'
    \<and> number_of_all_servers s' \<le> number_of_all_servers s + 1"
proof -
  obtain r where r: "read_offer m i ip_src = Some r"
    using assms(2) by (simp add: read_offer_def struct_ops load_bytes_def ipUint_into_str_text)
  obtain s' where s': "update_learning_table (fst r) (snd r) s = Some s'"
    using update_learning_table_defined [OF assms(1), of "fst r" "snd r"] assms(3) by auto
  moreover have "number_of_all_servers s' \<le> number_of_all_servers s + 1"
    using s' by (auto simp: update_learning_table_def Let_def insert_into_server_infoes_def
        Option.bind_eq_Some_conv split: if_splits)
  ultimately show ?thesis
    using wf_update_learning_table [OF s' assms(1)] r by (simp add: take_offer_def)
qed

lemma receive_loop_total:
  assumes "wf_servers s" "n = int (length m)" "length m = i + 12 * k + 4"
    and "number_of_all_servers s + int k \<le> 1000"
  shows "\<exists>s'. receive_loop m n ip_src i s = Some s'"
  using assms
proof (induction k arbitrary: i s)
  case (Suc k)
  obtain t where t: "take_offer m ip_src i s = Some t" "wf_servers t"
    "number_of_all_servers t \<le> number_of_all_servers s + 1"
    using take_offer_total [of s i m ip_src] Suc.prems by auto
  then show ?case using Suc.IH [of t "i + 12"] Suc.prems
    by (subst receive_loop.simps) simp
qed (simp add: receive_loop.simps)

lemma receive_loop_overrun:
  assumes "length m = k + 12 * q + r" "n = int (k + 12 * q + r)" "5 \<le> r" "r < 12"
  shows "receive_loop m n ip_src k s = None"
  using assms
proof (induction q arbitrary: k s)
  case 0
  have "load16 m (k + 10) = None" using 0 by (simp add: load16_def load_bytes_def)
  then have "take_offer m ip_src k s = None" by (simp add: take_offer_def read_offer_def)
  then show ?case using 0 by (simp add: receive_loop.simps)
next
  case (Suc q)
  have "receive_loop m n ip_src (k + 12) t = None" for t
    using Suc.IH [of "k + 12" t] Suc.prems by simp
  then show ?case using Suc.prems by (subst receive_loop.simps) (simp cong: Option.bind_cong)
qed

text \<open>
  C35: Malformed announcements. If the length of a message leaves a remainder of 5 to 11 bytes when
  divided by 12, reading it runs past its end: the loop tests that more than four bytes are left and
  then reads twelve.
\<close>

theorem receive_advertise_overrun:
  assumes "length m = n" "5 \<le> n mod 12"
  shows "receive_advertise_data m (int n) ip_src mac s = None"
proof -
  have "n = 12 * (n div 12) + n mod 12" by simp
  then have "receive_loop m (int n) ip_src 0 s = None"
    using receive_loop_overrun [of m 0 "n div 12" "n mod 12" "int n"] assms by simp
  then show ?thesis by (simp add: receive_advertise_data_def)
qed

theorem receive_advertise_overrun_witness:
  "receive_advertise_data [1, 2, 3, 4, 5] 5 7 [1, 2, 3, 4, 5, 6] demo_node = None"
  using receive_advertise_overrun [of "[1, 2, 3, 4, 5]" 5 7 "[1, 2, 3, 4, 5, 6]" demo_node] by simp

text \<open>
  Well-formed announcements are read inside the message: with twelve bytes per entry and the four
  of the trailer, the call is defined as long as the server table has room for every entry.
\<close>

theorem receive_advertise_total:
  assumes "wf_servers s" "length m = 12 * k + 4" "number_of_all_servers s + int k \<le> 1000" "6 \<le> length mac"
  shows "receive_advertise_data m (int (length m)) ip_src mac s \<noteq> None"
  using receive_loop_total [OF assms(1) refl, of m 0 k ip_src] store_mac_eq [OF assms(4)] assms(2,3)
  by (auto simp: receive_advertise_data_def)

theorem receive_advertise_total_witness:
  "receive_advertise_data (replicate 16 1) 16 7 [1, 2, 3, 4, 5, 6] demo_node \<noteq> None"
proof -
  have "wf_servers demo_node" by code_simp
  moreover have "number_of_all_servers demo_node + int 1 \<le> 1000" by code_simp
  ultimately show ?thesis
    using receive_advertise_total [of demo_node "replicate 16 1" 1 "[1, 2, 3, 4, 5, 6]" 7] by simp
qed

end
