(* ===== verification/Validation.thy ===== *)
theory Validation
  imports Packet
begin

text \<open>
  The test of a received frame (sm.cpp: \<open>is_valid_packet\<close>) against a declarative description of the
  frames the node is meant to process.
\<close>

section \<open>Fields of a frame\<close>

text \<open>A 16-bit field in network order.\<close>

definition be_at :: "u8 list \<Rightarrow> nat \<Rightarrow> nat" where
  "be_at m i = 256 * unat (m ! i) + unat (m ! (i + 1))"

lemma load8_nth: "i < length m \<Longrightarrow> load8 m i = Some (m ! i)"
  by (simp add: load8_def load_bytes_def dec8_def)

lemma load16_nth: "i + 2 \<le> length m \<Longrightarrow> load16 m i = Some (le16 (m ! i) (m ! (i + 1)))"
  by (simp add: load16_def load_bytes_def dec16_def add.commute)

lemma load32_nth:
  "i + 4 \<le> length m \<Longrightarrow> load32 m i = Some (le32 (m ! i) (m ! (i + 1)) (m ! (i + 2)) (m ! (i + 3)))"
  by (simp add: load32_def load_bytes_def dec32_def add.commute)

lemma unat_ntohs_at: "unat (ntohs (le16 (m ! i) (m ! (i + 1)))) = be_at m i"
  by (simp add: htons_def wire_simps unat_le16 be_at_def)

lemma uint_ntohs_at: "uint (ntohs (le16 (m ! i) (m ! (i + 1)))) = int (be_at m i)"
  by (simp add: unat_ntohs_at [symmetric] of_nat_unat)

lemma ntohs_at_eq: "ntohs (le16 (m ! i) (m ! (i + 1))) = w \<longleftrightarrow> be_at m i = unat w"
  unfolding word_unat_eq_iff unat_ntohs_at ..

lemma ntohl_at_eq:
  "ntohl (le32 a b c d) = 0x12345678 \<longleftrightarrow> [a, b, c, d] = [0x12, 0x34, 0x56, 0x78]"
proof -
  have "le32 d c b a = 0x12345678 \<longleftrightarrow> [a, b, c, d] = [0x12, 0x34, 0x56, 0x78]"
  proof
    assume "le32 d c b a = 0x12345678"
    then have "byte_of k (le32 d c b a) = byte_of k (0x12345678 :: u32)" for k by simp
    from this [of 0] this [of "Suc 0"] this [of 2] this [of 3]
    have "d = byte_of 0 (0x12345678 :: u32)" "c = byte_of (Suc 0) (0x12345678 :: u32)"
      "b = byte_of 2 (0x12345678 :: u32)" "a = byte_of 3 (0x12345678 :: u32)"
      by (simp_all only: byte_of_le32)
    moreover have "byte_of 3 (0x12345678 :: u32) = 0x12" "byte_of 2 (0x12345678 :: u32) = 0x34"
      "byte_of (Suc 0) (0x12345678 :: u32) = 0x56" "byte_of 0 (0x12345678 :: u32) = 0x78"
      by code_simp+
    ultimately show "[a, b, c, d] = [0x12, 0x34, 0x56, 0x78]" by simp
  next
    assume "[a, b, c, d] = [0x12, 0x34, 0x56, 0x78]"
    then show "le32 d c b a = 0x12345678" by (simp add: le32_def)
  qed
  then show ?thesis by (simp add: htonl_def wire_simps)
qed

section \<open>The frames to accept\<close>

definition framed_ipv4 :: "u8 list \<Rightarrow> bool" where
  "framed_ipv4 m \<longleftrightarrow> 28 \<le> length m \<and> be_at m 12 = 0x0800 \<and> length m = be_at m 16 + 14 \<and> ip_v (m ! 14) = 4"

definition valid_udp :: "u8 list \<Rightarrow> bool" where
  "valid_udp m \<longleftrightarrow> m ! 23 = 17 \<and> 42 \<le> length m \<and> be_at m 38 + 4 * ip_hl (m ! 14) = be_at m 16"

definition valid_echo_reply :: "u8 list \<Rightarrow> bool" where
  "valid_echo_reply m \<longleftrightarrow> m ! 23 = 1 \<and> 46 \<le> length m \<and> m ! 34 = 0 \<and> m ! 35 = 0
     \<and> [m ! 42, m ! 43, m ! 44, m ! 45] = [0x12, 0x34, 0x56, 0x78]"

definition valid_frame :: "u8 list \<Rightarrow> bool" where
  "valid_frame m \<longleftrightarrow> framed_ipv4 m \<and> rfc1071_valid (header_words m 14 (4 * ip_hl (m ! 14)))
     \<and> (valid_udp m \<or> valid_echo_reply m)"

lemma udp_ok_eq:
  assumes "28 \<le> length m" "length m < 2147483648"
  shows "udp_ok m (int (length m)) (le16 (m ! 16) (m ! 17)) (m ! 14)
    = Some (42 \<le> length m \<and> be_at m 38 + 4 * ip_hl (m ! 14) = be_at m 16)"
proof (cases "42 \<le> length m")
  case True
  have "load16 m 38 = Some (le16 (m ! 38) (m ! 39))" using load16_nth [of 38 m] True by simp
  moreover have "uint (ntohs (le16 (m ! 38) (m ! 39))) = int (be_at m 38)"
    "uint (ntohs (le16 (m ! 16) (m ! 17))) = int (be_at m 16)"
    using uint_ntohs_at [of m 38] uint_ntohs_at [of m 16] by simp_all
  ultimately show ?thesis using True assms by (simp add: udp_ok_def sizes) linarith
next
  case False
  then show ?thesis using assms by (simp add: udp_ok_def sizes)
qed

lemma icmp_ok_eq:
  assumes "28 \<le> length m" "length m < 2147483648"
  shows "icmp_ok m (int (length m)) = Some (46 \<le> length m \<and> m ! 34 = 0 \<and> m ! 35 = 0
     \<and> [m ! 42, m ! 43, m ! 44, m ! 45] = [0x12, 0x34, 0x56, 0x78])"
proof (cases "46 \<le> length m")
  case True
  have "load32 m 42 = Some (le32 (m ! 42) (m ! 43) (m ! 44) (m ! 45))" "load8 m 34 = Some (m ! 34)"
    "load8 m 35 = Some (m ! 35)"
    using load32_nth [of 42 m] load8_nth [of 34 m] load8_nth [of 35 m] True by simp_all
  then show ?thesis using True assms ntohl_at_eq by (simp add: icmp_ok_def sizes)
next
  case False
  then show ?thesis using assms by (simp add: icmp_ok_def sizes)
qed

lemma sint_length:
  assumes "length m = unat (n :: u32)" "length m < 2147483648"
  shows "sint n = int (length m)"
proof -
  have "uint n = int (length m)" unfolding assms(1) by (simp only: of_nat_unat)
  then show ?thesis
    using assms(2) unfolding sint_uint by (simp add: signed_take_bit_int_eq_self)
qed

text \<open>The test on a frame that is all of its buffer, in closed form.\<close>

lemma is_valid_packet_eq:
  assumes "length (fdata fr) = unat (flength fr)" "length (fdata fr) < 2147483648"
  shows "is_valid_packet fr = (let m = fdata fr; hl = ip_hl (m ! 14) in
    if \<not> framed_ipv4 m then Some False
    else if length m < 14 + 4 * hl then None
    else Some (rfc1071_valid (header_words m 14 (4 * hl)) \<and> (valid_udp m \<or> valid_echo_reply m)))"
proof -
  let ?m = "fdata fr"
  note len = sint_length [OF assms]
  show ?thesis
  proof (cases "28 \<le> length ?m")
    case False
    then have "14 \<le> length ?m \<Longrightarrow> load16 ?m 12 = Some (le16 (?m ! 12) (?m ! 13))"
      using load16_nth [of 12 ?m] by simp
    then show ?thesis
      using False assms(2) by (auto simp: is_valid_packet_def Let_def len sizes framed_ipv4_def)
  next
    case True
    have l: "load16 ?m 12 = Some (le16 (?m ! 12) (?m ! 13))" "load16 ?m 16 = Some (le16 (?m ! 16) (?m ! 17))"
      "load8 ?m 14 = Some (?m ! 14)" "load8 ?m 23 = Some (?m ! 23)"
      using load16_nth [of 12 ?m] load16_nth [of 16 ?m] load8_nth [of 14 ?m] load8_nth [of 23 ?m] True by simp_all
    have f: "ntohs (le16 (?m ! 12) (?m ! 13)) = 0x0800 \<longleftrightarrow> be_at ?m 12 = 0x0800"
      "uint (ntohs (le16 (?m ! 16) (?m ! 17))) = int (be_at ?m 16)"
      using ntohs_at_eq [of ?m 12 "0x0800"] uint_ntohs_at [of ?m 16] by simp_all
    show ?thesis
    proof (cases "framed_ipv4 ?m")
      case False
      then show ?thesis
        using True assms(2) by (auto simp: is_valid_packet_def Let_def len sizes l f framed_ipv4_def)
    next
      case fr: True
      have "is_valid_packet fr = do {
          c \<leftarrow> check_sum_ip ?m 14 (ip_hl (?m ! 14));
          (if c \<noteq> 0 then Some False
           else if ?m ! 23 \<noteq> 17 \<and> ?m ! 23 \<noteq> 1 then Some False
           else if ?m ! 23 = 17 then udp_ok ?m (int (length ?m)) (le16 (?m ! 16) (?m ! 17)) (?m ! 14)
           else icmp_ok ?m (int (length ?m))) }"
      proof -
        have "be_at ?m 12 = 0x0800" "be_at ?m 16 = length ?m - 14" "ip_v (?m ! 14) = 4"
          using fr by (simp_all add: framed_ipv4_def)
        then show ?thesis
          using True assms(2)
          by (cases "check_sum_ip ?m 14 (ip_hl (?m ! 14))")
            (simp_all add: is_valid_packet_def Let_def len sizes l f of_nat_diff)
      qed
      moreover have "check_sum_ip ?m 14 (ip_hl (?m ! 14)) = None" if "length ?m < 14 + 4 * ip_hl (?m ! 14)"
      proof -
        have "sum_words ?m 14 (ip_hl (?m ! 14) * 2) 0 = None"
          using that True sum_words_defined [of ?m 14 "ip_hl (?m ! 14) * 2" 0] by fastforce
        then show ?thesis by (simp add: check_sum_ip_def)
      qed
      moreover have "(\<exists>c. check_sum_ip ?m 14 (ip_hl (?m ! 14)) = Some c)
          \<and> (check_sum_ip ?m 14 (ip_hl (?m ! 14)) = Some 0
              \<longleftrightarrow> rfc1071_valid (header_words ?m 14 (4 * ip_hl (?m ! 14))))"
        if "\<not> length ?m < 14 + 4 * ip_hl (?m ! 14)"
        using check_sum_ip_zero_iff [of 14 "ip_hl (?m ! 14)" ?m] ip_hl_le that by auto
      ultimately show ?thesis
        using fr udp_ok_eq [OF True assms(2)] icmp_ok_eq [OF True assms(2)]
        by (auto simp: Let_def valid_udp_def valid_echo_reply_def)
    qed
  qed
qed

section \<open>Properties\<close>

text \<open>
  C15: On a frame that fills its buffer, \<open>is_valid_packet\<close> accepts exactly the frames to accept, and it
  is undefined, reading past the frame, exactly on IPv4 frames whose header length exceeds the frame.
\<close>

theorem is_valid_packet_exact:
  assumes "length (fdata fr) = unat (flength fr)" "length (fdata fr) < 2147483648"
  shows "(is_valid_packet fr = Some True \<longleftrightarrow>
      valid_frame (fdata fr) \<and> 14 + 4 * ip_hl (fdata fr ! 14) \<le> length (fdata fr))
    \<and> (is_valid_packet fr = None \<longleftrightarrow>
      framed_ipv4 (fdata fr) \<and> length (fdata fr) < 14 + 4 * ip_hl (fdata fr ! 14))"
  using is_valid_packet_eq [OF assms] by (auto simp: Let_def valid_frame_def)

definition sample_reply :: "u8 list" where
  "sample_reply = eth_bytes [2, 0, 0, 0, 0, 2] [2, 0, 0, 0, 0, 9]
     @ ip_packet 32 1 0x08080404 0xC0A80102 @ icmp_bytes 0 4 (icmp_csum 0 4)"

lemma sample_reply_bytes: "sample_reply = [2, 0, 0, 0, 0, 2, 2, 0, 0, 0, 0, 9, 8, 0, 0x45, 0, 0, 32, 0, 0, 0, 0, 64, 1,
  173, 39, 8, 8, 4, 4, 192, 168, 1, 2, 0, 0, 151, 79, 0, 4, 0, 0, 0x12, 0x34, 0x56, 0x78]"
  by code_simp

theorem is_valid_packet_exact_witness:
  "is_valid_packet (Frame_new 46 sample_reply) = Some True \<and> valid_frame sample_reply
    \<and> is_valid_packet (Frame_new 28 ((take 28 sample_reply)[14 := 0x4F, 17 := 14])) = None"
proof -
  let ?a = "Frame_new 46 sample_reply" and ?b = "Frame_new 28 ((take 28 sample_reply)[14 := 0x4F, 17 := 14])"
  have "is_valid_packet ?a = Some True" "length sample_reply = 46" unfolding sample_reply_bytes by code_simp+
  moreover have "framed_ipv4 (fdata ?b)" "length (fdata ?b) = 28" "ip_hl (fdata ?b ! 14) = 15"
    unfolding sample_reply_bytes by code_simp+
  ultimately show ?thesis
    using is_valid_packet_exact [of ?a] is_valid_packet_exact [of ?b] by (simp add: Frame_new_def)
qed

end
