(* ===== verification/Forwarding.thy ===== *)
theory Forwarding
  imports Stats Advert Validation
begin

text \<open>
  Received frames (sm.cpp: \<open>processFrame\<close>): replies to pings, announcements, packets of peers that the
  node forwards to the Internet, and the replies to them. For the last two the node translates
  addresses: it takes a local port for each forwarded packet and remembers whose it is.

  The locale \<open>port_table\<close> is the contract of that translation: every allocated port stands for its
  owner, for ever; it is interpreted on the two maps and the counter of the code.
\<close>

section \<open>Translation\<close>

text \<open>\<open>n\<close> is the length of the frame, \<open>d\<close> the copy of its data.\<close>

definition protocol_name :: "u16 \<Rightarrow> string" where
  "protocol_name port = (if port = 1000 then ''DSA'' else ''LSA'')"

definition forward_out :: "u32 \<Rightarrow> u8 list \<Rightarrow> u16 \<Rightarrow> sm \<Rightarrow> sm option" where
  "forward_out n d port s = do {
     own \<leftarrow> iface_at (iface s) 1;
     m \<leftarrow> set_eth_addresses (if_mac own) (mac_gateway s) d;
     ip_src \<leftarrow> load32 m (offset_of Ip_src);
     port_src \<leftarrow> load16 m (offset_of Udp_src);
     (q, s) \<leftarrow> alloc_port (Some (ip_src, port_src)) s;
     m \<leftarrow> store16 m (offset_of Udp_src) (htons q);
     m \<leftarrow> store32 m (offset_of Ip_src) (htonl (getIp own));
     m \<leftarrow> set_ip_checksum m;
     s \<leftarrow> send_frame (Frame_new n m) 1 s;
     ip_dst \<leftarrow> load32 d (offset_of Ip_dst);
     dst_str \<leftarrow> ipUint_into_str (ntohl ip_dst);
     Some (put_line (Cout (protocol_name port @ '' packet forwarded to '' @ dst_str)) s) }"

text \<open>
  \<open>operator[]\<close> on the maps: \<open>my_port_to_src_port[port]\<close> would insert 0 for an unknown port,
  \<open>ip_to_mac[main_ip]\<close> a null pointer, which the \<open>memcpy\<close> reads.
\<close>

definition forward_back :: "u32 \<Rightarrow> u8 list \<Rightarrow> u16 \<Rightarrow> u32 \<Rightarrow> sm \<Rightarrow> sm option" where
  "forward_back n d port owner_ip s =
     (let owner_port = (case my_port_to_src_port s port of Some p \<Rightarrow> p | None \<Rightarrow> 0);
          s = s\<lparr>my_port_to_src_port := (my_port_to_src_port s)(port \<mapsto> owner_port)\<rparr>;
          main_port = ntohs owner_port; main_ip = ntohl owner_ip
      in do {
        own \<leftarrow> iface_at (iface s) 0;
        peer \<leftarrow> ip_to_mac s main_ip;
        m \<leftarrow> set_eth_addresses (if_mac own) peer d;
        m \<leftarrow> store16 m (offset_of Udp_dst) (htons main_port);
        m \<leftarrow> store32 m (offset_of Ip_dst) (htonl main_ip);
        m \<leftarrow> set_ip_checksum m;
        s \<leftarrow> send_frame (Frame_new n m) 0 s;
        sport \<leftarrow> load16 d (offset_of Udp_src);
        (if ntohs sport = 1000 \<or> ntohs sport = 2000
         then do {
           ip_src \<leftarrow> load32 d (offset_of Ip_src);
           src_str \<leftarrow> ipUint_into_str (ntohl ip_src);
           Some (put_line (Cout (protocol_name (ntohs sport)
             @ '' forwarded packet reply received from '' @ src_str)) s) }
         else Some s) })"

text \<open>
  The reply to a probe of the node itself. \<open>sent_times[port_dst]\<close> inserts the epoch for a port
  without a time.
\<close>

definition probe_answered :: "u8 list \<Rightarrow> u16 \<Rightarrow> sm \<Rightarrow> sm option" where
  "probe_answered d port_dst s =
     (let received_time = now s; s = tick s;
          sent = (case sent_times s port_dst of Some t \<Rightarrow> t | None \<Rightarrow> 0);
          s = s\<lparr>sent_times := (sent_times s)(port_dst \<mapsto> sent)\<rparr>;
          time = millis (received_time - sent)
      in do {
        sport \<leftarrow> load16 d (offset_of Udp_src);
        Some (if ntohs sport = 1000 \<or> ntohs sport = 2000
          then put_line (Cout (protocol_name (ntohs sport) @ '' packet '' @ show_nat (unat port_dst)
            @ '' reply received in '' @ show_nat (unat time) @ ''ms'')) s
          else s) })"

section \<open>Dispatch\<close>

definition process_udp :: "u32 \<Rightarrow> u8 list \<Rightarrow> sm \<Rightarrow> sm option" where
  "process_udp n d s = do {
     dport \<leftarrow> load16 d (offset_of Udp_dst);
     (let port = ntohs dport in
      if port = 5000
      then do {
        ip_src \<leftarrow> load32 d (offset_of Ip_src);
        receive_advertise_data (drop UDP_SIZE d) (sint (n - of_nat UDP_SIZE)) (ntohl ip_src)
          (drop (offset_of Ether_shost) d) s }
      else if port = 1000 \<or> port = 2000 then forward_out n d port s
      else if 8000 \<le> port \<and> uint port < src_port s
      then (case port_to_ip s port of
              Some owner_ip \<Rightarrow> forward_back n d port owner_ip s
            | None \<Rightarrow> probe_answered d port s)
      else Some s) }"

definition frame_logged :: "frame \<Rightarrow> int \<Rightarrow> sm \<Rightarrow> sm" where
  "frame_logged fr ifaceIndex s =
     put_line (Cerr (''Frame received at iface '' @ show_int ifaceIndex @ '' with length ''
       @ show_nat (unat (flength fr)))) (tick s)"

definition processFrame :: "frame \<Rightarrow> int \<Rightarrow> sm \<Rightarrow> sm option" where
  "processFrame fr ifaceIndex s =
     (let ping_received_time = now s; s = frame_logged fr ifaceIndex s
      in do {
        valid \<leftarrow> is_valid_packet fr;
        (if \<not> valid then Some s
         else do {
           d \<leftarrow> load_bytes (fdata fr) 0 (unat (flength fr));
           protocol \<leftarrow> load8 d (offset_of Ip_p);
           (if protocol = IPPROTO_ICMP
            then do {
              ip_src \<leftarrow> load32 d (offset_of Ip_src);
              seq \<leftarrow> load16 d (offset_of Icmp_sequence_id);
              receive_ping_packet (ntohl ip_src) ping_received_time (ntohs seq) s }
            else if protocol = IPPROTO_UDP then process_udp (flength fr) d s
            else Some s) }) })"

section \<open>The port table\<close>

text \<open>
  Each allocation is for an owner; \<open>None\<close> is the node itself. A port resolves to the owner it was
  taken for.
\<close>

locale port_table =
  fixes alloc :: "'e option \<Rightarrow> 's \<Rightarrow> ('p \<times> 's) option"
    and resolve :: "'s \<Rightarrow> 'p \<Rightarrow> 'e option"
    and used :: "'s \<Rightarrow> 'p set"
    and inv :: "'s \<Rightarrow> bool"
  assumes alloc_inv: "inv s \<Longrightarrow> alloc e s = Some (p, s') \<Longrightarrow> inv s'"
    and alloc_fresh: "inv s \<Longrightarrow> alloc e s = Some (p, s') \<Longrightarrow> p \<notin> used s \<and> used s' = insert p (used s)"
    and alloc_new: "inv s \<Longrightarrow> alloc e s = Some (p, s') \<Longrightarrow> resolve s' p = e"
    and alloc_other: "inv s \<Longrightarrow> alloc e s = Some (p, s') \<Longrightarrow> q \<in> used s \<Longrightarrow> resolve s' q = resolve s q"
begin

fun alloc_all :: "'e option list \<Rightarrow> 's \<Rightarrow> ('p list \<times> 's) option" where
  "alloc_all [] s = Some ([], s)"
| "alloc_all (e # es) s = do {
     (p, s1) \<leftarrow> alloc e s;
     (ps, s2) \<leftarrow> alloc_all es s1;
     Some (p # ps, s2) }"

lemma alloc_all_ConsE:
  assumes "alloc_all (e # es) s = Some (ps, s')"
  obtains p s1 qs where "alloc e s = Some (p, s1)" "alloc_all es s1 = Some (qs, s')" "ps = p # qs"
  using assms by (auto simp: Option.bind_eq_Some_conv)

lemma alloc_all_old:
  assumes "inv s" "alloc_all es s = Some (ps, s')"
  shows "inv s' \<and> used s \<subseteq> used s' \<and> set ps \<inter> used s = {} \<and> (\<forall>q\<in>used s. resolve s' q = resolve s q)"
  using assms
proof (induction es arbitrary: s ps)
  case (Cons e es)
  obtain p s1 qs where p: "alloc e s = Some (p, s1)" "alloc_all es s1 = Some (qs, s')" "ps = p # qs"
    by (rule alloc_all_ConsE [OF Cons.prems(2)])
  show ?case
    using Cons.IH [OF alloc_inv [OF Cons.prems(1) p(1)] p(2)] alloc_fresh [OF Cons.prems(1) p(1)]
      alloc_other [OF Cons.prems(1) p(1)] p(3) by auto
qed simp

lemma alloc_all_resolve:
  assumes "inv s" "alloc_all es s = Some (ps, s')"
  shows "distinct ps \<and> map (resolve s') ps = es"
  using assms
proof (induction es arbitrary: s ps)
  case (Cons e es)
  obtain p s1 qs where p: "alloc e s = Some (p, s1)" "alloc_all es s1 = Some (qs, s')" "ps = p # qs"
    by (rule alloc_all_ConsE [OF Cons.prems(2)])
  note i = alloc_inv [OF Cons.prems(1) p(1)]
  have "p \<in> used s1" using alloc_fresh [OF Cons.prems(1) p(1)] by simp
  then show ?case
    using Cons.IH [OF i p(2)] alloc_all_old [OF i p(2)] alloc_new [OF Cons.prems(1) p(1)] p(3) by auto
qed simp

end

text \<open>
  The model's table: ports are taken from 8000 upwards, at most up to 65535 (the \<open>int\<close> counter goes on,
  its conversion to \<open>uint16_t\<close> wraps). A port of a probe is in neither map.
\<close>

definition owner_of :: "sm \<Rightarrow> u16 \<Rightarrow> (u32 \<times> u16) option" where
  "owner_of s q = (case port_to_ip s q of None \<Rightarrow> None
     | Some ip \<Rightarrow> Some (ip, case my_port_to_src_port s q of Some p \<Rightarrow> p | None \<Rightarrow> 0))"

definition used_ports :: "sm \<Rightarrow> u16 set" where
  "used_ports s = {q. 8000 \<le> uint q \<and> uint q < src_port s}"

definition ports_ok :: "sm \<Rightarrow> bool" where
  "ports_ok s \<longleftrightarrow> 8000 \<le> src_port s \<and> src_port s \<le> 65536 \<and> dom (port_to_ip s) \<subseteq> used_ports s"

definition alloc_port_16 :: "(u32 \<times> u16) option \<Rightarrow> sm \<Rightarrow> (u16 \<times> sm) option" where
  "alloc_port_16 e s = (if src_port s \<le> 65535 then alloc_port e s else None)"

lemma uint_port: "0 \<le> p \<Longrightarrow> p \<le> 65535 \<Longrightarrow> uint (word_of_int p :: u16) = p"
  by (simp add: uint_word_of_int)

lemma word_of_uint_port: "(q :: u16) = word_of_int p \<longleftrightarrow> uint q = p" if "0 \<le> p" "p \<le> 65535"
  using uint_port [OF that] by (metis word_of_int_uint)

interpretation nat_table: port_table alloc_port_16 owner_of used_ports ports_ok
proof unfold_locales
  fix s e p s'
  assume s: "ports_ok s" and a: "alloc_port_16 e s = Some (p, s')"
  have r: "0 \<le> src_port s" "src_port s \<le> 65535" using s a
    by (auto simp: ports_ok_def alloc_port_16_def split: if_splits)
  have p: "uint p = src_port s" and s': "src_port s' = src_port s + 1"
    using a r uint_port by (auto simp: alloc_port_16_def alloc_port_def incr_int_def Let_def
        split: if_splits option.splits)
  have maps: "port_to_ip s' q = (if q = p \<and> e \<noteq> None then Some (fst (the e)) else port_to_ip s q)"
    "my_port_to_src_port s' q = (if q = p \<and> e \<noteq> None then Some (snd (the e)) else my_port_to_src_port s q)" for q
    using a by (auto simp: alloc_port_16_def alloc_port_def incr_int_def Let_def
        split: if_splits option.splits prod.splits)
  have used: "used_ports s' = insert p (used_ports s)"
    using r s p s' by (auto simp: used_ports_def ports_ok_def intro: word_uint_eqI)
  have fresh: "p \<notin> used_ports s" using p by (simp add: used_ports_def)
  show "p \<notin> used_ports s \<and> used_ports s' = insert p (used_ports s)" using used fresh by simp
  have "dom (port_to_ip s') \<subseteq> insert p (dom (port_to_ip s))" by (auto simp: maps split: if_splits)
  then show "ports_ok s'" using s s' r used by (auto simp: ports_ok_def)
  have "port_to_ip s p = None" using s fresh by (auto simp: ports_ok_def)
  then show "owner_of s' p = e" by (cases e) (auto simp: owner_of_def maps)
  show "owner_of s' q = owner_of s q" if "q \<in> used_ports s" for q
    using that fresh by (auto simp: owner_of_def maps split: option.splits)
qed

section \<open>What forwarding does\<close>

lemma alloc_port_eq:
  assumes "src_port s < 2147483647"
  shows "\<exists>s'. alloc_port e s = Some (word_of_int (src_port s), s')"
  using assms by (simp add: alloc_port_def incr_int_def Let_def)

lemma alloc_port_owner:
  assumes "alloc_port (Some (ip, p)) s = Some (q, s')"
  shows "q = word_of_int (src_port s)"
    "s' = s\<lparr>port_to_ip := (port_to_ip s)(q \<mapsto> ip), my_port_to_src_port := (my_port_to_src_port s)(q \<mapsto> p),
       src_port := src_port s + 1\<rparr>"
  using assms by (auto simp: alloc_port_def incr_int_def Let_def split: if_splits)

lemma wf_node_eth:
  assumes "wf_node s" "12 \<le> length d"
  shows "\<exists>m. set_eth_addresses (if_mac (iface s ! 1)) (mac_gateway s) d = Some m \<and> same_outside {0..<12} d m
      \<and> load_bytes m 0 12 = Some (gateway_mac s @ if_mac (iface s ! 1))"
    "ip_to_mac s a = Some peer \<Longrightarrow>
     \<exists>m. set_eth_addresses (if_mac (iface s ! 0)) peer d = Some m \<and> same_outside {0..<12} d m
      \<and> load_bytes m 0 12 = Some (peer @ if_mac (iface s ! 0))"
proof -
  have "6 \<le> length (mac_gateway s)" using assms by (simp add: wf_node_def)
  then show "\<exists>m. set_eth_addresses (if_mac (iface s ! 1)) (mac_gateway s) d = Some m \<and> same_outside {0..<12} d m
      \<and> load_bytes m 0 12 = Some (gateway_mac s @ if_mac (iface s ! 1))"
    using set_eth_addresses_same [OF assms(2), of "if_mac (iface s ! 1)" "mac_gateway s"]
      wf_node_iface [OF assms(1), of 1] by (simp add: gateway_mac_def)
  show "\<exists>m. set_eth_addresses (if_mac (iface s ! 0)) peer d = Some m \<and> same_outside {0..<12} d m
      \<and> load_bytes m 0 12 = Some (peer @ if_mac (iface s ! 0))" if "ip_to_mac s a = Some peer"
    using set_eth_addresses_same [OF assms(2), of "if_mac (iface s ! 0)" peer]
      wf_node_iface [OF assms(1), of 0] wf_node_peer [OF assms(1) that] by simp
qed

text \<open>The bytes that translation rewrites: addresses, checksum, one IP address and one port.\<close>

definition nat_bytes :: "nat \<Rightarrow> nat \<Rightarrow> nat set" where
  "nat_bytes ip_off port_off = {0..<12} \<union> {24..<26} \<union> {ip_off..<ip_off + 4} \<union> {port_off..<port_off + 2}"

text \<open>The rewriting of one port and one address, then the checksum.\<close>

lemma rewrite_frame:
  assumes "same_outside {0..<12} d m" "load_bytes m 0 12 = Some eth" "header_inside d" "42 \<le> length d"
    and "(ip_off = 26 \<and> port_off = 34) \<or> (ip_off = 30 \<and> port_off = 36)"
  shows "\<exists>m'. do { m \<leftarrow> store16 m port_off q; m \<leftarrow> store32 m ip_off a; set_ip_checksum m } = Some m'
    \<and> same_outside (nat_bytes ip_off port_off) d m' \<and> load_bytes m' 0 12 = Some eth
    \<and> load16 m' port_off = Some q \<and> load32 m' ip_off = Some a \<and> checksummed m'"
proof -
  have len: "length m = length d" using assms(1) by (rule same_outside_length)
  obtain m1 where m1: "store16 m port_off q = Some m1" "same_outside {port_off..<port_off + 2} m m1"
    "load16 m1 port_off = Some q"
    using same_outside_store16 [of port_off m "{port_off..<port_off + 2}" q] len assms by auto
  obtain m2 where m2: "store32 m1 ip_off a = Some m2" "same_outside {ip_off..<ip_off + 4} m1 m2"
    "load32 m2 ip_off = Some a"
    using same_outside_store32 [of ip_off m1 "{ip_off..<ip_off + 4}" a] same_outside_length [OF m1(2)] len assms
    by auto
  have "header_inside m2"
    using header_inside_same [OF m2(2)] header_inside_same [OF m1(2)] header_inside_same [OF assms(1)] assms(3,5)
    by auto
  then obtain m3 where m3: "set_ip_checksum m2 = Some m3" "same_outside {24..<26} m2 m3" "checksummed m3"
    using set_ip_checksum_same by blast
  have "same_outside (nat_bytes ip_off port_off) d m3"
    by (rule same_outside_trans [OF same_outside_trans [OF same_outside_trans]];
        rule same_outside_mono, fact+, simp add: nat_bytes_def sup.coboundedI1 sup.coboundedI2)
  moreover have "load_bytes m3 0 12 = Some eth"
    using same_outside_load [OF m3(2), of 0 12] same_outside_load [OF m2(2), of 0 12]
      same_outside_load [OF m1(2), of 0 12] assms(2,5) by auto
  moreover have "load16 m3 port_off = Some q"
    using same_outside_load [OF m3(2), of port_off 2] same_outside_load [OF m2(2), of port_off 2] m1(3) assms(5)
    by (auto simp: load16_def)
  moreover have "load32 m3 ip_off = Some a"
    using same_outside_load [OF m3(2), of ip_off 4] m2(3) assms(5) by (auto simp: load32_def)
  ultimately show ?thesis using m1 m2 m3 by simp
qed

lemma send_frame_n:
  assumes "unat n = length m"
  shows "send_frame (Frame_new n m) i s = Some (s\<lparr>sent_frames := sent_frames s @ [(m, i)]\<rparr>)"
  using assms by (simp add: send_frame_def Frame_new_def load_bytes_def)

lemma load_defined: "i + 4 \<le> length d \<Longrightarrow> \<exists>v. load32 d i = Some v" "i + 2 \<le> length d \<Longrightarrow> \<exists>w. load16 d i = Some w"
  by (simp_all add: load32_def load16_def load_bytes_def)

lemma forward_out_eq:
  assumes "wf_node s" "header_inside d" "42 \<le> length d" "unat n = length d" "src_port s < 2147483647"
    and "q = word_of_int (src_port s)"
  shows "\<exists>s' m. forward_out n d port s = Some s' \<and> sent_frames s' = sent_frames s @ [(m, 1)]
    \<and> same_outside (nat_bytes 26 34) d m
    \<and> load_bytes m 0 12 = Some (gateway_mac s @ if_mac (iface s ! 1))
    \<and> load16 m 34 = Some (htons q) \<and> load32 m 26 = Some (htonl (if_ip (iface s ! 1)))
    \<and> owner_of s' q = Some (the (load32 d 26), the (load16 d 34)) \<and> src_port s' = src_port s + 1
    \<and> checksummed m"
proof -
  obtain m1 where m1: "set_eth_addresses (if_mac (iface s ! 1)) (mac_gateway s) d = Some m1"
    "same_outside {0..<12} d m1" "load_bytes m1 0 12 = Some (gateway_mac s @ if_mac (iface s ! 1))"
    using wf_node_eth(1) [OF assms(1), of d] assms(3) by auto
  obtain ip p where d: "load32 d 26 = Some ip" "load16 d 34 = Some p"
    using load_defined(1) [of 26 d] load_defined(2) [of 34 d] assms(3) by auto
  have l: "load32 m1 26 = Some ip" "load16 m1 34 = Some p"
    using same_outside_load [OF m1(2), of 26 4] same_outside_load [OF m1(2), of 34 2] d
    by (simp_all add: load32_def load16_def)
  obtain s1 where s1: "alloc_port (Some (ip, p)) s = Some (q, s1)"
    using alloc_port_eq [OF assms(5)] assms(6) by blast
  note a = alloc_port_owner(2) [OF s1]
  obtain m where m: "do { m \<leftarrow> store16 m1 34 (htons q); m \<leftarrow> store32 m 26 (htonl (if_ip (iface s ! 1))); set_ip_checksum m } = Some m"
    "same_outside (nat_bytes 26 34) d m" "load_bytes m 0 12 = Some (gateway_mac s @ if_mac (iface s ! 1))"
    "load16 m 34 = Some (htons q)" "load32 m 26 = Some (htonl (if_ip (iface s ! 1)))"
    "checksummed m"
    using rewrite_frame [OF m1(2,3) assms(2,3), of 26 34] by auto
  obtain dst where dst: "load32 d 30 = Some dst" using load_defined(1) [of 30 d] assms(3) by auto
  have "unat n = length m" using assms(4) same_outside_length [OF m(2)] by simp
  note sf = send_frame_n [OF this]
  obtain ma mb where st: "store16 m1 34 (htons q) = Some ma" "store32 ma 26 (htonl (if_ip (iface s ! 1))) = Some mb"
    "set_ip_checksum mb = Some m"
    using m(1) by (auto simp: Option.bind_eq_Some_conv)
  have "iface_at (iface s) 1 = Some (iface s ! 1)" using wf_node_iface [OF assms(1), of 1] by simp
  then have "forward_out n d port s = Some (put_line (Cout (protocol_name port @ '' packet forwarded to ''
      @ ip_text (ntohl dst))) (s1\<lparr>sent_frames := sent_frames s1 @ [(m, 1)]\<rparr>))"
    by (simp add: forward_out_def m1(1) l s1 getIp_def st sf dst ipUint_into_str_text del: One_nat_def)
  then show ?thesis
    using m d by (simp add: a owner_of_def put_line_def)
qed

lemma forward_back_eq:
  assumes "wf_node s" "header_inside d" "42 \<le> length d" "unat n = length d"
    and "owner_of s port = Some (ip, p)" "ip_to_mac s (ntohl ip) = Some peer"
  shows "\<exists>s' m. forward_back n d port ip s = Some s' \<and> sent_frames s' = sent_frames s @ [(m, 0)]
    \<and> same_outside (nat_bytes 30 36) d m
    \<and> load_bytes m 0 12 = Some (peer @ if_mac (iface s ! 0))
    \<and> load16 m 36 = Some p \<and> load32 m 30 = Some ip \<and> checksummed m"
proof -
  let ?p = "case my_port_to_src_port s port of Some p \<Rightarrow> p | None \<Rightarrow> 0"
  have p: "?p = p" using assms(5) by (auto simp: owner_of_def split: option.splits)
  obtain m1 where m1: "set_eth_addresses (if_mac (iface s ! 0)) peer d = Some m1"
    "same_outside {0..<12} d m1" "load_bytes m1 0 12 = Some (peer @ if_mac (iface s ! 0))"
    using wf_node_eth(2) [OF assms(1) _ assms(6), of d] assms(3) by auto
  obtain m where m: "do { m \<leftarrow> store16 m1 36 p; m \<leftarrow> store32 m 30 ip; set_ip_checksum m } = Some m"
    "same_outside (nat_bytes 30 36) d m" "load_bytes m 0 12 = Some (peer @ if_mac (iface s ! 0))"
    "load16 m 36 = Some p" "load32 m 30 = Some ip" "checksummed m"
    using rewrite_frame [OF m1(2,3) assms(2,3), of 30 36] by auto
  obtain ma mb where st: "store16 m1 36 p = Some ma" "store32 ma 30 ip = Some mb"
    "set_ip_checksum mb = Some m"
    using m(1) by (auto simp: Option.bind_eq_Some_conv)
  have "unat n = length m" using assms(4) same_outside_length [OF m(2)] by simp
  note sf = send_frame_n [OF this]
  obtain sp src where d: "load16 d 34 = Some sp" "load32 d 26 = Some src"
    using load_defined(1) [of 26 d] load_defined(2) [of 34 d] assms(3) by auto
  have "iface_at (iface s) 0 = Some (iface s ! 0)" using wf_node_iface [OF assms(1), of 0] by simp
  then show ?thesis
    using m by (simp add: forward_back_def Let_def p m1(1) assms(6) st sf d ipUint_into_str_text put_line_def)
qed

section \<open>Properties\<close>

text \<open>The ports taken by a sequence of packets and probes, in order.\<close>

definition alloc_ports :: "(u32 \<times> u16) option list \<Rightarrow> sm \<Rightarrow> (u16 list \<times> sm) option" where
  "alloc_ports es s = nat_table.alloc_all es s"

text \<open>
  The translation table. However many packets are forwarded and probes sent, as long as the port
  counter stays below 65536 the ports are pairwise different and each stands for the sender it was
  taken for, or, if it was taken for a probe of the node, for none.
\<close>

theorem allocated_ports_resolve:
  assumes "ports_ok s" "alloc_ports es s = Some (qs, s')"
  shows "distinct qs \<and> map (owner_of s') qs = es \<and> (\<forall>q\<in>used_ports s. owner_of s' q = owner_of s q)"
  using nat_table.alloc_all_resolve [of s es qs s'] nat_table.alloc_all_old [of s es qs s'] assms
  by (simp add: alloc_ports_def)

theorem allocated_ports_resolve_witness:
  "\<exists>s'. alloc_ports [Some (7, 9), None] sample_node = Some ([8000, 8001], s')
    \<and> owner_of s' 8000 = Some (7, 9) \<and> owner_of s' 8001 = None"
proof -
  have ok: "ports_ok sample_node"
    by (simp add: ports_ok_def sample_node_def sm_start_def)
  obtain s' where s': "alloc_ports [Some (7, 9), None] sample_node = Some ([8000, 8001], s')"
    by (simp add: alloc_ports_def alloc_port_16_def alloc_port_def incr_int_def Let_def)
  show ?thesis using allocated_ports_resolve [OF ok s'] s' by auto
qed

text \<open>
  Forwarding. A packet of a peer leaves through the public interface with the node's public
  address and a fresh port as source, to the gateway's MAC address; no other byte changes but the
  header checksum; and the table remembers the packet's own source under that port.
\<close>

theorem forward_out_effect:
  assumes "wf_node s" "header_inside d" "42 \<le> length d" "unat n = length d" "src_port s < 2147483647"
  shows "\<exists>s' m. forward_out n d port s = Some s' \<and> sent_frames s' = sent_frames s @ [(m, 1)]
    \<and> same_outside ({0..<12} \<union> {24..<26} \<union> {26..<30} \<union> {34..<36}) d m
    \<and> load_bytes m 0 12 = Some (take 6 (mac_gateway s) @ if_mac (iface s ! 1))
    \<and> load16 m 34 = Some (htons (word_of_int (src_port s)))
    \<and> load32 m 26 = Some (htonl (if_ip (iface s ! 1)))
    \<and> owner_of s' (word_of_int (src_port s)) = Some (the (load32 d 26), the (load16 d 34))
    \<and> src_port s' = src_port s + 1"
  using forward_out_eq [OF assms refl, of port] by (auto simp: nat_bytes_def gateway_mac_def)

text \<open>A DSA packet of the peer 10.0.0.2, from its port 8005.\<close>

definition sample_packet :: "u8 list" where
  "sample_packet = eth_bytes [2, 0, 0, 0, 0, 1] [2, 0, 0, 0, 0, 3]
     @ ip_packet 32 17 0x0A000002 0x08080404 @ udp_bytes 8005 1000 12 @ probe_payload"

lemma sample_packet: "length sample_packet = 46" "header_inside sample_packet"
  "load32 sample_packet 26 = Some (htonl 0x0A000002)" "load16 sample_packet 34 = Some (htons 8005)"
  by code_simp+

theorem forward_out_effect_witness:
  "\<exists>s'. forward_out 46 sample_packet 1000 sample_node = Some s' \<and> src_port s' = 8001
    \<and> owner_of s' 8000 = Some (htonl 0x0A000002, htons 8005)"
  using forward_out_effect [OF wf_sample_node sample_packet(2), of 46 1000] sample_packet by auto

text \<open>
  The way back. A packet to a port that stands for a peer's address and port, with that peer's
  MAC address known, goes to the peer through the overlay interface with exactly that address and
  port as destination; no other byte changes but the link addresses and the header checksum.
\<close>

theorem forward_back_effect:
  assumes "wf_node s" "header_inside d" "42 \<le> length d" "unat n = length d"
    and "owner_of s port = Some (ip, p)" "ip_to_mac s (ntohl ip) = Some peer"
  shows "\<exists>s' m. forward_back n d port ip s = Some s' \<and> sent_frames s' = sent_frames s @ [(m, 0)]
    \<and> same_outside ({0..<12} \<union> {24..<26} \<union> {30..<34} \<union> {36..<38}) d m
    \<and> load_bytes m 0 12 = Some (peer @ if_mac (iface s ! 0))
    \<and> load16 m 36 = Some p \<and> load32 m 30 = Some ip"
  using forward_back_eq [OF assms] by (auto simp: nat_bytes_def)

theorem forward_back_effect_witness:
  "\<exists>s' m. forward_back 46 sample_packet 8000 (htonl 0x0A000002)
      (sample_node\<lparr>port_to_ip := [8000 \<mapsto> htonl 0x0A000002], my_port_to_src_port := [8000 \<mapsto> htons 8005]\<rparr>) = Some s'
    \<and> sent_frames s' = [(m, 0)] \<and> load16 m 36 = Some (htons 8005)"
proof -
  let ?s = "sample_node\<lparr>port_to_ip := [8000 \<mapsto> htonl 0x0A000002], my_port_to_src_port := [8000 \<mapsto> htons 8005]\<rparr>"
  have w: "wf_node ?s" using wf_sample_node by (simp add: wf_node_def wf_servers_def)
  have ow: "owner_of ?s 8000 = Some (htonl 0x0A000002, htons 8005)" by (simp add: owner_of_def)
  have m: "ip_to_mac ?s (ntohl (htonl 0x0A000002)) = Some [2, 0, 0, 0, 0, 3]"
    by (simp add: sample_node_def sm_start_def del: htonl_inj)
  have "sent_frames ?s = []" by simp
  then show ?thesis
    using forward_back_effect [OF w sample_packet(2) _ _ ow m, of 46] sample_packet(1) by fastforce
qed

end
