(* ===== verification/Report.thy ===== *)
theory Report
  imports Servers
begin

text \<open>
  The tables the node prints (sm.cpp: \<open>print_delay_table\<close>, \<open>print_loss_table\<close>,
  \<open>print_server_information\<close>).
\<close>

section \<open>Tables\<close>

text \<open>\<open>setprecision (2) << fixed\<close> on \<open>cout\<close>.\<close>

definition set_fixed :: "sm \<Rightarrow> sm" where
  "set_fixed s = s\<lparr>cout_fixed := True\<rparr>"

definition delay_line :: "int \<Rightarrow> sm \<Rightarrow> sm" where
  "delay_line i s =
     (let si = server_infoes s i;
          hops = ii_str (si_ip si) @ '' '' @ ii_str (ip_next_hop_rtt (forwarding_table si)) @ '' ''
            @ ii_str (ip_next_hop_rtt (learning_table si)) @ '' '';
          rtt = ri_rtt_time (learning_table si)
      in if rtt = u16_max then put_line (Cout (hops @ ''INF'')) s
         else put_line (Cout (hops @ show_nat (unat rtt))) (set_fixed s))"

definition print_delay_table :: "sm \<Rightarrow> sm" where
  "print_delay_table s = fold delay_line [0..number_of_all_servers s - 1] s"

definition loss_line :: "int \<Rightarrow> sm \<Rightarrow> sm" where
  "loss_line i s =
     (let si = server_infoes s i;
          hops = ii_str (si_ip si) @ '' '' @ ii_str (ip_next_hop_lost (forwarding_table si)) @ '' ''
            @ ii_str (ip_next_hop_lost (learning_table si)) @ '' '';
          rate = ri_lost_rate (learning_table si)
      in if rate = DFin 1 then put_line (Cout (hops @ ''1.00'')) s
         else put_line (Cout_num hops (cout_fixed s) rate '''') s)"

definition print_loss_table :: "sm \<Rightarrow> sm" where
  "print_loss_table s = fold loss_line [0..number_of_all_servers s - 1] s"

definition print_server_information :: "int \<Rightarrow> sm \<Rightarrow> sm" where
  "print_server_information i s =
     (let si = server_infoes s i; name = ii_str (si_ip si) @ '' '' in
      if si_rtt_time si = u16_max then put_line (Cout (name @ ''INF 1.00'')) s
      else put_line (Cout_num (name @ show_nat (unat (si_rtt_time si)) @ '' '') True (ping_lost_rate si)
             ('' ('' @ show_nat (unat (ping_sent si)) @ '' '' @ show_nat (unat (ping_received si)) @ '')''))
             (set_fixed s))"

section \<open>Printing changes nothing else\<close>

definition same_but_console :: "sm \<Rightarrow> sm \<Rightarrow> bool" where
  "same_but_console s s' \<longleftrightarrow> (\<exists>c f. s' = s\<lparr>console := c, cout_fixed := f\<rparr>)"

lemma same_but_console_refl: "same_but_console s s"
  unfolding same_but_console_def by (intro exI [of _ "console s"] exI [of _ "cout_fixed s"]) simp

lemma same_but_console_trans: "same_but_console s s' \<Longrightarrow> same_but_console s' s'' \<Longrightarrow> same_but_console s s''"
  unfolding same_but_console_def by clarsimp (intro exI, rule refl)

lemma same_but_console_fold:
  "(\<And>i s. same_but_console s (f i s)) \<Longrightarrow> same_but_console s (fold f is s)"
  by (induction "is" arbitrary: s) (auto intro: same_but_console_refl same_but_console_trans)

lemma same_but_console_line: "same_but_console s (put_line l s)" "same_but_console s (put_line l (set_fixed s))"
  unfolding same_but_console_def put_line_def set_fixed_def
  by (intro exI [of _ "console s @ [l]"] exI [of _ "cout_fixed s"] exI [of _ True]; simp)+

lemma lines_same:
  "same_but_console s (delay_line i s)" "same_but_console s (loss_line i s)"
  "same_but_console s (print_server_information i s)"
  by (simp_all add: delay_line_def loss_line_def print_server_information_def Let_def same_but_console_line)

lemma tables_same:
  "same_but_console s (print_delay_table s)" "same_but_console s (print_loss_table s)"
  by (simp_all add: print_delay_table_def print_loss_table_def same_but_console_fold lines_same)

end
