(* ===== verification/Node.thy ===== *)
theory Node
  imports Forwarding Report "HOL-Library.Sublist"
begin

text \<open>
  The node as a whole (sm.cpp): \<open>initialize\<close> reads the configuration, the thread of \<open>run\<close> executes
  the commands of the user, the main thread calls \<open>processFrame\<close>. The step relation interleaves
  commands and frames; its invariants hold in every reachable state.
\<close>

section \<open>Configuration\<close>

text \<open>\<open>operator>>\<close> into a string: the next token; at the end of the input the string stays as it is.\<close>

fun tokens_from :: "string \<Rightarrow> string \<Rightarrow> string list" where
  "tokens_from acc [] = (if acc = [] then [] else [acc])"
| "tokens_from acc (c # cs) =
     (if is_space c then (if acc = [] then tokens_from [] cs else acc # tokens_from [] cs)
      else tokens_from (acc @ [c]) cs)"

definition tokens :: "string \<Rightarrow> string list" where
  "tokens s = tokens_from [] s"

fun next_token :: "string \<Rightarrow> string list \<Rightarrow> string \<times> string list" where
  "next_token old [] = (old, [])"
| "next_token old (t # ts) = (t, ts)"

text \<open>\<open>atoi\<close>: undefined if the number does not fit in an \<open>int\<close>.\<close>

definition is_digit :: "char \<Rightarrow> bool" where
  "is_digit c \<longleftrightarrow> 0 \<le> char_minus_0 c \<and> char_minus_0 c \<le> 9"

definition atoi :: "string \<Rightarrow> int option" where
  "atoi str =
     (let t = dropWhile is_space str;
          neg = (t \<noteq> [] \<and> hd t = CHR ''-'');
          u = (if t \<noteq> [] \<and> (hd t = CHR ''-'' \<or> hd t = CHR ''+'') then tl t else t);
          v = foldl (\<lambda>n c. n * 10 + char_minus_0 c) 0 (takeWhile is_digit u);
          n = (if neg then - v else v)
      in if - 2147483648 \<le> n \<and> n \<le> 2147483647 then Some n else None)"

definition init_server :: "int \<Rightarrow> string \<times> string list \<times> sm \<Rightarrow> (string \<times> string list \<times> sm) option" where
  "init_server i st =
     (let (server_temp, toks, s) = st; (server_temp, toks) = next_token server_temp toks in do {
        s \<leftarrow> initialize_server_information i server_temp s;
        Some (server_temp, toks, s) })"

definition initialize :: "string \<Rightarrow> sm \<Rightarrow> sm option" where
  "initialize info s =
     (let (ip, toks) = next_token '''' (tokens info);
          (macAddr, toks) = next_token '''' toks;
          (numbers, toks) = next_token '''' toks
      in do {
        n \<leftarrow> atoi numbers;
        mac \<leftarrow> mac_into_byte macAddr (mac_gateway s);
        (server_temp, toks, s) \<leftarrow> foldM init_server [0..n - 1] ('''', toks,
          s\<lparr>number_of_servers := n, number_of_all_servers := n,
            ip_gateway := \<lparr>ii_uint = ip_into_uint ip, ii_str = ip\<rparr>, mac_gateway := mac\<rparr>);
        Some s })"

section \<open>Commands\<close>

definition run_command :: "string \<Rightarrow> string list \<Rightarrow> sm \<Rightarrow> (string list \<times> sm) option" where
  "run_command command input s =
     (if command = ''ping'' then do {
        s \<leftarrow> foldM send_icmp_packet [0..number_of_servers s - 1] (check_connections_is_alive s);
        Some (input, s) }
      else if command = ''stats''
      then Some (input, fold print_server_information [0..number_of_servers s - 1] s)
      else if command = ''advertise'' then do {
        s \<leftarrow> advertise_data s;
        Some (input, reset_learning_table (fill_forwarding_table s)) }
      else if command = ''dtable'' then Some (input, print_delay_table s)
      else if command = ''ltable'' then Some (input, print_loss_table s)
      else if command = ''dsa'' then
        (let (ip_dst, input) = next_token '''' input in
         if is_server_valid s ip_dst then do { s \<leftarrow> send_dsa_packet ip_dst s; Some (input, s) }
         else Some (input, s))
      else if command = ''lsa'' then
        (let (ip_dst, input) = next_token '''' input in
         if is_server_valid s ip_dst then do { s \<leftarrow> send_lsa_packet ip_dst s; Some (input, s) }
         else Some (input, s))
      else Some (input, s))"

text \<open>
  One round of the endless loop of \<open>run\<close>: the command variable outlives the round, so at the end of
  the input the last command is executed again.
\<close>

definition run_round :: "string \<times> string list \<times> sm \<Rightarrow> (string \<times> string list \<times> sm) option" where
  "run_round st =
     (let (command, input, s) = st; (command, input) = next_token command input in do {
        (input, s) \<leftarrow> run_command command input s;
        Some (command, input, s) })"

fun run_rounds :: "nat \<Rightarrow> string \<times> string list \<times> sm \<Rightarrow> (string \<times> string list \<times> sm) option" where
  "run_rounds 0 st = Some st"
| "run_rounds (Suc n) st = do { st \<leftarrow> run_round st; run_rounds n st }"

section \<open>Interleaving\<close>

text \<open>The two threads of the program: a round of \<open>run\<close>, or a received frame.\<close>

inductive node_step :: "sm \<Rightarrow> sm \<Rightarrow> bool" where
  command: "run_command command input s = Some (input', s') \<Longrightarrow> node_step s s'"
| frame: "processFrame fr i s = Some s' \<Longrightarrow> node_step s s'"

inductive_cases node_stepE: "node_step s s'"

inductive node_steps :: "sm \<Rightarrow> sm \<Rightarrow> bool" where
  refl: "node_steps s s"
| step: "node_steps s s' \<Longrightarrow> node_step s' s'' \<Longrightarrow> node_steps s s''"

section \<open>What initialize builds\<close>

fun ids_from :: "int \<Rightarrow> string list \<Rightarrow> (u32 \<rightharpoonup> int) \<Rightarrow> (u32 \<rightharpoonup> int)" where
  "ids_from k [] m = m"
| "ids_from k (x # xs) m = ids_from (k + 1) xs (m(ip_into_uint x \<mapsto> k))"

lemma ids_from_other: "a \<notin> ip_into_uint ` set xs \<Longrightarrow> ids_from k xs m a = m a"
  by (induction xs arbitrary: k m) auto

lemma ids_from_nth:
  "distinct (map ip_into_uint xs) \<Longrightarrow> j < length xs \<Longrightarrow> ids_from k xs m (ip_into_uint (xs ! j)) = Some (k + int j)"
proof (induction xs arbitrary: k m j)
  case (Cons x xs)
  then show ?case by (cases j) (auto simp: ids_from_other)
qed simp

definition init_range :: "int \<Rightarrow> string list \<Rightarrow> sm \<Rightarrow> sm" where
  "init_range k names s = s\<lparr>server_infoes := (\<lambda>i. if k \<le> i \<and> i < k + int (length names)
       then initial_entry (ip_gateway s) (names ! nat (i - k)) (server_infoes s i) else server_infoes s i),
     ip_to_id := ids_from k names (ip_to_id s)\<rparr>"

lemma nth_shift: "k < i \<Longrightarrow> (x # xs) ! nat (i - k) = xs ! nat (i - (k + 1))" for i k :: int
proof -
  assume "k < i"
  then have "nat (i - k) = Suc (nat (i - (k + 1)))" by simp
  then show ?thesis by simp
qed

lemma init_range_Cons:
  "init_range (k + 1) xs ((upd_server k (initial_entry (ip_gateway s) x) s)\<lparr>ip_to_id := (ip_to_id s)(ip_into_uint x \<mapsto> k)\<rparr>)
     = init_range k (x # xs) s"
proof -
  let ?a = "server_infoes s" and ?e = "\<lambda>x. initial_entry (ip_gateway s) x"
  have "(\<lambda>i. if k + 1 \<le> i \<and> i < k + 1 + int (length xs)
        then ?e (xs ! nat (i - (k + 1))) ((?a(k := ?e x (?a k))) i) else (?a(k := ?e x (?a k))) i)
      = (\<lambda>i. if k \<le> i \<and> i < k + int (length (x # xs)) then ?e ((x # xs) ! nat (i - k)) (?a i) else ?a i)"
    by (rule ext) (auto simp: nth_shift simp del: nth_Cons_pos)
  then show ?thesis by (simp add: init_range_def upd_server_def cong del: if_weak_cong)
qed

lemma init_servers:
  assumes "0 \<le> k" "k + int (length names) \<le> 1000"
  shows "\<exists>t. foldM init_server [k..k + int (length names) - 1] (tmp, names, s) = Some (t, [], init_range k names s)"
  using assms
proof (induction names arbitrary: k tmp s)
  case Nil
  have "(\<lambda>i. if k \<le> i \<and> i < k then initial_entry (ip_gateway s) ([] ! nat (i - k)) (server_infoes s i)
      else server_infoes s i) = server_infoes s" by (rule ext) auto
  then show ?case by (simp add: init_range_def)
next
  case (Cons x xs)
  let ?s = "(upd_server k (initial_entry (ip_gateway s) x) s)\<lparr>ip_to_id := (ip_to_id s)(ip_into_uint x \<mapsto> k)\<rparr>"
  have r: "[k..k + int (length (x # xs)) - 1] = k # [k + 1..(k + 1) + int (length xs) - 1]"
    by (subst upto.simps) (simp add: algebra_simps)
  have "init_server k (tmp, x # xs, s) = Some (x, xs, ?s)"
    using Cons.prems by (simp add: init_server_def initialize_server_information_def in_servers_def)
  then show ?case
    using Cons.IH [of "k + 1" x ?s] Cons.prems init_range_Cons [of k xs s x] unfolding r
    by (simp add: algebra_simps)
qed

lemma read_mac:
  assumes "length mac = 6" "9 \<le> length mem"
  shows "mac_into_byte (mac_str mac) mem = Some (mac @ [0, 0, 0] @ drop 9 mem)"
proof -
  have "mac \<noteq> []" using assms by auto
  then show ?thesis using scan_mac_text [of mac 0 mem] assms by (simp add: mac_into_byte_def)
qed

definition configured :: "string \<Rightarrow> u8 list \<Rightarrow> string list \<Rightarrow> sm \<Rightarrow> sm" where
  "configured gw mac names s = init_range 0 names
     (s\<lparr>number_of_servers := int (length names), number_of_all_servers := int (length names),
        ip_gateway := \<lparr>ii_uint = ip_into_uint gw, ii_str = gw\<rparr>,
        mac_gateway := mac @ [0, 0, 0] @ drop 9 (mac_gateway s)\<rparr>)"

lemma initialize_eq:
  assumes "tokens info = gw # mac_str mac # num # names" "atoi num = Some (int (length names))"
    and "length names \<le> 1000" "length mac = 6" "9 \<le> length (mac_gateway s)"
  shows "initialize info s = Some (configured gw mac names s)"
proof -
  let ?s0 = "s\<lparr>number_of_servers := int (length names), number_of_all_servers := int (length names),
     ip_gateway := \<lparr>ii_uint = ip_into_uint gw, ii_str = gw\<rparr>, mac_gateway := mac @ [0, 0, 0] @ drop 9 (mac_gateway s)\<rparr>"
  obtain t where "foldM init_server [0..int (length names) - 1] ([], names, ?s0) = Some (t, [], init_range 0 names ?s0)"
    using init_servers [of 0 names "[]" ?s0] assms(3) by auto
  then show ?thesis
    using read_mac [OF assms(4,5)] assms(1,2) by (simp add: initialize_def configured_def)
qed

text \<open>
  C34: Configuration. From a configuration that names the gateway, its MAC address, the number of
  servers and that many servers, at most 1000, \<open>initialize\<close> builds the table of these servers, each
  routed through the gateway and not yet reached; if the addresses differ, the index of each is found
  by its address in the table and in \<open>ip_to_id\<close>. Three bytes behind \<open>mac_gateway\<close> are overwritten.
\<close>

theorem initialize_configured:
  assumes "tokens info = gw # mac_str mac # num # names" "atoi num = Some (int (length names))"
    and "length names \<le> 1000" "length mac = 6" "9 \<le> length (mac_gateway s)"
  shows "\<exists>s'. initialize info s = Some s' \<and> number_of_servers s' = int (length names)
    \<and> number_of_all_servers s' = int (length names)
    \<and> ip_gateway s' = \<lparr>ii_uint = ip_into_uint gw, ii_str = gw\<rparr> \<and> take 6 (mac_gateway s') = mac
    \<and> (\<forall>i < length names. server_infoes s' (int i)
          = initial_entry (ip_gateway s') (names ! i) (server_infoes s (int i)))
    \<and> (distinct (map ip_into_uint names) \<longrightarrow> (\<forall>i < length names.
          get_index_by_ip s' (ip_into_uint (names ! i)) = int i
          \<and> ip_to_id s' (ip_into_uint (names ! i)) = Some (int i)))"
proof -
  let ?s' = "configured gw mac names s"
  have i: "initialize info s = Some ?s'" by (rule initialize_eq [OF assms])
  have e: "server_infoes ?s' (int j) = initial_entry (ip_gateway ?s') (names ! j) (server_infoes s (int j))"
    if "j < length names" for j using that by (simp add: configured_def init_range_def)
  have "get_index_by_ip ?s' (ip_into_uint (names ! j)) = int j"
    if d: "distinct (map ip_into_uint names)" and j: "j < length names" for j
  proof (rule get_index_eqI)
    fix k :: int assume k: "0 \<le> k" "k < int j"
    then obtain l where l: "k = int l" "l < j" by (metis nonneg_int_cases of_nat_less_iff)
    then have "map ip_into_uint names ! l \<noteq> map ip_into_uint names ! j"
      using d j by (subst nth_eq_iff_index_eq) auto
    then show "ii_uint (si_ip (server_infoes ?s' k)) \<noteq> ip_into_uint (names ! j)"
      using e [of l] l j by (simp add: initial_entry_def Let_def)
  qed (use j e [OF j] in \<open>simp_all add: configured_def init_range_def initial_entry_def Let_def\<close>)
  moreover have "ip_to_id ?s' (ip_into_uint (names ! j)) = Some (int j)"
    if "distinct (map ip_into_uint names)" "j < length names" for j
    using ids_from_nth [OF that, of 0] by (simp add: configured_def init_range_def)
  ultimately show ?thesis
    using i e assms(4) by (intro exI [of _ ?s']) (simp add: configured_def init_range_def)
qed

theorem initialize_configured_witness:
  "\<exists>s'. initialize ''192.168.1.1 0A:0B:0C:0D:0E:0F 2 10.0.0.1 10.0.0.2'' (sm_start 8 [] (\<lambda>_. 0) (\<lambda>_. 0)) = Some s'
     \<and> number_of_servers s' = 2 \<and> get_index_by_ip s' (ip_into_uint ''10.0.0.2'') = 1"
proof -
  have t: "tokens ''192.168.1.1 0A:0B:0C:0D:0E:0F 2 10.0.0.1 10.0.0.2''
    = ''192.168.1.1'' # mac_str [10, 11, 12, 13, 14, 15] # ''2'' # [''10.0.0.1'', ''10.0.0.2'']" by code_simp
  have n: "atoi ''2'' = Some (int (length [''10.0.0.1'', ''10.0.0.2'']))" by code_simp
  have d: "distinct (map ip_into_uint [''10.0.0.1'', ''10.0.0.2''])" by code_simp
  have g: "9 \<le> length (mac_gateway (sm_start 8 [] (\<lambda>_. 0) (\<lambda>_. 0)))" by (simp add: sm_start_def)
  show ?thesis using initialize_configured [OF t n _ _ g] d by fastforce
qed

section \<open>How the state evolves\<close>

text \<open>
  What every operation of the running node keeps: the configuration; well-formedness; the addresses
  of the servers in the table, which only grows; the MAC addresses known; the meaning of \<open>ip_to_id\<close>;
  and, while the port counter fits in 16 bits, the owners of the ports in use and the times noted
  for them.
\<close>

definition node_config :: "sm \<Rightarrow> interface list \<times> ip_info \<times> int \<times> u8 list \<times> nat" where
  "node_config s = (iface s, ip_gateway s, number_of_servers s, mac_gateway s, pad s)"

definition server_addr :: "sm \<Rightarrow> int \<Rightarrow> ip_info" where
  "server_addr s i = si_ip (server_infoes s i)"

definition ids_ok :: "sm \<Rightarrow> bool" where
  "ids_ok s \<longleftrightarrow> (\<forall>a i. ip_to_id s a = Some i \<longrightarrow>
     i = 0 \<or> 0 \<le> i \<and> i < number_of_servers s \<and> ii_uint (server_addr s i) = a)"

definition ports_kept :: "sm \<Rightarrow> sm \<Rightarrow> bool" where
  "ports_kept s s' \<longleftrightarrow> (\<forall>q\<in>used_ports s. owner_of s' q = owner_of s q
     \<and> (sent_times s q \<noteq> None \<longrightarrow> sent_times s' q = sent_times s q))"

definition evolves :: "sm \<Rightarrow> sm \<Rightarrow> bool" where
  "evolves s s' \<longleftrightarrow> node_config s' = node_config s
     \<and> (wf_node s \<longrightarrow> wf_node s' \<and> (ids_ok s \<longrightarrow> ids_ok s'))
     \<and> number_of_all_servers s \<le> number_of_all_servers s'
     \<and> (\<forall>i. 0 \<le> i \<and> i < number_of_all_servers s \<longrightarrow> server_addr s' i = server_addr s i)
     \<and> dom (ip_to_mac s) \<subseteq> dom (ip_to_mac s')
     \<and> src_port s \<le> src_port s' \<and> prefix (sent_frames s) (sent_frames s')
     \<and> (ports_ok s \<longrightarrow> src_port s' \<le> 65536 \<longrightarrow>
          ports_ok s' \<and> ports_kept s s')"

lemma used_ports_mono: "src_port s \<le> src_port s' \<Longrightarrow> used_ports s \<subseteq> used_ports s'"
  by (auto simp: used_ports_def)

lemma ports_kept_refl: "ports_kept s s"
  by (simp add: ports_kept_def)

lemma ports_kept_trans:
  "ports_kept s t \<Longrightarrow> ports_kept t u \<Longrightarrow> src_port s \<le> src_port t \<Longrightarrow> ports_kept s u"
  using used_ports_mono [of s t] by (auto simp: ports_kept_def subset_iff)

lemma evolves_refl: "evolves s s"
  by (simp add: evolves_def ports_kept_refl)

lemma evolves_trans:
  assumes "evolves s t" "evolves t u"
  shows "evolves s u"
proof -
  note st = assms(1) [unfolded evolves_def] and tu = assms(2) [unfolded evolves_def]
  have "server_addr u i = server_addr s i" if "0 \<le> i" "i < number_of_all_servers s" for i
    using st tu that by (metis order_less_le_trans)
  moreover have "ports_ok u \<and> ports_kept s u" if "ports_ok s" "src_port u \<le> 65536"
    using st tu that ports_kept_trans [of s t u] by (metis order_trans)
  moreover have "dom (ip_to_mac s) \<subseteq> dom (ip_to_mac u)" using st tu by (meson order_trans)
  moreover have "number_of_all_servers s \<le> number_of_all_servers u" "src_port s \<le> src_port u"
    using st tu by linarith+
  moreover have "prefix (sent_frames s) (sent_frames u)" using st tu prefix_order.trans by metis
  moreover have "wf_node s \<longrightarrow> wf_node u \<and> (ids_ok s \<longrightarrow> ids_ok u)" "node_config u = node_config s"
    using st tu by metis+
  ultimately show ?thesis unfolding evolves_def by metis
qed

lemma owner_of_cong:
  "port_to_ip s' = port_to_ip s \<Longrightarrow> my_port_to_src_port s' = my_port_to_src_port s \<Longrightarrow> owner_of s' = owner_of s"
  by (rule ext) (simp only: owner_of_def)

text \<open>The fields that \<open>evolves\<close> is about; an operation on the others only evolves.\<close>

lemma evolves_same:
  assumes "node_config s' = node_config s" "number_of_all_servers s' = number_of_all_servers s"
    and "server_addr s' = server_addr s" "ip_to_id s' = ip_to_id s" "ip_to_mac s' = ip_to_mac s"
    and "src_port s' = src_port s" "port_to_ip s' = port_to_ip s"
    and "owner_of s' = owner_of s" "prefix (sent_frames s) (sent_frames s')"
    and "\<And>q. sent_times s q \<noteq> None \<Longrightarrow> sent_times s' q = sent_times s q"
  shows "evolves s s'"
  using assms by (auto simp: ports_kept_def evolves_def wf_node_def wf_servers_def ids_ok_def node_config_def
      ports_ok_def used_ports_def)

named_theorems evolve \<open>operations under which the node evolves\<close>

lemma evolves_upd_server [evolve]:
  assumes "\<And>si. si_ip (f si) = si_ip si"
  shows "evolves s (upd_server i f s)"
proof -
  have "server_addr (upd_server i f s) = server_addr s"
    by (rule ext) (simp add: server_addr_def assms)
  moreover have "owner_of (upd_server i f s) = owner_of s"
    by (rule owner_of_cong) (simp_all add: upd_server_def)
  ultimately show ?thesis by (intro evolves_same) (simp_all add: node_config_def upd_server_def)
qed

lemma evolves_for_servers [evolve]:
  assumes "\<And>si. si_ip (f si) = si_ip si"
  shows "evolves s (for_servers n f s)"
proof -
  have "server_addr (for_servers n f s) = server_addr s"
    by (rule ext) (simp add: server_addr_def for_servers_eq assms)
  moreover have "owner_of (for_servers n f s) = owner_of s"
    by (rule owner_of_cong) (simp_all add: for_servers_eq)
  ultimately show ?thesis by (intro evolves_same) (simp_all add: node_config_def for_servers_eq)
qed

lemma server_addr_cong: "server_infoes s' = server_infoes s \<Longrightarrow> server_addr s' = server_addr s"
  by (rule ext) (simp only: server_addr_def)

lemma evolves_same_fields:
  assumes "node_config s' = node_config s" "number_of_all_servers s' = number_of_all_servers s"
    and "server_infoes s' = server_infoes s" "ip_to_id s' = ip_to_id s" "ip_to_mac s' = ip_to_mac s"
    and "src_port s' = src_port s" "port_to_ip s' = port_to_ip s"
    and "my_port_to_src_port s' = my_port_to_src_port s" "prefix (sent_frames s) (sent_frames s')"
    and "\<And>q. sent_times s q \<noteq> None \<Longrightarrow> sent_times s' q = sent_times s q"
  shows "evolves s s'"
  by (rule evolves_same [OF assms(1,2) server_addr_cong assms(4-7) owner_of_cong]) fact+

lemma evolves_fields [evolve]:
  "evolves s (put_line l s)" "evolves s (tick s)"
  "evolves s (s\<lparr>console := c, cout_fixed := b\<rparr>)" "evolves s (s\<lparr>sent_frames := sent_frames s @ fs\<rparr>)"
  by (rule evolves_same_fields; simp add: node_config_def put_line_def tick_def)+

text \<open>Times are noted for new ports only.\<close>

lemma evolves_set_times:
  assumes "evolves s s'"
    and "\<And>q. ports_ok s \<Longrightarrow> src_port s' \<le> 65536 \<Longrightarrow> q \<in> used_ports s \<Longrightarrow> sent_times s q \<noteq> None \<Longrightarrow> st q = sent_times s q"
  shows "evolves s (s'\<lparr>sent_times := st\<rparr>)"
proof -
  let ?t = "s'\<lparr>sent_times := st\<rparr>"
  have a: "server_addr ?t = server_addr s'" by (rule server_addr_cong) simp
  have ow: "owner_of ?t = owner_of s'" by (rule owner_of_cong) simp_all
  have "ids_ok ?t = ids_ok s'" "node_config ?t = node_config s'" "wf_node ?t = wf_node s'" "ports_ok ?t = ports_ok s'"
    by (simp_all add: ids_ok_def a) (simp_all add: node_config_def wf_node_def wf_servers_def ports_ok_def used_ports_def)
  then show ?thesis using assms by (auto simp: evolves_def a ow ports_kept_def)
qed

lemma evolves_report [evolve]: "same_but_console s s' \<Longrightarrow> evolves s s'"
  by (auto simp: same_but_console_def evolves_fields)

lemma evolves_foldM:
  assumes "\<And>x s s'. f x s = Some s' \<Longrightarrow> evolves s s'" "foldM f xs s = Some s'"
  shows "evolves s s'"
proof (rule foldM_inv [of xs "evolves s" f s s'])
  fix x t t' assume "evolves s t" "f x t = Some t'"
  then show "evolves s t'" using assms(1) [of x t t'] by (rule_tac evolves_trans)
qed (use assms(2) evolves_refl in simp_all)

lemma evolves_send_frame [evolve]: "send_frame fr i s = Some s' \<Longrightarrow> evolves s s'"
  by (auto simp: send_frame_def Option.bind_eq_Some_conv intro: evolve)

lemma evolves_insert [evolve]:
  assumes "insert_into_server_infoes info s = Some s'"
  shows "evolves s s'"
proof -
  let ?n = "number_of_all_servers s"
  have s': "s' = (upd_server ?n (inserted_server info) s)\<lparr>number_of_all_servers := ?n + 1\<rparr>" "0 \<le> ?n" "?n < 1000"
    using assms by (auto simp: insert_into_server_infoes_def in_servers_def split: if_splits)
  have addr: "server_addr s' i = server_addr s i" if "i \<noteq> ?n" for i
    using that by (simp add: s' server_addr_def)
  have f: "node_config s' = node_config s" "number_of_servers s' = number_of_servers s"
    "number_of_all_servers s' = ?n + 1" "ip_to_id s' = ip_to_id s" "ip_to_mac s' = ip_to_mac s"
    "src_port s' = src_port s" "port_to_ip s' = port_to_ip s" "used_ports s' = used_ports s"
    "iface s' = iface s" "mac_gateway s' = mac_gateway s" "sent_frames s' = sent_frames s"
    "sent_times s' = sent_times s"
    by (simp_all add: s' upd_server_def node_config_def used_ports_def)
  have ow: "owner_of s' = owner_of s"
    by (rule owner_of_cong) (simp_all add: s' upd_server_def)
  have "ids_ok s'" if "wf_node s" "ids_ok s"
    unfolding ids_ok_def
  proof (intro allI impI)
    fix a i assume "ip_to_id s' a = Some i"
    then have i: "i = 0 \<or> 0 \<le> i \<and> i < number_of_servers s \<and> ii_uint (server_addr s i) = a"
      using that(2) by (simp add: ids_ok_def f)
    moreover have "number_of_servers s \<le> ?n" using that(1) by (simp add: wf_node_def wf_servers_def)
    ultimately show "i = 0 \<or> 0 \<le> i \<and> i < number_of_servers s' \<and> ii_uint (server_addr s' i) = a"
      using addr [of i] by (auto simp: f)
  qed
  then show ?thesis using s'(2,3) addr f ow
    by (simp add: evolves_def wf_node_def wf_servers_def ports_ok_def ports_kept_def)
qed

lemma evolves_update_learning [evolve]: "update_learning_table info ip s = Some s' \<Longrightarrow> evolves s s'"
  by (auto simp: update_learning_table_def Let_def Option.bind_eq_Some_conv split: if_splits
      intro!: evolves_upd_server elim!: evolves_trans [OF evolves_insert])

section \<open>Every operation evolves the node\<close>

lemma foldM_memcpy_length:
  "foldM (\<lambda>i m. memcpy m i src i 1) is m = Some m' \<Longrightarrow> length m' = length m"
  by (induction "is" arbitrary: m) (auto simp: Option.bind_eq_Some_conv memcpy_def dest!: store_bytes_length)

lemma evolves_store_mac [evolve]:
  assumes "store_mac_addr_to_map ip mac s = Some s'"
  shows "evolves s s'"
proof -
  obtain m where m: "s' = s\<lparr>ip_to_mac := (ip_to_mac s)(ip \<mapsto> m)\<rparr>" "length m = 6"
    using assms foldM_memcpy_length [of mac "[0..<6]"]
    by (auto simp: store_mac_addr_to_map_def Option.bind_eq_Some_conv)
  have a: "server_addr s' = server_addr s" by (rule server_addr_cong) (simp add: m)
  have ow: "owner_of s' = owner_of s" by (rule owner_of_cong) (simp_all add: m)
  have "wf_node s'" if "wf_node s" using that m by (auto simp: wf_node_def wf_servers_def ran_def)
  moreover have "ids_ok s'" if "ids_ok s" using that by (simp add: ids_ok_def a) (simp add: m)
  moreover have "used_ports s' = used_ports s" "src_port s' = src_port s" "port_to_ip s' = port_to_ip s"
    "number_of_all_servers s' = number_of_all_servers s" "node_config s' = node_config s"
    "dom (ip_to_mac s) \<subseteq> dom (ip_to_mac s')" "sent_frames s' = sent_frames s"
    "sent_times s' = sent_times s"
    by (auto simp: m used_ports_def node_config_def)
  ultimately show ?thesis by (simp add: evolves_def a ow ports_ok_def ports_kept_def)
qed

lemma evolves_alloc_port [evolve]:
  assumes "alloc_port e s = Some (q, s')"
  shows "evolves s s'"
proof -
  have p: "src_port s' = src_port s + 1" and f: "node_config s' = node_config s"
    "number_of_all_servers s' = number_of_all_servers s" "server_infoes s' = server_infoes s"
    "ip_to_id s' = ip_to_id s" "ip_to_mac s' = ip_to_mac s" "sent_frames s' = sent_frames s"
    "sent_times s' = sent_times s"
    using assms by (auto simp: alloc_port_def incr_int_def Let_def node_config_def
        split: if_splits option.splits)
  have a: "server_addr s' = server_addr s" by (rule server_addr_cong) (rule f(3))
  have c: "number_of_servers s' = number_of_servers s" "iface s' = iface s" "mac_gateway s' = mac_gateway s"
    using f(1) by (auto simp: node_config_def)
  have "ports_ok s' \<and> ports_kept s s'"
    if "ports_ok s" "src_port s' \<le> 65536"
  proof -
    have "alloc_port_16 e s = Some (q, s')" using assms that(2) p by (simp add: alloc_port_16_def)
    then show ?thesis
      using nat_table.alloc_inv nat_table.alloc_other that(1) f by (auto simp: ports_kept_def)
  qed
  then show ?thesis
    by (simp add: evolves_def a f c p wf_node_def wf_servers_def ids_ok_def)
qed

lemma evolves_id_of [evolve]:
  assumes "id_of ip s = (i, s')"
  shows "evolves s s'"
proof (cases "ip_to_id s ip")
  case None
  then have s': "s' = s\<lparr>ip_to_id := (ip_to_id s)(ip \<mapsto> 0)\<rparr>" using assms by (simp add: id_of_def)
  have a: "server_addr s' = server_addr s" by (rule server_addr_cong) (simp add: s')
  have ow: "owner_of s' = owner_of s" by (rule owner_of_cong) (simp_all add: s')
  have "wf_node s' = wf_node s" by (simp add: s' wf_node_def wf_servers_def)
  moreover have "ids_ok s'" if "ids_ok s" using that by (auto simp: ids_ok_def a) (auto simp: s' split: if_splits)
  moreover have "ports_ok s' = ports_ok s" "src_port s' = src_port s"
    "number_of_all_servers s' = number_of_all_servers s" "node_config s' = node_config s"
    "ip_to_mac s' = ip_to_mac s" "sent_frames s' = sent_frames s" "sent_times s' = sent_times s"
    by (simp_all add: s' used_ports_def node_config_def ports_ok_def)
  ultimately show ?thesis by (simp add: evolves_def a ow ports_kept_def)
next
  case (Some j)
  then show ?thesis using assms evolves_refl by (simp add: id_of_def)
qed

lemma evolves_take_port [evolve]: "take_port d s = Some (d', s') \<Longrightarrow> evolves s s'"
  by (auto simp: take_port_def Option.bind_eq_Some_conv intro: evolve)

lemma probe_finish_effect:
  assumes "probe_finish next_hop d s = Some s'"
  obtains t where "evolves s t" "src_port t = src_port s" "sent_times t = sent_times s"
    "s' = t\<lparr>sent_times := (sent_times s)(word_of_int (src_port s - 1) \<mapsto> now s)\<rparr>"
proof -
  obtain fr i u where u: "send_frame fr i s = Some u"
    "s' = tick (u\<lparr>sent_times := (sent_times u)(word_of_int (src_port u - 1) \<mapsto> now u)\<rparr>)"
    using assms by (auto simp: probe_finish_def Option.bind_eq_Some_conv split: if_splits)
  have f: "src_port u = src_port s" "sent_times u = sent_times s" "now u = now s"
    using u(1) by (auto simp: send_frame_def Option.bind_eq_Some_conv now_def)
  have "evolves s (tick u)" using evolves_trans [OF evolves_send_frame [OF u(1)] evolves_fields(2)] .
  then show thesis using f u(2) by (intro that [of "tick u"]) (simp_all add: tick_def)
qed

lemma evolves_send_udp [evolve]:
  assumes "send_udp_packet ip_dst next_hop is_dsa s = Some s'"
  shows "evolves s s'"
proof -
  obtain d d' t where t: "take_port d s = Some (d', t)" "probe_finish next_hop d' t = Some s'"
    using assms by (auto simp: send_udp_packet_def Option.bind_eq_Some_conv)
  have f: "src_port t = src_port s + 1" "sent_times t = sent_times s"
    using t(1) by (auto simp: take_port_def alloc_port_def incr_int_def Let_def Option.bind_eq_Some_conv split: if_splits)
  obtain u where u: "evolves t u" "src_port u = src_port t"
    "s' = u\<lparr>sent_times := (sent_times t)(word_of_int (src_port t - 1) \<mapsto> now t)\<rparr>"
    by (rule probe_finish_effect [OF t(2)])
  show ?thesis unfolding u(3)
  proof (rule evolves_set_times)
    show "evolves s u" using evolves_trans [OF evolves_take_port [OF t(1)] u(1)] .
    fix q assume p: "ports_ok s" "src_port u \<le> 65536" "q \<in> used_ports s"
    then have "q \<noteq> word_of_int (src_port s)"
      using uint_port [of "src_port s"] f(1) u(2) by (auto simp: used_ports_def ports_ok_def)
    then show "((sent_times t)(word_of_int (src_port t - 1) \<mapsto> now t)) q = sent_times s q"
      using f by simp
  qed
qed

lemma evolves_send_probe [evolve]:
  "send_dsa_packet ip_dst s = Some s' \<Longrightarrow> evolves s s'" "send_lsa_packet ip_dst s = Some s' \<Longrightarrow> evolves s s'"
proof -
  have *: "evolves s s'" if "id_of a s = (i, t)" "send_udp_packet b h d t = Some u" "s' = sent_line k b' h' u"
    for i t u a b h d k b' h'
    using evolves_trans [OF evolves_trans [OF evolves_id_of [OF that(1)] evolves_send_udp [OF that(2)]]]
      evolves_fields(1) that(3) by (simp add: sent_line_def)
  show "evolves s s'" if "send_dsa_packet ip_dst s = Some s'"
    using that * by (fastforce simp: send_dsa_packet_def Let_def Option.bind_eq_Some_conv split: prod.splits)
  show "evolves s s'" if "send_lsa_packet ip_dst s = Some s'"
    using that * by (fastforce simp: send_lsa_packet_def Let_def Option.bind_eq_Some_conv split: prod.splits)
qed

lemma evolves_send_icmp [evolve]:
  assumes "send_icmp_packet i s = Some s'"
  shows "evolves s s'"
proof -
  obtain d where "send_frame (Frame_new (of_nat ICMP_SIZE) d) 1 (update_server_information i s) = Some s'"
    using assms by (auto simp: send_icmp_packet_def Option.bind_eq_Some_conv)
  moreover have "si_ip (ping_counted t gw si) = si_ip si" for t gw si
    by (simp add: ping_counted_def Let_def)
  then have "evolves s (update_server_information i s)"
    unfolding update_server_information_def
    by (rule evolves_trans [OF evolves_upd_server evolves_fields(2)])
  ultimately show ?thesis using evolves_trans evolves_send_frame by blast
qed

lemma evolves_receive_loop [evolve]: "receive_loop m n ip_src i s = Some s' \<Longrightarrow> evolves s s'"
proof (induction m n ip_src i s rule: receive_loop.induct)
  case (1 m n ip_src i s)
  show ?case
  proof (cases "int i < n - 4")
    case True
    then obtain t where t: "take_offer m ip_src i s = Some t" "receive_loop m n ip_src (i + 12) t = Some s'"
      using "1.prems" by (auto simp: receive_loop.simps [of m n ip_src i] Option.bind_eq_Some_conv)
    have "evolves s t" using t(1) by (auto simp: take_offer_def Option.bind_eq_Some_conv intro: evolve)
    then show ?thesis using "1.IH" [OF True t] evolves_trans by blast
  next
    case False
    then show ?thesis using "1.prems" evolves_refl by (simp add: receive_loop.simps [of m n ip_src i])
  qed
qed

lemma evolves_receive_advertise [evolve]:
  "receive_advertise_data m n ip_src mac s = Some s' \<Longrightarrow> evolves s s'"
  by (auto simp: receive_advertise_data_def Option.bind_eq_Some_conv intro: evolves_trans evolve)

lemma evolves_receive_ping [evolve]:
  assumes "receive_ping_packet ip t seq s = Some s'"
  shows "evolves s s'"
proof (rule evolves_foldM)
  show "foldM (receive_ping_entry ip t seq) [0..number_of_servers s - 1] s = Some s'"
    using assms by (simp add: receive_ping_packet_def)
  fix i s s' assume "receive_ping_entry ip t seq i s = Some s'"
  then show "evolves s s'"
    using evolves_trans [OF evolves_upd_server [OF ping_answered_fields(1)] evolves_update_learning] evolves_refl
    by (auto simp: receive_ping_entry_def Let_def split: if_splits)
qed

lemma evolves_advertise [evolve]: "advertise_data s = Some s' \<Longrightarrow> evolves s s'"
  by (auto simp: advertise_data_def send_advertise_packet_def Option.bind_eq_Some_conv intro: evolve)

lemma evolves_forward_out [evolve]:
  assumes "forward_out n d port s = Some s'"
  shows "evolves s s'"
proof -
  obtain e q t fr u l where "alloc_port e s = Some (q, t)" "send_frame fr 1 t = Some u" "s' = put_line l u"
    using assms by (auto simp: forward_out_def Option.bind_eq_Some_conv)
  then show ?thesis
    using evolves_trans [OF evolves_trans [OF evolves_alloc_port evolves_send_frame] evolves_fields(1)] by metis
qed

lemma owner_of_default:
  "owner_of (s\<lparr>my_port_to_src_port := (my_port_to_src_port s)
     (q \<mapsto> case my_port_to_src_port s q of Some p \<Rightarrow> p | None \<Rightarrow> 0)\<rparr>) = owner_of s"
  by (rule ext) (auto simp: owner_of_def split: option.splits)

lemma evolves_default_port [evolve]:
  "evolves s (s\<lparr>my_port_to_src_port := (my_port_to_src_port s)
     (q \<mapsto> case my_port_to_src_port s q of Some p \<Rightarrow> p | None \<Rightarrow> 0)\<rparr>)"
  by (rule evolves_same [OF _ _ server_addr_cong _ _ _ _ owner_of_default]) (simp_all add: node_config_def)

lemma evolves_forward_back [evolve]:
  assumes "forward_back n d port owner_ip s = Some s'"
  shows "evolves s s'"
proof -
  let ?s = "s\<lparr>my_port_to_src_port := (my_port_to_src_port s)
     (port \<mapsto> case my_port_to_src_port s port of Some p \<Rightarrow> p | None \<Rightarrow> 0)\<rparr>"
  obtain fr t where "send_frame fr 0 ?s = Some t" "s' = t \<or> (\<exists>l. s' = put_line l t)"
    using assms by (auto simp: forward_back_def Let_def Option.bind_eq_Some_conv split: if_splits)
  then show ?thesis
    using evolves_trans [OF evolves_default_port [of s port] evolves_send_frame] evolves_trans [OF _ evolves_fields(1)]
    by metis
qed

lemma evolves_probe_answered [evolve]:
  assumes "probe_answered d port s = Some s'"
  shows "evolves s s'"
proof -
  define v where "v = (tick s)\<lparr>sent_times := (sent_times s)(port \<mapsto> case sent_times s port of Some t \<Rightarrow> t | None \<Rightarrow> 0)\<rparr>"
  have "s' = v \<or> (\<exists>l. s' = put_line l v)"
    using assms by (auto simp: probe_answered_def Let_def Option.bind_eq_Some_conv tick_def v_def split: if_splits)
  moreover have "evolves s v"
    unfolding v_def by (rule evolves_set_times [OF evolves_fields(2)]) (auto split: option.splits)
  ultimately show ?thesis using evolves_trans [OF _ evolves_fields(1)] by metis
qed

lemma evolves_process_udp [evolve]: "process_udp n d s = Some s' \<Longrightarrow> evolves s s'"
  by (auto simp: process_udp_def Let_def Option.bind_eq_Some_conv split: if_splits option.splits
      intro: evolve evolves_refl)

lemma evolves_processFrame [evolve]:
  assumes "processFrame fr i s = Some s'"
  shows "evolves s s'"
proof -
  let ?s = "frame_logged fr i s"
  have "s' = ?s \<or> (\<exists>ip t seq. receive_ping_packet ip t seq ?s = Some s') \<or> (\<exists>n d. process_udp n d ?s = Some s')"
    using assms by (auto simp: processFrame_def Let_def Option.bind_eq_Some_conv split: if_splits)
  moreover have "evolves s ?s"
    unfolding frame_logged_def by (rule evolves_trans [OF evolves_fields(2,1)])
  ultimately show ?thesis
    using evolves_trans evolves_receive_ping evolves_process_udp by metis
qed

lemma evolves_fold_report [evolve]: "evolves s (fold print_server_information is s)"
  by (rule evolves_report, rule same_but_console_fold, rule lines_same)

lemma evolves_run_command [evolve]:
  assumes "run_command command input s = Some (input', s')"
  shows "evolves s s'"
proof -
  have check: "si_ip (connection_checked si) = si_ip si" for si
    by (simp add: connection_checked_def Let_def)
  have ping: "evolves s s'"
    if "foldM send_icmp_packet [0..number_of_servers s - 1] (check_connections_is_alive s) = Some s'"
    using evolves_trans [OF evolves_for_servers [OF check] evolves_foldM [OF evolves_send_icmp that [unfolded check_connections_is_alive_def]]] .
  have fill: "evolves t (reset_learning_table (fill_forwarding_table t))" for t
    unfolding reset_learning_table_def fill_forwarding_table_def
    by (rule evolves_trans; rule evolves_for_servers; simp add: forwarded_def reset_entry_def)
  show ?thesis
    using assms ping evolves_trans [OF evolves_advertise fill] evolves_fold_report
      evolves_report [OF tables_same(1)] evolves_report [OF tables_same(2)] evolves_send_probe evolves_refl
    by (auto simp: run_command_def Let_def Option.bind_eq_Some_conv split: if_splits prod.splits)
qed

lemma node_step_evolves: "node_step s s' \<Longrightarrow> evolves s s'"
  by (cases rule: node_step.cases) (auto intro: evolve)

lemma node_steps_evolves: "node_steps s s' \<Longrightarrow> evolves s s'"
  by (induction rule: node_steps.induct) (auto intro: evolves_refl evolves_trans node_step_evolves)

section \<open>Properties of reachable states\<close>

lemma frame_logged_fields [simp]:
  "wf_node (frame_logged fr i s) = wf_node s" "src_port (frame_logged fr i s) = src_port s"
  "iface (frame_logged fr i s) = iface s"
  "ip_to_mac (frame_logged fr i s) = ip_to_mac s" "sent_frames (frame_logged fr i s) = sent_frames s"
  "port_to_ip (frame_logged fr i s) = port_to_ip s" "ip_gateway (frame_logged fr i s) = ip_gateway s"
  "mac_gateway (frame_logged fr i s) = mac_gateway s" "sent_times (frame_logged fr i s) = sent_times s"
  by (simp_all add: frame_logged_def put_line_def tick_def wf_node_def wf_servers_def)

lemma frame_logged_owner [simp]: "owner_of (frame_logged fr i s) = owner_of s"
  by (rule owner_of_cong) (simp_all add: frame_logged_def put_line_def tick_def)

text \<open>A valid UDP frame that fills its buffer.\<close>

definition udp_frame :: "u32 \<Rightarrow> u8 list \<Rightarrow> bool" where
  "udp_frame n d \<longleftrightarrow> unat n = length d \<and> length d < 2147483648
     \<and> is_valid_packet (Frame_new n d) = Some True \<and> d ! 23 = 17"

lemma udp_frame_inside: "udp_frame n d \<Longrightarrow> header_inside d \<and> 42 \<le> length d"
  using is_valid_packet_eq [of "Frame_new n d"]
  by (auto simp: udp_frame_def Frame_new_def Let_def valid_udp_def valid_echo_reply_def header_inside_def
      split: if_splits)

lemma processFrame_udp:
  assumes "udp_frame n d"
  shows "processFrame (Frame_new n d) i s = process_udp n d (frame_logged (Frame_new n d) i s)"
proof -
  have "load8 d 23 = Some 17"
    using load8_nth [of 23 d] assms udp_frame_inside [OF assms] by (simp add: udp_frame_def)
  then show ?thesis
    using assms by (simp add: processFrame_def udp_frame_def Let_def Frame_new_def load_bytes_def)
qed

lemma process_forward:
  assumes "load16 d 36 = Some (htons port)" "port = 1000 \<or> port = 2000"
  shows "process_udp n d s = forward_out n d port s"
  using assms by (auto simp: process_udp_def Let_def)

lemma process_back:
  assumes "load16 d 36 = Some (htons q)" "8000 \<le> q" "uint q < src_port s" "port_to_ip s q = Some ip"
  shows "process_udp n d s = forward_back n d q ip s"
proof -
  have "q \<noteq> 5000" "q \<noteq> 1000" "q \<noteq> 2000" using assms(2) by auto
  then show ?thesis using assms by (simp add: process_udp_def Let_def)
qed

text \<open>
  C19: Invariant. In every state the node reaches from a well-formed one, by any interleaving of
  commands and received frames, it is well-formed: at most 1000 servers, two interfaces, complete MAC
  addresses; its configuration is unchanged, its server table has only grown, and no server in it
  has moved or changed its address.
\<close>

theorem node_invariant:
  assumes "wf_node s" "node_steps s s'"
  shows "wf_node s' \<and> number_of_servers s' = number_of_servers s \<and> iface s' = iface s
    \<and> ip_gateway s' = ip_gateway s \<and> mac_gateway s' = mac_gateway s
    \<and> number_of_all_servers s \<le> number_of_all_servers s'
    \<and> (\<forall>i. 0 \<le> i \<and> i < number_of_all_servers s \<longrightarrow> si_ip (server_infoes s' i) = si_ip (server_infoes s i))
    \<and> prefix (sent_frames s) (sent_frames s')"
  using node_steps_evolves [OF assms(2)] assms(1)
  by (simp add: evolves_def node_config_def server_addr_def)

theorem node_invariant_witness:
  "\<exists>s'. node_steps sample_node s' \<and> wf_node s' \<and> sent_frames s' \<noteq> []"
proof -
  obtain s' where s': "advertise_data sample_node = Some s'" "sent_frames s' \<noteq> []"
    using advertise_data_eq [OF wf_sample_node] by auto
  let ?s = "reset_learning_table (fill_forwarding_table s')"
  have "run_command ''advertise'' [] sample_node = Some ([], ?s)" by (simp add: run_command_def s')
  then have "node_steps sample_node ?s" by (rule node_steps.step [OF node_steps.refl node_step.command])
  moreover have "sent_frames ?s \<noteq> []"
    using s'(2) by (simp add: reset_learning_table_def fill_forwarding_table_def for_servers_eq)
  ultimately show ?thesis using node_invariant [OF wf_sample_node] by blast
qed

text \<open>The way back through the port table, for use by other theories.\<close>

lemma nat_return:
  assumes "wf_node s" "ports_ok s" "src_port s < 65536" "udp_frame n1 d1"
    and "load16 d1 36 = Some (htons port)" "port = 1000 \<or> port = 2000"
    and "processFrame (Frame_new n1 d1) i1 s = Some s1" "node_steps s1 s2" "src_port s2 \<le> 65536"
    and "udp_frame n2 d2" "load16 d2 36 = Some (htons (word_of_int (src_port s)))"
    and "ip_to_mac s2 (ntohl (the (load32 d1 26))) = Some peer"
  shows "\<exists>s3 m. processFrame (Frame_new n2 d2) i2 s2 = Some s3 \<and> sent_frames s3 = sent_frames s2 @ [(m, 0)]
    \<and> load32 m 30 = load32 d1 26 \<and> load16 m 36 = load16 d1 34
    \<and> load_bytes m 0 12 = Some (peer @ if_mac (iface s ! 0))
    \<and> same_outside (nat_bytes 30 36) d2 m \<and> checksummed m"
proof -
  let ?q = "word_of_int (src_port s) :: u16" and ?l = "frame_logged (Frame_new n1 d1) i1 s"
  note in1 = udp_frame_inside [OF assms(4)] and in2 = udp_frame_inside [OF assms(10)]
  have len: "unat n1 = length d1" "unat n2 = length d2" using assms(4,10) by (simp_all add: udp_frame_def)
  have r: "8000 \<le> src_port s" "src_port s \<le> 65535" using assms(2,3) by (simp_all add: ports_ok_def)
  have q: "uint ?q = src_port s" using r by (intro uint_port) simp_all
  have "processFrame (Frame_new n1 d1) i1 s = forward_out n1 d1 port ?l"
    using processFrame_udp [OF assms(4)] process_forward [OF assms(5,6)] by simp
  then have out: "owner_of s1 ?q = Some (the (load32 d1 26), the (load16 d1 34))" "src_port s1 = src_port s + 1"
    using forward_out_eq [of ?l d1 n1 ?q port] in1 len(1) r assms(1,7) by auto
  have s01: "evolves s s1" using assms(7) by (rule evolves_processFrame)
  have s12: "evolves s1 s2" using assms(8) by (rule node_steps_evolves)
  have sp: "src_port s1 \<le> src_port s2" using s12 by (simp add: evolves_def)
  then have ok1: "ports_ok s1" using s01 assms(2,9) by (simp add: evolves_def)
  have "?q \<in> used_ports s1" using q r out(2) by (simp add: used_ports_def)
  then have own: "owner_of s2 ?q = Some (the (load32 d1 26), the (load16 d1 34))"
    using s12 ok1 assms(9) out(1) by (simp add: evolves_def ports_kept_def)
  have wf2: "wf_node s2" and cfg: "iface s2 = iface s"
    using s01 s12 assms(1) by (simp_all add: evolves_def node_config_def)
  let ?l2 = "frame_logged (Frame_new n2 d2) i2 s2"
  have "port_to_ip s2 ?q = Some (the (load32 d1 26))"
    using own by (auto simp: owner_of_def split: option.splits)
  moreover have "8000 \<le> ?q" using q r by (simp add: word_le_def)
  ultimately have "processFrame (Frame_new n2 d2) i2 s2 = forward_back n2 d2 ?q (the (load32 d1 26)) ?l2"
    using processFrame_udp [OF assms(10)] process_back [OF assms(11), of ?l2] q out(2) sp by simp
  moreover have "load32 d1 26 = Some (the (load32 d1 26))" "load16 d1 34 = Some (the (load16 d1 34))"
    using load_defined(1) [of 26 d1] load_defined(2) [of 34 d1] in1 by auto
  moreover obtain s3 m where "forward_back n2 d2 ?q (the (load32 d1 26)) ?l2 = Some s3"
    "sent_frames s3 = sent_frames ?l2 @ [(m, 0)]" "same_outside (nat_bytes 30 36) d2 m"
    "load_bytes m 0 12 = Some (peer @ if_mac (iface ?l2 ! 0))"
    "load16 m 36 = Some (the (load16 d1 34))" "load32 m 30 = Some (the (load32 d1 26))" "checksummed m"
    using forward_back_eq [of ?l2 d2 n2 ?q "the (load32 d1 26)" "the (load16 d1 34)" peer]
      wf2 in2 own assms(12) len(2) by auto
  ultimately show ?thesis
    using cfg by (intro exI [of _ s3] exI [of _ m]) simp
qed

text \<open>
  C3: Translation round trip. A node forwards a peer's DSA or LSA packet and then runs on, with any
  commands and frames, while its port counter stays below 65536. When a packet then arrives for the
  port that was taken, the node sends it on to the peer's own address and port, exactly those of the
  first packet.
\<close>

theorem nat_round_trip:
  assumes "wf_node s" "ports_ok s" "src_port s < 65536" "udp_frame n1 d1"
    and "load16 d1 36 = Some (htons port)" "port = 1000 \<or> port = 2000"
    and "processFrame (Frame_new n1 d1) i1 s = Some s1" "node_steps s1 s2" "src_port s2 \<le> 65536"
    and "udp_frame n2 d2" "load16 d2 36 = Some (htons (word_of_int (src_port s)))"
    and "ip_to_mac s2 (ntohl (the (load32 d1 26))) = Some peer"
  shows "\<exists>s3 m. processFrame (Frame_new n2 d2) i2 s2 = Some s3 \<and> sent_frames s3 = sent_frames s2 @ [(m, 0)]
    \<and> load32 m 30 = load32 d1 26 \<and> load16 m 36 = load16 d1 34
    \<and> load_bytes m 0 12 = Some (peer @ if_mac (iface s ! 0))
    \<and> same_outside ({0..<12} \<union> {24..<26} \<union> {30..<34} \<union> {36..<38}) d2 m"
  using nat_return [OF assms, of i2] by (simp add: nat_bytes_def) blast

text \<open>The reply of the server 8.8.4.4, from its port 1000, to the port 8000 that the node takes first.\<close>

definition sample_answer :: "u8 list" where
  "sample_answer = eth_bytes [2, 0, 0, 0, 0, 2] [2, 0, 0, 0, 0, 9]
     @ ip_packet 32 17 0x08080404 0xC0A80102 @ udp_bytes 1000 8000 12 @ probe_payload"

lemma sample_udp_frames: "udp_frame 46 sample_packet" "udp_frame 46 sample_answer"
  unfolding udp_frame_def by (intro conjI; code_simp)+

theorem nat_round_trip_witness:
  "\<exists>s1 s3 m. processFrame (Frame_new 46 sample_packet) 0 sample_node = Some s1
    \<and> processFrame (Frame_new 46 sample_answer) 1 s1 = Some s3 \<and> sent_frames s3 = sent_frames s1 @ [(m, 0)]
    \<and> load32 m 30 = Some (htonl 0x0A000002) \<and> load16 m 36 = Some (htons 8005)"
proof -
  note u1 = sample_udp_frames(1) and u2 = sample_udp_frames(2)
  have p: "load16 sample_packet 36 = Some (htons 1000)" "load16 sample_answer 36 = Some (htons 8000)"
    by code_simp+
  have ok: "ports_ok sample_node" by (simp add: ports_ok_def sample_node_def sm_start_def)
  let ?l = "frame_logged (Frame_new 46 sample_packet) 0 sample_node"
  obtain s1 where s1: "forward_out 46 sample_packet 1000 ?l = Some s1" "src_port s1 = 8001"
    using forward_out_eq [of ?l sample_packet 46 8000 1000] sample_packet wf_sample_node by auto
  have f: "processFrame (Frame_new 46 sample_packet) 0 sample_node = Some s1"
    using processFrame_udp [OF u1] process_forward [OF p(1)] s1(1) by simp
  have "ntohl (the (load32 sample_packet 26)) \<in> dom (ip_to_mac sample_node)"
    by (auto simp: sample_packet sample_node_def sm_start_def)
  then obtain peer where "ip_to_mac s1 (ntohl (the (load32 sample_packet 26))) = Some peer"
    using evolves_processFrame [OF f] by (auto simp: evolves_def)
  from nat_round_trip [OF wf_sample_node ok _ u1 p(1) _ f node_steps.refl _ u2 _ this, of 1] s1(2) p(2) f
  show ?thesis by (auto simp: sample_packet)
qed

section \<open>Commands\<close>

lemma ping_bytes_cong:
  "mac_gateway t = mac_gateway s \<Longrightarrow> iface t = iface s \<Longrightarrow> ping_bytes t si = ping_bytes s si"
  by (simp only: ping_bytes_def gateway_mac_def)

text \<open>Each request reads the clock once, so the \<open>j\<close>th of them has the \<open>j\<close>th reading.\<close>

lemma foldM_send_icmp:
  assumes "wf_node s" "distinct is"
  shows "\<exists>s'. foldM send_icmp_packet is s = Some s' \<and> evolves s s'
    \<and> number_of_all_servers s' = number_of_all_servers s \<and> clock s' = clock s \<and> ticks s' = ticks s + length is
    \<and> sent_frames s' = sent_frames s @ map (\<lambda>i. (ping_bytes s (server_infoes s i), 1)) is
    \<and> (\<forall>i. i \<notin> set is \<longrightarrow> server_infoes s' i = server_infoes s i)
    \<and> (\<forall>j < length is. server_infoes s' (is ! j)
        = ping_counted (clock s (ticks s + j)) (ip_gateway s) (server_infoes s (is ! j)))"
  using assms
proof (induction "is" arbitrary: s)
  case Nil
  then show ?case using evolves_refl by simp
next
  case (Cons i "is")
  let ?t = "(update_server_information i s)\<lparr>sent_frames := sent_frames s @ [(ping_bytes s (server_infoes s i), 1)]\<rparr>"
  have st: "send_icmp_packet i s = Some ?t" by (rule send_icmp_packet_eq [OF Cons.prems(1)])
  then have ev: "evolves s ?t" by (rule evolves_send_icmp)
  have t: "wf_node ?t" "ip_gateway ?t = ip_gateway s" "iface ?t = iface s" "mac_gateway ?t = mac_gateway s"
    using ev Cons.prems(1) by (simp_all add: evolves_def node_config_def)
  have c: "number_of_all_servers ?t = number_of_all_servers s" "clock ?t = clock s" "ticks ?t = Suc (ticks s)"
    by (simp_all add: update_server_information_def tick_def upd_server_def)
  have si: "server_infoes ?t k = (if k = i then ping_counted (clock s (ticks s)) (ip_gateway s) (server_infoes s i)
      else server_infoes s k)" for k
    by (simp add: update_server_information_def tick_def now_def)
  have pb: "ping_bytes ?t si = ping_bytes s si" for si
    by (rule ping_bytes_cong [OF t(4,3)])
  have "map (\<lambda>k. (ping_bytes ?t (server_infoes ?t k), 1)) is
      = map (\<lambda>k. (ping_bytes s (server_infoes s k), 1 :: int)) is"
  proof (intro map_cong refl)
    fix k assume "k \<in> set is"
    then have "k \<noteq> i" using Cons.prems(2) by auto
    then show "(ping_bytes ?t (server_infoes ?t k), 1) = (ping_bytes s (server_infoes s k), 1 :: int)"
      unfolding si pb by simp
  qed simp
  moreover obtain s' where s': "foldM send_icmp_packet is ?t = Some s'" "evolves ?t s'"
    "number_of_all_servers s' = number_of_all_servers ?t" "clock s' = clock ?t \<and> ticks s' = ticks ?t + length is"
    "sent_frames s' = sent_frames ?t @ map (\<lambda>k. (ping_bytes ?t (server_infoes ?t k), 1)) is"
    "\<forall>k. k \<notin> set is \<longrightarrow> server_infoes s' k = server_infoes ?t k"
    "\<forall>j < length is. server_infoes s' (is ! j)
      = ping_counted (clock ?t (ticks ?t + j)) (ip_gateway ?t) (server_infoes ?t (is ! j))"
    using Cons.IH [OF t(1)] Cons.prems(2) by auto
  moreover have "server_infoes s' ((i # is) ! j)
      = ping_counted (clock s (ticks s + j)) (ip_gateway s) (server_infoes s ((i # is) ! j))"
    if "j < length (i # is)" for j
  proof (cases j)
    case 0
    then show ?thesis using s'(6) Cons.prems(2) unfolding si by simp
  next
    case (Suc l)
    then have l: "l < length is" using that by simp
    then have "is ! l \<noteq> i" using Cons.prems(2) by (metis distinct.simps(2) nth_mem)
    then show ?thesis using s'(7) l unfolding t(2) c si by (simp add: Suc)
  qed
  moreover have "server_infoes s' k = server_infoes s k" if "k \<notin> set (i # is)" for k
    using that s'(6) unfolding si by auto
  ultimately show ?case using st evolves_trans [OF ev] by (simp add: c del: nth_Cons_Suc)
qed

lemma ping_command:
  assumes "wf_node s"
  shows "\<exists>s'. run_command ''ping'' input s = Some (input, s') \<and> evolves s s'
    \<and> number_of_all_servers s' = number_of_all_servers s \<and> clock s' = clock s
    \<and> sent_frames s' = sent_frames s @ map (\<lambda>i. (ping_bytes s (server_infoes s i), 1)) [0..number_of_servers s - 1]
    \<and> (\<forall>i. 0 \<le> i \<and> i < number_of_servers s \<longrightarrow> server_infoes s' i
        = silent_ping (ip_gateway s) (clock s (ticks s + nat i)) (server_infoes s i))"
proof -
  let ?c = "check_connections_is_alive s" and ?is = "[0..number_of_servers s - 1]"
  have ci: "si_ip (connection_checked si) = si_ip si" for si
    by (simp add: connection_checked_def Let_def)
  then have ev: "evolves s ?c" unfolding check_connections_is_alive_def by (rule evolves_for_servers)
  have c: "wf_node ?c" "number_of_servers ?c = number_of_servers s" "ip_gateway ?c = ip_gateway s"
    "sent_frames ?c = sent_frames s" "iface ?c = iface s" "mac_gateway ?c = mac_gateway s"
    using ev assms by (simp_all add: evolves_def node_config_def check_connections_is_alive_def for_servers_eq)
  have k: "number_of_all_servers ?c = number_of_all_servers s" "clock ?c = clock s" "ticks ?c = ticks s"
    by (simp_all add: check_connections_is_alive_def for_servers_eq)
  have si: "server_infoes ?c i = connection_checked (server_infoes s i)" if "0 \<le> i" "i < number_of_servers s" for i
    using that by (simp add: check_connections_is_alive_def for_servers_eq)
  have "ping_bytes ?c (connection_checked si) = ping_bytes s si" for si
    unfolding ping_bytes_cong [OF c(6,5)] by (simp add: ping_bytes_def connection_checked_def Let_def)
  then have frames: "map (\<lambda>i. (ping_bytes ?c (server_infoes ?c i), 1)) ?is
      = map (\<lambda>i. (ping_bytes s (server_infoes s i), 1 :: int)) ?is"
    by (intro map_cong refl) (auto simp: si)
  obtain s' where s': "foldM send_icmp_packet ?is ?c = Some s'" "evolves ?c s'"
    "number_of_all_servers s' = number_of_all_servers ?c" "clock s' = clock ?c"
    "sent_frames s' = sent_frames ?c @ map (\<lambda>i. (ping_bytes ?c (server_infoes ?c i), 1)) ?is"
    "\<forall>j < length ?is. server_infoes s' (?is ! j)
      = ping_counted (clock ?c (ticks ?c + j)) (ip_gateway ?c) (server_infoes ?c (?is ! j))"
    using foldM_send_icmp [OF c(1), of ?is] by auto
  moreover have "run_command ''ping'' input s = Some (input, s')"
    by (simp add: run_command_def s'(1))
  moreover have "server_infoes s' i = silent_ping (ip_gateway s) (clock s (ticks s + nat i)) (server_infoes s i)"
    if "0 \<le> i" "i < number_of_servers s" for i
  proof -
    have "nat i < length ?is" "?is ! nat i = i" using that by (simp_all add: nth_upto)
    with s'(6) show ?thesis unfolding c(3) k silent_ping_def si [OF that, symmetric] by metis
  qed
  ultimately show ?thesis using frames c(4) k evolves_trans [OF ev] by simp
qed

text \<open>
  The \<open>ping\<close> command on a well-formed node returns, sends one echo request per configured server,
  in order, through the public interface, and has on each entry the effect of a check followed by a
  ping.
\<close>

theorem ping_command_effect:
  assumes "wf_node s"
  shows "\<exists>s'. run_command ''ping'' input s = Some (input, s')
    \<and> sent_frames s' = sent_frames s @ map (\<lambda>i. (ping_bytes s (server_infoes s i), 1)) [0..number_of_servers s - 1]
    \<and> (\<forall>i. 0 \<le> i \<and> i < number_of_servers s \<longrightarrow>
        (\<exists>t. server_infoes s' i = ping_counted t (ip_gateway s) (connection_checked (server_infoes s i))))"
  using ping_command [OF assms, of input] unfolding silent_ping_def by auto

theorem ping_command_effect_witness:
  "\<exists>s'. run_command ''ping'' [''stats''] sample_node = Some ([''stats''], s')
    \<and> length (sent_frames s') = 1"
  using ping_command_effect [OF wf_sample_node, of "[''stats'']"] by auto

text \<open>
  End of input. When the input of the node ends after a \<open>ping\<close> command, the command variable
  keeps its value and the loop never stops: every further round is another \<open>ping\<close>, so \<open>n\<close> rounds send
  \<open>n\<close> echo requests to each server.
\<close>

theorem end_of_input_repeats_ping:
  assumes "wf_node s"
  shows "\<exists>s'. run_rounds n (''ping'', [], s) = Some (''ping'', [], s')
    \<and> length (sent_frames s') = length (sent_frames s) + n * nat (number_of_servers s)"
  using assms
proof (induction n arbitrary: s)
  case (Suc n)
  obtain t where t: "run_command ''ping'' [] s = Some ([], t)" "evolves s t"
    "sent_frames t = sent_frames s @ map (\<lambda>i. (ping_bytes s (server_infoes s i), 1)) [0..number_of_servers s - 1]"
    using ping_command [OF Suc.prems] by blast
  have "wf_node t" "number_of_servers t = number_of_servers s"
    using t(2) Suc.prems by (simp_all add: evolves_def node_config_def)
  then obtain s' where "run_rounds n (''ping'', [], t) = Some (''ping'', [], s')"
    "length (sent_frames s') = length (sent_frames t) + n * nat (number_of_servers s)"
    using Suc.IH [of t] by auto
  then show ?case using t(1,3) by (auto simp: run_round_def)
qed simp

theorem end_of_input_repeats_ping_witness:
  "\<exists>s'. run_rounds 1000 (''ping'', [], sample_node) = Some (''ping'', [], s') \<and> length (sent_frames s') = 1000"
  using end_of_input_repeats_ping [OF wf_sample_node, of 1000] by simp

lemma advertise_command:
  assumes "wf_node s" "3 \<le> pad s"
  shows "\<exists>t. advertise_data s = Some t \<and> server_infoes t = server_infoes s \<and> ip_gateway t = ip_gateway s
    \<and> number_of_all_servers t = number_of_all_servers s \<and> length (sent_frames t) = length (sent_frames s) + 1"
  using advertise_data_eq [OF assms] by simp

text \<open>
  The \<open>advertise\<close> command on a well-formed node returns and sends one frame; every server's
  forwarding table takes over the next hops learned since the last such command, and its learning
  table starts again from the node's own connection through the gateway.
\<close>

theorem advertise_command_effect:
  assumes "wf_node s" "3 \<le> pad s"
  shows "\<exists>s'. run_command ''advertise'' input s = Some (input, s')
    \<and> length (sent_frames s') = length (sent_frames s) + 1
    \<and> (\<forall>i. 0 \<le> i \<and> i < number_of_all_servers s \<longrightarrow>
        ip_next_hop_rtt (forwarding_table (server_infoes s' i)) = ip_next_hop_rtt (learning_table (server_infoes s i))
      \<and> ip_next_hop_lost (forwarding_table (server_infoes s' i)) = ip_next_hop_lost (learning_table (server_infoes s i))
      \<and> rtt_route (learning_table (server_infoes s' i)) = (ip_gateway s, si_rtt_time (server_infoes s i))
      \<and> loss_route (learning_table (server_infoes s' i)) = (ip_gateway s, ping_lost_rate (server_infoes s i)))"
proof -
  obtain t where t: "advertise_data s = Some t" "server_infoes t = server_infoes s" "ip_gateway t = ip_gateway s"
    "number_of_all_servers t = number_of_all_servers s" "length (sent_frames t) = length (sent_frames s) + 1"
    using advertise_command [OF assms] by blast
  let ?s' = "reset_learning_table (fill_forwarding_table t)"
  have "run_command ''advertise'' input s = Some (input, ?s')" by (simp add: run_command_def t(1))
  then show ?thesis
    by (intro exI [of _ ?s'])
      (simp add: reset_learning_table_def fill_forwarding_table_def for_servers_eq t(2-5) forwarded_def
        reset_entry_def rtt_route_def loss_route_def)
qed

theorem advertise_command_effect_witness:
  "\<exists>s'. run_command ''advertise'' [] sample_node = Some ([], s')
    \<and> rtt_route (learning_table (server_infoes s' 0)) = (ip_gateway sample_node, 20)"
  using advertise_command_effect [OF wf_sample_node, of "[]"] by (force simp: sample_server_def)

end
