(* ===== verification/Transport.thy ===== *)
theory Transport
  imports Machine "HOL-Library.While_Combinator"
begin

text \<open>
  The client framework (base/cf.cpp), its state and its transport: \<open>sendOrReceive\<close> moves a number of
  bytes over a stream socket, however the network cuts them, and \<open>sendFrame\<close>,
  \<open>notifyChangeOfIPAddress\<close> and \<open>notifyChangeOfNetmask\<close> send messages of the running simulation. The
  lemmas reduce the loop over \<open>send\<close> and \<open>recv\<close> to the byte streams it moves.
\<close>

section \<open>Runs\<close>

text \<open>
  How a call may fail to return: undefined behaviour, a loop or a system call that never ends, or
  the end of the process.
\<close>

datatype stop = Undefined | Forever | Exit int

type_synonym 'a run = "stop + 'a"

definition and_then :: "'a run \<Rightarrow> ('a \<Rightarrow> 'b run) \<Rightarrow> 'b run" where
  "and_then r k = (case r of Inl e \<Rightarrow> Inl e | Inr x \<Rightarrow> k x)"

definition run_of :: "'a option \<Rightarrow> 'a run" where
  "run_of x = (case x of None \<Rightarrow> Inl Undefined | Some y \<Rightarrow> Inr y)"

text \<open>\<open>if (!r) return false;\<close> before the rest \<open>k\<close> of a function.\<close>

definition check_ok :: "(bool \<times> 's) run \<Rightarrow> ('s \<Rightarrow> (bool \<times> 's) run) \<Rightarrow> (bool \<times> 's) run" where
  "check_ok r k = and_then r (\<lambda>(ok, s). if ok then k s else Inr (False, s))"

lemma and_then_simps [simp]:
  "and_then (Inl e) k = Inl e" "and_then (Inr x) k = k x"
  by (simp_all add: and_then_def)

lemma run_of_simps [simp]: "run_of None = Inl Undefined" "run_of (Some x) = Inr x"
  by (simp_all add: run_of_def)

lemma check_ok_simps [simp]:
  "check_ok (Inl e) k = Inl e" "check_ok (Inr (True, s)) k = k s"
  "check_ok (Inr (False, s)) k = Inr (False, s)"
  by (simp_all add: check_ok_def)

lemma and_then_eq_Inr: "and_then r k = Inr y \<longleftrightarrow> (\<exists>x. r = Inr x \<and> k x = Inr y)"
  by (cases r) auto

lemma run_of_eq_Inr [simp]: "run_of x = Inr y \<longleftrightarrow> x = Some y"
  by (cases x) auto

lemma check_ok_eq_True: "check_ok r k = Inr (True, t) \<longleftrightarrow> (\<exists>s. r = Inr (True, s) \<and> k s = Inr (True, t))"
  by (auto simp: check_ok_def and_then_eq_Inr split: if_splits)

section \<open>The state of the framework\<close>

text \<open>
  What the peer of the socket will send: bytes that one \<open>recv\<close> may deliver together, the orderly
  end of the stream, after which \<open>recv\<close> gives 0 forever, or an error of \<open>recv\<close>.
\<close>

datatype chunk = Data "u8 list" | Closed | Failed

text \<open>
  The members of \<open>ClientFramework\<close> and the environment of the process: \<open>rx\<close>, what is still to come
  on the socket; \<open>tx\<close>, how many bytes the next calls of \<open>send\<close> take, negative for an error, all of
  them once the list is empty; \<open>wire\<close>, the bytes sent; \<open>fresh_index\<close>, what the allocator leaves in the
  \<open>index\<close> of a new interface; whether \<open>sigaction\<close> and \<open>pthread_create\<close> succeed; \<open>out\<close>, the text on
  the console. The members \<open>server.sin_port\<close> and \<open>server.sin_addr\<close> hold \<open>port\<close> and \<open>ip\<close> in network
  order.
\<close>

record cf =
  connected :: bool
  progName :: string
  cf_ip :: u32
  cf_port :: u16
  sin_addr :: u32
  sin_port :: u16
  mapName :: string
  nodeName :: string
  userName :: string
  password :: string
  creatorId :: string
  needNewMap :: int
  cf_machine :: "machine option"
  sentBytes :: u64
  receivedBytes :: u64
  initialized :: bool
  buffer :: "u8 list"
  rx :: "chunk list"
  tx :: "int list"
  wire :: "u8 list"
  fresh_index :: "nat \<Rightarrow> int"
  sigaction_ok :: bool
  thread_ok :: bool
  out :: string

definition FRAME_BUFFER_SIZE :: nat where
  "FRAME_BUFFER_SIZE = 1524"

definition say :: "string \<Rightarrow> cf \<Rightarrow> cf" where
  "say str s = s\<lparr>out := out s @ str\<rparr>"

definition endl :: string where
  "endl = [CHR 0x0A]"

definition say_line :: "string \<Rightarrow> cf \<Rightarrow> cf" where
  "say_line str s = say (str @ endl) s"

lemma say_fields [simp]:
  "connected (say x s) = connected s" "cf_ip (say x s) = cf_ip s" "cf_port (say x s) = cf_port s"
  "mapName (say x s) = mapName s" "nodeName (say x s) = nodeName s" "userName (say x s) = userName s"
  "password (say x s) = password s" "creatorId (say x s) = creatorId s" "needNewMap (say x s) = needNewMap s"
  "cf_machine (say x s) = cf_machine s" "buffer (say x s) = buffer s" "rx (say x s) = rx s"
  "tx (say x s) = tx s" "wire (say x s) = wire s"
  "fresh_index (say x s) = fresh_index s" "sin_addr (say x s) = sin_addr s" "sin_port (say x s) = sin_port s"
  "sigaction_ok (say x s) = sigaction_ok s" "thread_ok (say x s) = thread_ok s"
  "sentBytes (say x s) = sentBytes s" "receivedBytes (say x s) = receivedBytes s"
  by (simp_all add: say_def)

lemma say_line_fields [simp]:
  "connected (say_line x s) = connected s" "cf_ip (say_line x s) = cf_ip s" "cf_port (say_line x s) = cf_port s"
  "mapName (say_line x s) = mapName s" "nodeName (say_line x s) = nodeName s" "userName (say_line x s) = userName s"
  "password (say_line x s) = password s" "creatorId (say_line x s) = creatorId s" "needNewMap (say_line x s) = needNewMap s"
  "cf_machine (say_line x s) = cf_machine s" "buffer (say_line x s) = buffer s" "rx (say_line x s) = rx s"
  "tx (say_line x s) = tx s" "wire (say_line x s) = wire s"
  "fresh_index (say_line x s) = fresh_index s" "sin_addr (say_line x s) = sin_addr s" "sin_port (say_line x s) = sin_port s"
  "sigaction_ok (say_line x s) = sigaction_ok s" "thread_ok (say_line x s) = thread_ok s"
  "sentBytes (say_line x s) = sentBytes s" "receivedBytes (say_line x s) = receivedBytes s"
  by (simp_all add: say_line_def)

text \<open>\<open>return false\<close> after \<open>[Failed]\<close> and a message.\<close>

definition fail_with :: "string \<Rightarrow> cf \<Rightarrow> (bool \<times> cf) run" where
  "fail_with msg s = Inr (False, say_line msg (say_line ''[Failed]'' s))"

section \<open>Sending and receiving\<close>

text \<open>
  The loops over \<open>recv\<close> and \<open>send\<close>, by recursion on what the socket does. A loop that does not end
  is \<open>Inl Forever\<close>; \<open>recv_loop_while\<close> below derives it from the rounds of the loop.
\<close>

fun recv_loop :: "u8 list \<Rightarrow> nat \<Rightarrow> nat \<Rightarrow> chunk list \<Rightarrow> (bool \<times> u8 list \<times> chunk list) run" where
  "recv_loop buf pos n [] = (if n = 0 then Inr (True, buf, []) else Inl Forever)"
| "recv_loop buf pos n (Data bs # cs) =
     and_then (run_of (store_bytes buf pos (take n bs))) (\<lambda>buf.
       if length bs < n then recv_loop buf (pos + length bs) (n - length bs) cs
       else Inr (True, buf, (if n < length bs then Data (drop n bs) # cs else cs)))"
| "recv_loop buf pos n (Closed # cs) = (if n = 0 then Inr (True, buf, Closed # cs) else Inl Forever)"
| "recv_loop buf pos n (Failed # cs) = Inr (if n = 0 then (True, buf, Failed # cs) else (False, buf, cs))"

fun send_loop :: "u8 list \<Rightarrow> int list \<Rightarrow> u8 list \<Rightarrow> bool \<times> int list \<times> u8 list" where
  "send_loop bs [] w = (True, [], w @ bs)"
| "send_loop bs (count # cs) w =
     (if count < 0 then (False, cs, w)
      else if nat count < length bs then send_loop (drop (nat count) bs) cs (w @ take (nat count) bs)
      else (True, cs, w @ bs))"

text \<open>The overload of \<open>sendOrReceive\<close> on any memory \<open>buf\<close>; it returns the memory.\<close>

definition transfer ::
  "bool \<Rightarrow> int \<Rightarrow> nat \<Rightarrow> u8 list \<Rightarrow> cf \<Rightarrow> (bool \<times> u8 list \<times> cf) run" where
  "transfer sendIt errorCode n buf s =
     and_then
       (if sendIt
        then and_then (run_of (load_bytes buf 0 n)) (\<lambda>bs.
          let (ok, txs, w) = send_loop bs (tx s) (wire s) in Inr (ok, buf, s\<lparr>tx := txs, wire := w\<rparr>))
        else and_then (recv_loop buf 0 n (rx s)) (\<lambda>(ok, buf, cs). Inr (ok, buf, s\<lparr>rx := cs\<rparr>)))
       (\<lambda>(ok, buf, s).
          if ok then Inr (True, buf, s)
          else if errorCode = - 1 then Inr (False, buf, s)
          else Inr (False, buf, say_line (''+++ Initial negotiations failed. [error code ''
                      @ show_int errorCode @ '']'') (say_line ''[Failed]'' s)))"

text \<open>The overload on the framework's own buffer.\<close>

definition sendOrReceive :: "bool \<Rightarrow> int \<Rightarrow> nat \<Rightarrow> cf \<Rightarrow> (bool \<times> cf) run" where
  "sendOrReceive sendIt errorCode n s =
     and_then (transfer sendIt errorCode n (buffer s) s) (\<lambda>(ok, buf, s). Inr (ok, s\<lparr>buffer := buf\<rparr>))"

section \<open>The rounds of the receiving loop\<close>

text \<open>
  One round of the receiving loop on \<open>buf\<close>, \<open>pos\<close>, \<open>size\<close> and what the socket does: \<open>Inl\<close> of the next
  round's, or \<open>Inr\<close> of the result. When \<open>recv\<close> gives 0, neither \<open>pos\<close> nor \<open>size\<close> changes; a \<open>recv\<close>
  that never returns is a round that changes nothing.
\<close>

type_synonym recv_state = "u8 list \<times> nat \<times> nat \<times> chunk list"

fun recv_turn :: "recv_state \<Rightarrow> recv_state + (bool \<times> u8 list \<times> chunk list) run" where
  "recv_turn (buf, pos, n, []) = Inl (buf, pos, n, [])"
| "recv_turn (buf, pos, n, Data bs # cs) = (case store_bytes buf pos (take n bs) of
     None \<Rightarrow> Inr (Inl Undefined)
   | Some buf \<Rightarrow> (let count = min n (length bs) in
       if count < n then Inl (buf, pos + count, n - count, cs)
       else Inr (Inr (True, buf, (if count < length bs then Data (drop n bs) # cs else cs)))))"
| "recv_turn (buf, pos, n, Closed # cs) = Inl (buf, pos, n, Closed # cs)"
| "recv_turn (buf, pos, n, Failed # cs) = Inr (Inr (False, buf, cs))"

definition recv_while :: "recv_state \<Rightarrow> (recv_state + (bool \<times> u8 list \<times> chunk list) run) option" where
  "recv_while x = while_option isl (\<lambda>r. recv_turn (projl r)) (Inl x)"

lemma recv_while_turn: "recv_while x = (case recv_turn x of Inl y \<Rightarrow> recv_while y | Inr r \<Rightarrow> Some (Inr r))"
proof -
  have "while_option isl (\<lambda>r. recv_turn (projl r)) (Inr r) = Some (Inr r)" for r
    by (subst while_option_unfold) simp
  then show ?thesis
    unfolding recv_while_def by (subst while_option_unfold) (simp split: sum.split)
qed

lemma recv_while_stuck:
  assumes "recv_turn x = Inl x"
  shows "recv_while x = None"
proof (rule ccontr)
  assume "recv_while x \<noteq> None"
  then obtain r where r: "while_option isl (\<lambda>r. recv_turn (projl r)) (Inl x) = Some r"
    by (auto simp: recv_while_def)
  have "r = Inl x" by (rule while_option_rule [where P = "\<lambda>r. r = Inl x", OF _ r]) (simp_all add: assms)
  then show False using while_option_stop [OF r] by simp
qed

text \<open>The loop ends exactly if \<open>recv_loop\<close> is not \<open>Inl Forever\<close>, and then with its result.\<close>

lemma recv_loop_while:
  "0 < n \<Longrightarrow> recv_loop buf pos n cs = (case recv_while (buf, pos, n, cs) of Some (Inr r) \<Rightarrow> r | _ \<Rightarrow> Inl Forever)"
proof (induction buf pos n cs rule: recv_loop.induct)
  case (2 buf pos n bs cs)
  show ?case
  proof (cases "store_bytes buf pos (take n bs)")
    case None
    then show ?thesis by (subst recv_while_turn) simp
  next
    case (Some m)
    then show ?thesis using 2 by (subst recv_while_turn) (auto simp: Let_def min_def)
  qed
next
  case (4 buf pos n cs)
  then show ?case by (subst recv_while_turn) simp
qed (simp_all add: recv_while_stuck)

section \<open>The streams behind the loops\<close>

text \<open>The bytes that arrive before the stream ends or fails, and the end.\<close>

fun pending :: "chunk list \<Rightarrow> u8 list" where
  "pending (Data bs # cs) = bs @ pending cs"
| "pending cs = []"

fun ending :: "chunk list \<Rightarrow> chunk list" where
  "ending (Data bs # cs) = ending cs"
| "ending cs = cs"

lemma store_bytes_append:
  assumes "store_bytes m i xs = Some m'"
  shows "store_bytes m' (i + length xs) ys = store_bytes m i (xs @ ys)"
  using assms by (auto simp: store_bytes_def ac_simps split: if_splits)

text \<open>However the stream is cut, a receive of \<open>n\<close> bytes takes the next \<open>n\<close> bytes of it.\<close>

lemma recv_loop_enough:
  assumes "n \<le> length (pending cs)" "pos + n \<le> length buf"
  shows "\<exists>cs'. recv_loop buf pos n cs
      = Inr (True, take pos buf @ take n (pending cs) @ drop (pos + n) buf, cs')
    \<and> pending cs' = drop n (pending cs) \<and> ending cs' = ending cs"
  using assms
proof (induction buf pos n cs rule: recv_loop.induct)
  case (2 buf pos n bs cs)
  let ?buf = "take pos buf @ take n bs @ drop (pos + length (take n bs)) buf"
  have st: "store_bytes buf pos (take n bs) = Some ?buf"
    using 2(3) by (auto simp: store_bytes_def min_def)
  show ?case
  proof (cases "length bs < n")
    case True
    then have a: "n - length bs \<le> length (pending cs)" "pos + length bs + (n - length bs) \<le> length ?buf"
      using 2(2,3) by auto
    have e: "take (pos + length bs) ?buf @ take (n - length bs) (pending cs) @ drop (pos + length bs + (n - length bs)) ?buf
        = take pos buf @ take n (pending (Data bs # cs)) @ drop (pos + n) buf"
      using True 2(3) by (auto simp: ac_simps)
    from 2(1) [OF True a] True st show ?thesis unfolding e by auto
  next
    case False
    with st show ?thesis by auto
  qed
qed auto

text \<open>If the stream ends before, a receive never returns; if it fails before, it returns false.\<close>

lemma recv_loop_short:
  assumes "length (pending cs) < n" "pos + length (pending cs) \<le> length buf"
  shows "recv_loop buf pos n cs = (case ending cs of Failed # cs' \<Rightarrow>
     Inr (False, take pos buf @ pending cs @ drop (pos + length (pending cs)) buf, cs') | _ \<Rightarrow> Inl Forever)"
  using assms
proof (induction buf pos n cs rule: recv_loop.induct)
  case (2 buf pos n bs cs)
  let ?buf = "take pos buf @ bs @ drop (pos + length bs) buf"
  have bs: "length bs < n" "take n bs = bs" and fit: "pos + length bs \<le> length buf"
    using 2(2,3) by auto
  have st: "store_bytes buf pos bs = Some ?buf" using fit by (simp add: store_bytes_def)
  have a: "length (pending cs) < n - length bs" "pos + length bs + length (pending cs) \<le> length ?buf"
    using 2(2,3) by auto
  have e: "take (pos + length bs) ?buf @ pending cs @ drop (pos + length bs + length (pending cs)) ?buf
      = take pos buf @ pending (Data bs # cs) @ drop (pos + length (pending (Data bs # cs))) buf"
    using 2(3) by (auto simp: ac_simps)
  from 2(1) [OF bs(1) a] bs st show ?case unfolding e by simp
qed auto

text \<open>Bytes that do not fit are written past the buffer.\<close>

lemma recv_loop_overrun:
  assumes "pos \<le> length buf" "length buf - pos < min n (length (pending cs))"
  shows "recv_loop buf pos n cs = Inl Undefined"
  using assms
proof (induction buf pos n cs rule: recv_loop.induct)
  case (2 buf pos n bs cs)
  show ?case
  proof (cases "pos + length (take n bs) \<le> length buf")
    case True
    then obtain buf' where b: "store_bytes buf pos (take n bs) = Some buf'" "length buf' = length buf"
      by (auto simp: store_bytes_def)
    have lt: "length bs < n"
    proof (rule ccontr)
      assume "\<not> length bs < n"
      then have "length (take n bs) = n" by simp
      then show False using True 2(3) by simp
    qed
    then have "take n bs = bs" by simp
    then have "pos + length bs \<le> length buf'" using True b by simp
    moreover have "length buf' - (pos + length bs) < min (n - length bs) (length (pending cs))"
      using 2(3) lt b(2) \<open>pos + length bs \<le> length buf'\<close> by auto
    ultimately have "recv_loop buf' (pos + length bs) (n - length bs) cs = Inl Undefined"
      by (rule 2(1) [OF lt])
    then show ?thesis using b lt by simp
  next
    case False
    then show ?thesis by (simp add: store_bytes_def)
  qed
qed auto

lemma recv_loop_consumes:
  assumes "recv_loop buf pos n cs = Inr (True, buf', cs')"
  shows "n + length (pending cs') = length (pending cs) \<and> ending cs' = ending cs \<and> length buf' = length buf"
  using assms
proof (induction buf pos n cs rule: recv_loop.induct)
  case (2 buf pos n bs cs)
  obtain b where b: "store_bytes buf pos (take n bs) = Some b" "length b = length buf"
    using 2(2) by (auto simp: and_then_eq_Inr dest: store_bytes_length)
  show ?case
  proof (cases "length bs < n")
    case True
    with 2 b have "recv_loop b (pos + length bs) (n - length bs) cs = Inr (True, buf', cs')" by simp
    from 2(1) [OF True this] True b show ?thesis by simp linarith
  next
    case False
    with 2(2) b show ?thesis by auto
  qed
qed (auto split: if_splits)

lemma send_loop_all:
  "\<forall>c\<in>set cs. 0 \<le> c \<Longrightarrow> \<exists>cs'. send_loop bs cs w = (True, cs', w @ bs) \<and> set cs' \<subseteq> set cs"
proof (induction bs cs w rule: send_loop.induct)
  case (2 bs c cs w)
  show ?case
  proof (cases "nat c < length bs")
    case True
    with 2 obtain cs' where "send_loop (drop (nat c) bs) cs (w @ take (nat c) bs)
        = (True, cs', (w @ take (nat c) bs) @ drop (nat c) bs)" "set cs' \<subseteq> set cs" by auto
    with True 2(2) show ?thesis by auto
  next
    case False
    with 2(2) show ?thesis by auto
  qed
qed auto

text \<open>Whatever happens, a prefix is sent.\<close>

lemma send_loop_prefix: "send_loop bs cs w = (ok, cs', w') \<Longrightarrow> \<exists>k. w' = w @ take k bs \<and> (ok \<longrightarrow> length bs \<le> k)"
proof (induction bs cs w rule: send_loop.induct)
  case (1 bs w)
  then show ?case by (intro exI [of _ "length bs"]) auto
next
  case (2 bs c cs w)
  consider "c < 0" | "0 \<le> c" "nat c < length bs" | "0 \<le> c" "length bs \<le> nat c" by linarith
  then show ?case
  proof cases
    case 1
    then show ?thesis using 2 by (intro exI [of _ 0]) auto
  next
    case b: 2
    then obtain k where "w' = (w @ take (nat c) bs) @ take k (drop (nat c) bs)" "ok \<longrightarrow> length bs - nat c \<le> k"
      using 2 by fastforce
    then show ?thesis using b by (intro exI [of _ "nat c + k"]) (auto simp: take_add)
  next
    case 3
    then show ?thesis using 2 by (intro exI [of _ "length bs"]) auto
  qed
qed

section \<open>Streams in canonical form\<close>

text \<open>A stream that delivers the bytes \<open>p\<close> as one chunk and then goes on with \<open>e\<close>.\<close>

definition stream_of :: "u8 list \<Rightarrow> chunk list \<Rightarrow> chunk list" where
  "stream_of p e = (if p = [] then e else Data p # e)"

lemma pending_stream_of [simp]: "pending (stream_of p e) = p @ pending e"
  by (simp add: stream_of_def)

lemma ending_stream_of [simp]: "ending (stream_of p e) = ending e"
  by (simp add: stream_of_def)

lemma recv_loop_stream_of:
  assumes "length xs = n" "0 < n" "pos + n \<le> length buf"
  shows "recv_loop buf pos n (stream_of (xs @ ys) e)
    = Inr (True, take pos buf @ xs @ drop (pos + n) buf, stream_of ys e)"
proof -
  have "xs @ ys \<noteq> []" using assms by auto
  then show ?thesis using assms by (auto simp: stream_of_def store_bytes_def)
qed

lemma receive_stream_of:
  assumes "length xs = n" "0 < n" "n \<le> length (buffer s)"
  shows "sendOrReceive False ec n (s\<lparr>rx := stream_of (xs @ ys) e\<rparr>)
    = Inr (True, s\<lparr>buffer := xs @ drop n (buffer s), rx := stream_of ys e\<rparr>)"
  using recv_loop_stream_of [of xs n 0 "buffer s" ys e] assms
  by (simp add: sendOrReceive_def transfer_def)

section \<open>Sending without errors\<close>

text \<open>A socket that accepts bytes, possibly a few at a time.\<close>

definition can_send :: "cf \<Rightarrow> bool" where
  "can_send s \<longleftrightarrow> (\<forall>c\<in>set (tx s). 0 \<le> c)"

text \<open>\<open>bs\<close> has been sent, nothing else has changed.\<close>

definition sent :: "u8 list \<Rightarrow> cf \<Rightarrow> cf \<Rightarrow> bool" where
  "sent bs s t \<longleftrightarrow> can_send t \<and> t = s\<lparr>tx := tx t, wire := wire s @ bs\<rparr>"

lemma transfer_send:
  assumes "can_send s" "n \<le> length mem"
  shows "\<exists>t. transfer True ec n mem s = Inr (True, mem, t) \<and> sent (take n mem) s t"
proof -
  obtain cs where "send_loop (take n mem) (tx s) (wire s) = (True, cs, wire s @ take n mem)" "set cs \<subseteq> set (tx s)"
    using send_loop_all [of "tx s" "take n mem" "wire s"] assms(1) by (auto simp: can_send_def)
  then show ?thesis using assms
    by (auto simp: transfer_def load_bytes_def sent_def can_send_def)
qed

lemma sent_trans: "sent xs s t \<Longrightarrow> sent ys t u \<Longrightarrow> sent (xs @ ys) s u"
proof -
  assume 1: "sent xs s t" and 2: "sent ys t u"
  obtain a where "t = s\<lparr>tx := a, wire := wire s @ xs\<rparr>" using 1 by (auto simp: sent_def)
  moreover obtain b where "u = t\<lparr>tx := b, wire := wire t @ ys\<rparr>" using 2 by (auto simp: sent_def)
  ultimately show ?thesis using 2 by (simp add: sent_def)
qed

lemma send_sent:
  assumes "can_send s" "n \<le> length (buffer s)"
  shows "\<exists>t. sendOrReceive True ec n s = Inr (True, t) \<and> sent (take n (buffer s)) s t"
proof -
  obtain t where t: "transfer True ec n (buffer s) s = Inr (True, buffer s, t)" "sent (take n (buffer s)) s t"
    using transfer_send [OF assms] by blast
  obtain a where "t = s\<lparr>tx := a, wire := wire s @ take n (buffer s)\<rparr>" using t(2) by (auto simp: sent_def)
  then have "buffer t = buffer s" by simp
  then have "t\<lparr>buffer := buffer s\<rparr> = t" by simp
  then show ?thesis using t by (simp add: sendOrReceive_def)
qed

lemma receive_next:
  assumes "rx s = stream_of (xs @ ys) e" "length xs = n" "0 < n" "n \<le> length (buffer s)"
  shows "sendOrReceive False ec n s = Inr (True, s\<lparr>buffer := xs @ drop n (buffer s), rx := stream_of ys e\<rparr>)"
proof -
  have "s = s\<lparr>rx := stream_of (xs @ ys) e\<rparr>" using assms(1) by simp
  then show ?thesis using receive_stream_of [OF assms(2-4), of ec ys e] by argo
qed

section \<open>Chunking does not matter\<close>

text \<open>
  Two states of the framework are alike if they differ only in how the bytes to come are cut into
  chunks; two runs agree if they end alike.
\<close>

definition alike :: "cf \<Rightarrow> cf \<Rightarrow> bool" where
  "alike s t \<longleftrightarrow> t = s\<lparr>rx := rx t\<rparr> \<and> pending (rx t) = pending (rx s) \<and> ending (rx t) = ending (rx s)"

definition agree :: "(bool \<times> cf) run \<Rightarrow> (bool \<times> cf) run \<Rightarrow> bool" where
  "agree r r' \<longleftrightarrow> (case r of Inl e \<Rightarrow> r' = Inl e
     | Inr (ok, s) \<Rightarrow> (\<exists>t. r' = Inr (ok, t) \<and> alike s t))"

named_theorems chunking \<open>operations whose outcome does not depend on the chunks\<close>

lemma alike_refl [simp]: "alike s s"
  by (simp add: alike_def)

lemma alikeI: "pending cs = pending (rx s) \<Longrightarrow> ending cs = ending (rx s) \<Longrightarrow> alike s (s\<lparr>rx := cs\<rparr>)"
  by (simp add: alike_def)

lemma alikeE:
  assumes "alike s t"
  obtains cs where "t = s\<lparr>rx := cs\<rparr>" "pending cs = pending (rx s)" "ending cs = ending (rx s)"
  using assms by (auto simp: alike_def)

lemma alike_field:
  assumes "alike s t"
  shows "connected t = connected s" "progName t = progName s" "cf_ip t = cf_ip s" "cf_port t = cf_port s"
    "mapName t = mapName s" "nodeName t = nodeName s" "userName t = userName s"
    "password t = password s" "creatorId t = creatorId s" "needNewMap t = needNewMap s"
    "cf_machine t = cf_machine s" "buffer t = buffer s" "receivedBytes t = receivedBytes s"
    "sentBytes t = sentBytes s" "wire t = wire s" "tx t = tx s" "out t = out s"
    "sin_addr t = sin_addr s" "sin_port t = sin_port s" "fresh_index t = fresh_index s"
    "sigaction_ok t = sigaction_ok s" "thread_ok t = thread_ok s"
  using assms by (auto elim!: alikeE)

lemma alike_update:
  assumes "alike s t"
  shows "alike (s\<lparr>out := a\<rparr>) (t\<lparr>out := a\<rparr>)" "alike (s\<lparr>creatorId := b\<rparr>) (t\<lparr>creatorId := b\<rparr>)"
    "alike (s\<lparr>needNewMap := c\<rparr>) (t\<lparr>needNewMap := c\<rparr>)" "alike (s\<lparr>cf_machine := d\<rparr>) (t\<lparr>cf_machine := d\<rparr>)"
    "alike (s\<lparr>buffer := m\<rparr>) (t\<lparr>buffer := m\<rparr>)" "alike (s\<lparr>receivedBytes := f\<rparr>) (t\<lparr>receivedBytes := f\<rparr>)"
    "alike (s\<lparr>tx := l, wire := w\<rparr>) (t\<lparr>tx := l, wire := w\<rparr>)" "alike (s\<lparr>connected := b'\<rparr>) (t\<lparr>connected := b'\<rparr>)"
  by (rule alikeE [OF assms]; simp add: alike_def)+

lemma alike_say: "alike s t \<Longrightarrow> alike (say x s) (say x t)"
  by (simp add: say_def alike_field alike_update)

lemma alike_say_line: "alike s t \<Longrightarrow> alike (say_line x s) (say_line x t)"
  by (simp add: say_line_def alike_say)

lemma agree_return: "alike s t \<Longrightarrow> agree (Inr (ok, s)) (Inr (ok, t))"
  by (simp add: agree_def)

lemma agree_stop [simp]: "agree (Inl e) r \<longleftrightarrow> r = Inl e"
  by (simp add: agree_def)

lemma agree_fail [chunking]: "alike s t \<Longrightarrow> agree (fail_with msg s) (fail_with msg t)"
  by (simp add: fail_with_def agree_return alike_say_line)

lemma agree_check_ok:
  assumes "agree r r'" "\<And>s t. alike s t \<Longrightarrow> agree (k s) (k' t)"
  shows "agree (check_ok r k) (check_ok r' k')"
proof (cases r)
  case (Inr x)
  obtain ok s where "x = (ok, s)" by (cases x)
  with Inr assms obtain t where "r' = Inr (ok, t)" "alike s t" by (auto simp: agree_def)
  with Inr \<open>x = (ok, s)\<close> assms(2) show ?thesis by (cases ok) (auto simp: agree_return)
qed (use assms(1) in auto)

lemma agree_run_of:
  "(\<And>y. x = Some y \<Longrightarrow> agree (k y) (k' y)) \<Longrightarrow> agree (and_then (run_of x) k) (and_then (run_of x) k')"
  by (cases x) auto

lemma chunks_recv:
  assumes "pending cs = pending cs'" "ending cs = ending cs'"
  shows "case recv_loop buf 0 n cs of Inl e \<Rightarrow> recv_loop buf 0 n cs' = Inl e
    | Inr (ok, b, ds) \<Rightarrow> (\<exists>ds'. recv_loop buf 0 n cs' = Inr (ok, b, ds')
        \<and> pending ds' = pending ds \<and> ending ds' = ending ds)"
proof -
  consider "length buf < min n (length (pending cs))" | "n \<le> length (pending cs)" "n \<le> length buf"
    | "length (pending cs) < n" "length (pending cs) \<le> length buf" by linarith
  then show ?thesis
  proof cases
    case 1
    then show ?thesis using recv_loop_overrun [of 0 buf n cs] recv_loop_overrun [of 0 buf n cs'] assms by simp
  next
    case 2
    then show ?thesis
      using recv_loop_enough [of n cs 0 buf] recv_loop_enough [of n cs' 0 buf] assms by auto
  next
    case 3
    then show ?thesis
      using recv_loop_short [of cs n 0 buf] recv_loop_short [of cs' n 0 buf] assms
      by (auto split: list.splits chunk.splits)
  qed
qed

lemma agree_sendOrReceive [chunking]:
  assumes "alike s t"
  shows "agree (sendOrReceive d ec n s) (sendOrReceive d ec n t)"
proof -
  obtain cs where t: "t = s\<lparr>rx := cs\<rparr>" and cs: "pending cs = pending (rx s)" "ending cs = ending (rx s)"
    using assms by (rule alikeE)
  show ?thesis
  proof (cases d)
    case True
    show ?thesis
    proof (cases "load_bytes (buffer s) 0 n")
      case (Some bs)
      obtain ok txs w where "send_loop bs (tx s) (wire s) = (ok, txs, w)" by (metis prod_cases3)
      with True Some t cs show ?thesis
        by (auto simp: sendOrReceive_def transfer_def agree_def say_line_def say_def alike_def)
    qed (use True t in \<open>simp add: sendOrReceive_def transfer_def\<close>)
  next
    case False
    show ?thesis
    proof (cases "recv_loop (buffer s) 0 n (rx s)")
      case (Inl e)
      with chunks_recv [OF cs [symmetric], of "buffer s" n] False t show ?thesis
        by (simp add: sendOrReceive_def transfer_def)
    next
      case (Inr x)
      obtain ok b ds where x: "x = (ok, b, ds)" by (metis prod_cases3)
      with Inr chunks_recv [OF cs [symmetric], of "buffer s" n] obtain ds' where
        "recv_loop (buffer s) 0 n cs = Inr (ok, b, ds')" "pending ds' = pending ds" "ending ds' = ending ds"
        by auto
      with False t x Inr show ?thesis
        by (auto simp: sendOrReceive_def transfer_def agree_def say_line_def say_def alike_def)
    qed
  qed
qed

end
