(* ===== verification/Outgoing.thy ===== *)
theory Outgoing
  imports Transport
begin

text \<open>
  The messages of a running simulation (base/cf.cpp, interface.cpp, machine.cpp): \<open>sendFrame\<close>, which
  hands a frame of the node to the server, and the notices of changed addresses that
  \<open>Interface::setIp\<close> and \<open>Interface::setMask\<close> send. Each takes the mutex for its whole body, so it is
  one operation on the state.
\<close>

section \<open>Operations\<close>

definition DisconnectCommand :: u32 where "DisconnectCommand = 0"
definition SendFrameCommand :: u32 where "SendFrameCommand = 1"
definition ChangeIPAddressCommand :: u32 where "ChangeIPAddressCommand = 2"
definition ChangeNetmaskCommand :: u32 where "ChangeNetmaskCommand = 3"

text \<open>\<open>sendOrReceive (true, -1, ...)\<close> on memory outside the framework; a failure prints \<open>msg\<close>.\<close>

definition send_or_say :: "string \<Rightarrow> nat \<Rightarrow> u8 list \<Rightarrow> cf \<Rightarrow> (bool \<times> cf) run" where
  "send_or_say msg n mem s =
     and_then (transfer True (- 1) n mem s) (\<lambda>(ok, _, s). Inr (if ok then (True, s) else (False, say_line msg s)))"

text \<open>The ten bytes of \<open>mybuf\<close>; the sum of \<open>sizeof (uint32)\<close> and the length is cut to 16 bits.\<close>

definition frame_header :: "u32 \<Rightarrow> int \<Rightarrow> u8 list" where
  "frame_header len ifaceIndex =
     bytes32 (htonl SendFrameCommand) @ bytes16 (htons (of_nat (4 + unat len)))
       @ bytes32 (htonl (word_of_int ifaceIndex))"

definition realSendFrame :: "frame \<Rightarrow> int \<Rightarrow> cf \<Rightarrow> (bool \<times> cf) run" where
  "realSendFrame fr ifaceIndex s =
     (if unat (flength fr) < 14 \<or> 65536 - 4 \<le> unat (flength fr)
      then Inr (False, say_line ''Error in sending frame on simulated machine. [error code 31]'' s)
      else check_ok (send_or_say ''Error in sending frame on simulated machine. [error code 32]'' 10
                       (frame_header (flength fr) ifaceIndex) s) (\<lambda>s.
        check_ok (send_or_say ''Error in sending frame on simulated machine. [error code 33]''
                    (unat (flength fr)) (fdata fr) s) (\<lambda>s.
        Inr (True, s\<lparr>sentBytes := sentBytes s + ucast (flength fr)\<rparr>))))"

definition sendFrame :: "frame \<Rightarrow> int \<Rightarrow> cf \<Rightarrow> (bool \<times> cf) run" where
  "sendFrame fr ifaceIndex s = realSendFrame fr ifaceIndex s"

definition notice :: "u32 \<Rightarrow> int \<Rightarrow> u32 \<Rightarrow> u8 list" where
  "notice command ifaceIndex v =
     bytes32 (htonl command) @ bytes32 (htonl (word_of_int ifaceIndex)) @ bytes32 (htonl v)"

definition realNotifyChangeOfIPAddress :: "u32 \<Rightarrow> int \<Rightarrow> cf \<Rightarrow> (bool \<times> cf) run" where
  "realNotifyChangeOfIPAddress newIP ifaceIndex s =
     send_or_say (''Error while notifying change of IP address (iface index: '' @ show_int ifaceIndex
        @ ''). [error code 43]'') 12 (notice ChangeIPAddressCommand ifaceIndex newIP) s"

definition notifyChangeOfIPAddress :: "u32 \<Rightarrow> int \<Rightarrow> cf \<Rightarrow> (bool \<times> cf) run" where
  "notifyChangeOfIPAddress newIP ifaceIndex s = realNotifyChangeOfIPAddress newIP ifaceIndex s"

definition realNotifyChangeOfNetmask :: "u32 \<Rightarrow> int \<Rightarrow> cf \<Rightarrow> (bool \<times> cf) run" where
  "realNotifyChangeOfNetmask newNetmask ifaceIndex s =
     send_or_say (''Error while notifying change of network mask (iface index: '' @ show_int ifaceIndex
        @ ''). [error code 44]'') 12 (notice ChangeNetmaskCommand ifaceIndex newNetmask) s"

definition notifyChangeOfNetmask :: "u32 \<Rightarrow> int \<Rightarrow> cf \<Rightarrow> (bool \<times> cf) run" where
  "notifyChangeOfNetmask newNetmask ifaceIndex s = realNotifyChangeOfNetmask newNetmask ifaceIndex s"

definition setIp :: "u32 \<Rightarrow> interface \<Rightarrow> cf \<Rightarrow> (bool \<times> interface \<times> cf) run" where
  "setIp ip i s =
     (if if_ip i \<noteq> ip
      then and_then (notifyChangeOfIPAddress ip (if_index i) s) (\<lambda>(ok, s).
        Inr (if ok then (True, i\<lparr>if_ip := ip\<rparr>, s) else (False, i, s)))
      else Inr (False, i, s))"

definition setMask :: "u32 \<Rightarrow> interface \<Rightarrow> cf \<Rightarrow> (bool \<times> interface \<times> cf) run" where
  "setMask netmask i s =
     (if if_mask i \<noteq> netmask
      then and_then (notifyChangeOfNetmask netmask (if_index i) s) (\<lambda>(ok, s).
        Inr (if ok then (True, i\<lparr>if_mask := netmask\<rparr>, s) else (False, i, s)))
      else Inr (False, i, s))"

text \<open>\<open>Machine::sendFrame\<close> passes the frame on.\<close>

definition Machine_sendFrame :: "frame \<Rightarrow> int \<Rightarrow> cf \<Rightarrow> (bool \<times> cf) run" where
  "Machine_sendFrame fr ifaceIndex s = sendFrame fr ifaceIndex s"

section \<open>What stands on the wire\<close>

lemma send_or_say_sent:
  assumes "can_send s" "n \<le> length mem"
  shows "\<exists>t. send_or_say msg n mem s = Inr (True, t) \<and> sent (take n mem) s t"
  using transfer_send [OF assms, of "- 1"] by (auto simp: send_or_say_def)

lemma length_frame_header [simp]: "length (frame_header len i) = 10"
  by (simp add: frame_header_def)

lemma realSendFrame_sent:
  assumes "can_send s" "14 \<le> unat (flength fr)" "unat (flength fr) < 65532"
    and "unat (flength fr) \<le> length (fdata fr)"
  shows "\<exists>t. realSendFrame fr i s = Inr (True, t\<lparr>sentBytes := sentBytes t + ucast (flength fr)\<rparr>)
    \<and> sent (frame_header (flength fr) i @ take (unat (flength fr)) (fdata fr)) s t"
proof -
  let ?h = "frame_header (flength fr) i"
  obtain t where t: "send_or_say ''Error in sending frame on simulated machine. [error code 32]'' 10 ?h s = Inr (True, t)"
    "sent ?h s t" using send_or_say_sent [OF assms(1), of 10 ?h] by auto
  then have "can_send t" by (simp add: sent_def)
  then obtain u where u: "send_or_say ''Error in sending frame on simulated machine. [error code 33]''
      (unat (flength fr)) (fdata fr) t = Inr (True, u)" "sent (take (unat (flength fr)) (fdata fr)) t u"
    using send_or_say_sent [of t "unat (flength fr)" "fdata fr"] assms(4) by blast
  from sent_trans [OF t(2) u(2)] t(1) u(1) assms(2,3) show ?thesis
    by (intro exI [of _ u]) (simp add: realSendFrame_def)
qed

end
