(* ===== verification/Negotiation.thy ===== *)
theory Negotiation
  imports Transport
begin

text \<open>
  The negotiation of the client framework with the server (base/cf.cpp): signing in, selecting the
  map and the node, and learning the interfaces and the custom information of the node. Every
  message is built in, and every answer is read into, the framework's one buffer of 1524 bytes.
\<close>

section \<open>Strings in the buffer\<close>

definition byte_of_char :: "char \<Rightarrow> u8" where
  "byte_of_char c = of_nat (of_char c)"

definition char_of_byte :: "u8 \<Rightarrow> char" where
  "char_of_byte b = char_of (unat b)"

text \<open>The bytes \<open>strcpy\<close> copies from \<open>str.data ()\<close>.\<close>

definition c_str :: "string \<Rightarrow> u8 list" where
  "c_str str = map byte_of_char (takeWhile (\<lambda>c. c \<noteq> CHR 0x00) str) @ [0]"

text \<open>A string made of the bytes of a buffer up to the first NUL; undefined if there is none.\<close>

definition string_in :: "u8 list \<Rightarrow> string option" where
  "string_in b = (if 0 \<in> set b then Some (map char_of_byte (takeWhile (\<lambda>x. x \<noteq> 0) b)) else None)"

text \<open>\<open>strcmp (b, str) == 0\<close> for a literal \<open>str\<close>: it reads no further than the first difference.\<close>

definition starts_with_str :: "u8 list \<Rightarrow> string \<Rightarrow> bool" where
  "starts_with_str b str \<longleftrightarrow> take (length (c_str str)) b = c_str str"

text \<open>
  The recurring block: the \<open>uint16\<close> size of a string in network order, the string, and the step of
  \<open>buf\<close> behind it.
\<close>

definition put_string :: "string \<Rightarrow> u8 list \<times> nat \<Rightarrow> (u8 list \<times> nat) option" where
  "put_string str st =
     (let (b, off) = st; n = (of_nat (length str + 1) :: u16) in do {
        b \<leftarrow> store16 b off (htons n);
        b \<leftarrow> store_bytes b (off + 2) (c_str str);
        Some (b, off + 2 + unat n) })"

text \<open>\<open>int c = ntohl (*reinterpret_cast <uint32 *> (buf))\<close>.\<close>

definition read_int :: "u8 list \<Rightarrow> nat \<Rightarrow> int option" where
  "read_int b off = map_option (\<lambda>w. sint (ntohl w)) (load32 b off)"

definition put_command :: "u32 \<Rightarrow> cf \<Rightarrow> cf run" where
  "put_command c s = and_then (run_of (store32 (buffer s) 0 (htonl c))) (\<lambda>b. Inr (s\<lparr>buffer := b\<rparr>))"

section \<open>Protocol constants\<close>

definition SigningInNegotiationType :: int where "SigningInNegotiationType = 0"
definition MapNodeSelectingNegotiationType :: int where "MapNodeSelectingNegotiationType = 1"
definition InformationSynchronizationType :: int where "InformationSynchronizationType = 2"
definition SimulationStartedNotificationType :: int where "SimulationStartedNotificationType = 3"
definition RawFrameReceivedNotificationType :: int where "RawFrameReceivedNotificationType = 4"
definition InvalidInterfaceIndexType :: int where "InvalidInterfaceIndexType = 5"

definition InterfacesInformationSynchronizationSubType :: int where
  "InterfacesInformationSynchronizationSubType = 1"
definition CustomInformationSynchronizationSubType :: int where
  "CustomInformationSynchronizationSubType = 2"

definition MapNotExistCommand :: int where "MapNotExistCommand = 0"
definition MaxMapIpuViolatedCommand :: int where "MaxMapIpuViolatedCommand = 1"
definition MapSelectedCommand :: int where "MapSelectedCommand = 2"
definition NodeNotExistCommand :: int where "NodeNotExistCommand = 3"
definition NodeSelectedCommand :: int where "NodeSelectedCommand = 4"
definition OutOfResourceCommand :: int where "OutOfResourceCommand = 5"
definition MapInstanceResourcesAreReleased :: int where "MapInstanceResourcesAreReleased = 6"

definition InterfacesInformationRequestCommand :: u32 where "InterfacesInformationRequestCommand = 0"
definition CustomInformationRequestCommand :: u32 where "CustomInformationRequestCommand = 1"
definition StartingSimulationRequestCommand :: u32 where "StartingSimulationRequestCommand = 2"

lemmas protocol_numbers =
  SigningInNegotiationType_def MapNodeSelectingNegotiationType_def InformationSynchronizationType_def
  SimulationStartedNotificationType_def RawFrameReceivedNotificationType_def InvalidInterfaceIndexType_def
  InterfacesInformationSynchronizationSubType_def CustomInformationSynchronizationSubType_def
  MapNotExistCommand_def MaxMapIpuViolatedCommand_def MapSelectedCommand_def NodeNotExistCommand_def
  NodeSelectedCommand_def OutOfResourceCommand_def MapInstanceResourcesAreReleased_def

section \<open>Signing in and selecting\<close>

definition signing_in_message :: "cf \<Rightarrow> (u8 list \<times> nat) option" where
  "signing_in_message s = do {
     (b, off) \<leftarrow> put_string (userName s) (buffer s, 2);
     (b, off) \<leftarrow> put_string (password s) (b, off);
     b \<leftarrow> store16 b 0 (htons (of_nat off - 2));
     Some (b, off) }"

definition doSigningInNegotiations :: "cf \<Rightarrow> (bool \<times> cf) run" where
  "doSigningInNegotiations s =
     (let s = say ''Signing in... '' s in
      if 20 < length (userName s) \<or> 50 < length (password s)
      then fail_with ''+++ Username/Password is too long!!'' s
      else and_then (run_of (signing_in_message s)) (\<lambda>(b, off).
        check_ok (sendOrReceive True 40 (unat (of_nat off :: u16)) (s\<lparr>buffer := b\<rparr>)) (\<lambda>s.
        check_ok (sendOrReceive False 41 8 s) (\<lambda>s.
        and_then (run_of (read_int (buffer s) 0)) (\<lambda>c1.
        and_then (run_of (read_int (buffer s) 4)) (\<lambda>c2.
        if c1 \<noteq> SigningInNegotiationType \<or> c2 \<noteq> 1
        then fail_with ''+++ Username or password is incorrect. [error code 42]'' s
        else Inr (True, say_line ''[Done]'' s)))))))"

definition map_message :: "cf \<Rightarrow> (u8 list \<times> nat) option" where
  "map_message s = do {
     (b, off) \<leftarrow> put_string (mapName s) (buffer s, 2);
     (b, off) \<leftarrow> put_string (creatorId s) (b, off);
     b \<leftarrow> store32 b off (htonl (word_of_int (needNewMap s)));
     b \<leftarrow> store16 b 0 (htons (of_nat (off + 4) - 2));
     Some (b, off + 4) }"

text \<open>The \<open>switch\<close> over the server's answer.\<close>

definition map_answer :: "int \<Rightarrow> cf \<Rightarrow> (bool \<times> cf) run" where
  "map_answer c2 s =
     (if c2 = MapNotExistCommand
      then fail_with ''+++ Initial negotiations failed (map not exists). [error code 5]'' s
      else if c2 = MaxMapIpuViolatedCommand
      then fail_with (''+++ Initial negotiations failed (maximum allowable map instances ''
             @ ''are already allocated). [error code 6]'') s
      else if c2 = MapSelectedCommand then Inr (True, say_line ''[Done]'' s)
      else if c2 = MapInstanceResourcesAreReleased
      then Inr (False, say_line ''+++ Whole of the resources of the map instance are released.''
                         (say_line ''[Done]'' s))
      else if c2 = OutOfResourceCommand
      then fail_with ''+++ Initial negotiations failed (out of resource; retry later). [error code 7]'' s
      else fail_with ''+++ Initial negotiations failed. [error code 8]'' s)"

definition doMapSelectingNegotiations :: "cf \<Rightarrow> (bool \<times> cf) run" where
  "doMapSelectingNegotiations s =
     (let s = say ''Selecting map... '' s;
          s = (if needNewMap s \<noteq> 0 then s\<lparr>creatorId := userName s\<rparr> else s) in
      if FRAME_BUFFER_SIZE < 3 * 2 + length (mapName s) + length (creatorId s) + 4
      then fail_with ''+++ Map name is too long.'' s
      else and_then (run_of (map_message s)) (\<lambda>(b, off).
        check_ok (sendOrReceive True 2 (unat (of_nat off :: u16)) (s\<lparr>buffer := b\<rparr>)) (\<lambda>s.
        check_ok (sendOrReceive False 3 8 s) (\<lambda>s.
        and_then (run_of (read_int (buffer s) 0)) (\<lambda>c1.
        and_then (run_of (read_int (buffer s) 4)) (\<lambda>c2.
        if c1 \<noteq> MapNodeSelectingNegotiationType
        then fail_with ''+++ Initial negotiations failed. [error code 4]'' s
        else map_answer c2 s))))))"

definition node_answer :: "int \<Rightarrow> cf \<Rightarrow> (bool \<times> cf) run" where
  "node_answer c2 s =
     (if c2 = NodeNotExistCommand
      then fail_with ''+++ Initial negotiations failed (node not exists). [error code 12]'' s
      else if c2 = NodeSelectedCommand then Inr (True, say_line ''[Done]'' s)
      else fail_with ''+++ Initial negotiations failed. [error code 13]'' s)"

text \<open>Without a node name the process ends here.\<close>

definition doNodeSelectingNegotiations :: "cf \<Rightarrow> (bool \<times> cf) run" where
  "doNodeSelectingNegotiations s =
     (if nodeName s = '''' then Inl (Exit 0)
      else let s = say ''Connecting to node... '' s; ms = (of_nat (length (nodeName s) + 1) :: u32) in
        and_then (run_of (store16 (buffer s) 0 (htons (ucast ms)))) (\<lambda>b.
        let s = s\<lparr>buffer := b\<rparr> in
        if FRAME_BUFFER_SIZE - 2 < unat ms then fail_with ''+++ Node name is too long.'' s
        else and_then (run_of (store_bytes (buffer s) 2 (c_str (nodeName s)))) (\<lambda>b.
          check_ok (sendOrReceive True 9 (2 + unat ms) (s\<lparr>buffer := b\<rparr>)) (\<lambda>s.
          check_ok (sendOrReceive False 10 8 s) (\<lambda>s.
          and_then (run_of (read_int (buffer s) 0)) (\<lambda>c1.
          and_then (run_of (read_int (buffer s) 4)) (\<lambda>c2.
          if c1 \<noteq> MapNodeSelectingNegotiationType
          then fail_with ''+++ Initial negotiations failed. [error code 11]'' s
          else node_answer c2 s)))))))"

section \<open>Synchronising the information of the node\<close>

definition interface_type :: string where
  "interface_type = ''edu::sharif::partov::nse::map::interface::EthernetInterface''"

definition physical_interface_type :: string where
  "physical_interface_type = ''edu::sharif::partov::nse::map::interface::EthernetPhysicalInterface''"

definition dec64 :: "u8 list \<Rightarrow> u64" where
  "dec64 bs = of_nat (\<Sum>k<8. unat (bs ! k) * 2 ^ (8 * k))"

definition load64 :: "u8 list \<Rightarrow> nat \<Rightarrow> u64 option" where
  "load64 m i = map_option dec64 (load_bytes m i 8)"

text \<open>
  The address, IP and mask stand in the last 16 bytes of the \<open>n\<close> bytes received; for a smaller
  \<open>n\<close> the pointer leaves the buffer at its front.
\<close>

definition interface_fields :: "u8 list \<Rightarrow> nat \<Rightarrow> (u64 \<times> u32 \<times> u32) option" where
  "interface_fields b n =
     (if n < 16 then None
      else do {
        mac \<leftarrow> load64 b (n - 16);
        ip \<leftarrow> load32 b (n - 8);
        netmask \<leftarrow> load32 b (n - 4);
        Some (mac, ntohl ip, ntohl netmask) })"

definition readInterfaceInformation :: "int \<Rightarrow> cf \<Rightarrow> (bool \<times> cf) run" where
  "readInterfaceInformation index s =
     check_ok (sendOrReceive False 17 2 s) (\<lambda>s.
     and_then (run_of (load16 (buffer s) 0)) (\<lambda>w.
     let n = unat (ntohs w) in
     if FRAME_BUFFER_SIZE < n then fail_with ''+++ Initial negotiations failed. [error code 18]'' s
     else check_ok (sendOrReceive False 19 n s) (\<lambda>s.
       if \<not> starts_with_str (buffer s) interface_type \<and> \<not> starts_with_str (buffer s) physical_interface_type
       then fail_with ''+++ Initial negotiations failed (unknown interface type). [error code 19]'' s
       else and_then (run_of (interface_fields (buffer s) n)) (\<lambda>(mac, ip, netmask).
         and_then (run_of (cf_machine s)) (\<lambda>m.
         Inr (True, s\<lparr>cf_machine := Some (initInterface m index mac ip netmask)\<rparr>))))))"

fun read_interfaces :: "int list \<Rightarrow> cf \<Rightarrow> (bool \<times> cf) run" where
  "read_interfaces [] s = Inr (True, s)"
| "read_interfaces (i # is) s = check_ok (readInterfaceInformation i s) (read_interfaces is)"

definition doInterfacesInformationSynchronizationNegotiations :: "cf \<Rightarrow> (bool \<times> cf) run" where
  "doInterfacesInformationSynchronizationNegotiations s =
     and_then (put_command InterfacesInformationRequestCommand s) (\<lambda>s.
     check_ok (sendOrReceive True 14 4 s) (\<lambda>s.
     check_ok (sendOrReceive False 15 12 s) (\<lambda>s.
     and_then (run_of (read_int (buffer s) 0)) (\<lambda>c1.
     and_then (run_of (read_int (buffer s) 4)) (\<lambda>c2.
     and_then (run_of (read_int (buffer s) 8)) (\<lambda>count.
     if c1 \<noteq> InformationSynchronizationType \<or> c2 \<noteq> InterfacesInformationSynchronizationSubType \<or> count < 1
     then fail_with ''+++ Initial negotiations failed. [error code 16]'' s
     else read_interfaces [0..count - 1]
            (s\<lparr>cf_machine := Some (Machine_new (fresh_index s) count)\<rparr>)))))))"

definition doCustomInformationSynchronizationNegotiations :: "cf \<Rightarrow> (bool \<times> cf) run" where
  "doCustomInformationSynchronizationNegotiations s =
     and_then (put_command CustomInformationRequestCommand s) (\<lambda>s.
     check_ok (sendOrReceive True 20 4 s) (\<lambda>s.
     check_ok (sendOrReceive False 21 10 s) (\<lambda>s.
     and_then (run_of (read_int (buffer s) 0)) (\<lambda>c1.
     and_then (run_of (read_int (buffer s) 4)) (\<lambda>c2.
     and_then (run_of (load16 (buffer s) 8)) (\<lambda>w.
     let n = unat (ntohs w) in
     if c1 \<noteq> InformationSynchronizationType \<or> c2 \<noteq> CustomInformationSynchronizationSubType \<or> n < 1
     then fail_with ''+++ Initial negotiations failed. [error code 22]'' s
     else check_ok (sendOrReceive False 23 n s) (\<lambda>s.
       and_then (run_of (string_in (buffer s))) (\<lambda>ci.
       and_then (run_of (cf_machine s)) (\<lambda>m.
       Inr (True, s\<lparr>cf_machine := Some (setCustomInformation m ci)\<rparr>))))))))))"

definition information_text :: "machine \<Rightarrow> string" where
  "information_text m =
     concat (map (\<lambda>l. l @ endl) (machine_lines m
       @ (if getCustomInformation m = '''' then [''There is no custom information for this machine.'']
          else [''Custom information for this machine are:'', getCustomInformation m])
       @ [rule_line]))"

definition doInformationSynchronizationNegotiations :: "cf \<Rightarrow> (bool \<times> cf) run" where
  "doInformationSynchronizationNegotiations s =
     check_ok (doInterfacesInformationSynchronizationNegotiations (say ''Synchronizing information... '' s)) (\<lambda>s.
     check_ok (doCustomInformationSynchronizationNegotiations s) (\<lambda>s.
     and_then (run_of (cf_machine s)) (\<lambda>m.
     Inr (True, say (information_text m) (say_line ''[Done]'' s)))))"

definition doInitialNegotiations :: "cf \<Rightarrow> (bool \<times> cf) run" where
  "doInitialNegotiations s =
     check_ok (doSigningInNegotiations s) (\<lambda>s.
     check_ok (doMapSelectingNegotiations s) (\<lambda>s.
     check_ok (doNodeSelectingNegotiations s) doInformationSynchronizationNegotiations))"

definition doInitialRecoveryNegotiations :: "cf \<Rightarrow> (bool \<times> cf) run" where
  "doInitialRecoveryNegotiations s =
     check_ok (doSigningInNegotiations s) (\<lambda>s.
     check_ok (doMapSelectingNegotiations s) doNodeSelectingNegotiations)"

section \<open>Chunking\<close>

lemma agree_run_of_buffer:
  assumes "alike s t" "\<And>y. agree (k y) (k' y)"
  shows "agree (and_then (run_of (f (buffer s))) k) (and_then (run_of (f (buffer t))) k')"
  using assms by (simp add: alike_field agree_run_of)

lemma agree_put_command:
  assumes "alike s t" "\<And>s t. alike s t \<Longrightarrow> agree (k s) (k' t)"
  shows "agree (and_then (put_command c s) k) (and_then (put_command c t) k')"
  using assms by (cases "store32 (buffer s) 0 (htonl c)") (auto simp: put_command_def alike_field intro!: alike_update)

lemmas agree_intros =
  agree_check_ok agree_run_of_buffer agree_put_command agree_sendOrReceive agree_fail agree_return
  alike_update alike_say alike_say_line

lemma agree_run_of_pair:
  assumes "\<And>a b. agree (k a b) (k' a b)"
  shows "agree (and_then (run_of x) (\<lambda>(a, b). k a b)) (and_then (run_of x) (\<lambda>(a, b). k' a b))"
  using assms by (intro agree_run_of) (simp add: split_def)

lemma agree_signing_in [chunking]:
  assumes "alike s t"
  shows "agree (doSigningInNegotiations s) (doSigningInNegotiations t)"
proof -
  have "signing_in_message (say x t) = signing_in_message (say x s)" for x
    using assms by (simp add: signing_in_message_def alike_field)
  then show ?thesis using assms
    unfolding doSigningInNegotiations_def Let_def
    by (simp add: alike_field) (auto intro!: agree_intros agree_run_of_pair)
qed

lemma agree_map_answer [chunking]: "alike s t \<Longrightarrow> agree (map_answer c s) (map_answer c t)"
  by (auto simp: map_answer_def intro!: agree_intros)

lemma agree_node_answer [chunking]: "alike s t \<Longrightarrow> agree (node_answer c s) (node_answer c t)"
  by (auto simp: node_answer_def intro!: agree_intros)

lemma agree_map_selecting [chunking]:
  assumes "alike s t"
  shows "agree (doMapSelectingNegotiations s) (doMapSelectingNegotiations t)"
proof -
  let ?f = "\<lambda>s. let s = say ''Selecting map... '' s in if needNewMap s \<noteq> 0 then s\<lparr>creatorId := userName s\<rparr> else s"
  have a: "alike (?f s) (?f t)" using assms by (auto simp: alike_field Let_def intro!: agree_intros)
  then have "map_message (?f t) = map_message (?f s)"
    by (simp add: map_message_def alike_field)
  then show ?thesis using a assms
    unfolding doMapSelectingNegotiations_def Let_def
    by (simp add: alike_field) (auto intro!: agree_intros agree_run_of_pair agree_map_answer)
qed

lemma agree_node_selecting [chunking]:
  assumes "alike s t"
  shows "agree (doNodeSelectingNegotiations s) (doNodeSelectingNegotiations t)"
  using assms unfolding doNodeSelectingNegotiations_def Let_def
  by (auto simp: alike_field [OF assms] intro!: agree_intros agree_run_of agree_node_answer)

lemma agree_interface [chunking]:
  assumes "alike s t"
  shows "agree (readInterfaceInformation i s) (readInterfaceInformation i t)"
  using assms unfolding readInterfaceInformation_def Let_def
  by (auto simp: alike_field intro!: agree_intros agree_run_of)

lemma agree_interfaces [chunking]:
  "alike s t \<Longrightarrow> agree (read_interfaces is s) (read_interfaces is t)"
  by (induction "is" arbitrary: s t) (auto intro!: agree_intros agree_interface)

lemma agree_interfaces_information [chunking]:
  assumes "alike s t"
  shows "agree (doInterfacesInformationSynchronizationNegotiations s)
    (doInterfacesInformationSynchronizationNegotiations t)"
  using assms unfolding doInterfacesInformationSynchronizationNegotiations_def
  by (auto simp: alike_field intro!: agree_intros agree_run_of agree_interfaces)

lemma agree_custom_information [chunking]:
  assumes "alike s t"
  shows "agree (doCustomInformationSynchronizationNegotiations s)
    (doCustomInformationSynchronizationNegotiations t)"
  using assms unfolding doCustomInformationSynchronizationNegotiations_def Let_def
  by (auto simp: alike_field intro!: agree_intros agree_run_of)

lemma agree_information [chunking]:
  assumes "alike s t"
  shows "agree (doInformationSynchronizationNegotiations s) (doInformationSynchronizationNegotiations t)"
  using assms unfolding doInformationSynchronizationNegotiations_def
  by (auto simp: alike_field intro!: agree_intros agree_run_of agree_interfaces_information
      agree_custom_information)

lemma agree_initial [chunking]:
  "alike s t \<Longrightarrow> agree (doInitialNegotiations s) (doInitialNegotiations t)"
  unfolding doInitialNegotiations_def
  by (intro agree_check_ok agree_signing_in agree_map_selecting agree_node_selecting agree_information)

lemma agree_recovery [chunking]:
  "alike s t \<Longrightarrow> agree (doInitialRecoveryNegotiations s) (doInitialRecoveryNegotiations t)"
  unfolding doInitialRecoveryNegotiations_def
  by (intro agree_check_ok agree_signing_in agree_map_selecting agree_node_selecting)

end
