(* ===== verification/Session.thy ===== *)
theory Session
  imports Negotiation
begin

text \<open>
  What the negotiation achieves with a server that follows the protocol, whatever the network does to
  the chunks; where the one buffer overflows; and what happens when the server goes away.
\<close>

section \<open>Strings and messages\<close>

definition no_nul :: "string \<Rightarrow> bool" where
  "no_nul str \<longleftrightarrow> CHR 0x00 \<notin> set str"

lemma c_str_plain: "no_nul str \<Longrightarrow> c_str str = map byte_of_char str @ [0]"
proof -
  assume "no_nul str"
  then have "takeWhile (\<lambda>c. c \<noteq> CHR 0x00) str = str"
    by (auto simp: no_nul_def takeWhile_eq_all_conv)
  then show ?thesis by (simp only: c_str_def)
qed

lemma length_c_str [simp]: "no_nul str \<Longrightarrow> length (c_str str) = length str + 1"
  by (simp add: c_str_plain)

lemma char_of_byte_of_char [simp]: "char_of_byte (byte_of_char c) = c"
proof -
  have "unat (of_nat (of_char c) :: u8) = of_char c" by (rule unat_of_nat_less) simp
  then show ?thesis by (simp add: char_of_byte_def byte_of_char_def)
qed

lemma byte_of_char_0 [simp]: "byte_of_char c = 0 \<longleftrightarrow> c = CHR 0x00"
proof
  assume "byte_of_char c = 0"
  have "c = char_of_byte (byte_of_char c)" by simp
  also have "\<dots> = char_of_byte 0" by (simp only: \<open>byte_of_char c = 0\<close>)
  finally show "c = CHR 0x00" by (simp add: char_of_byte_def char_of_def)
qed (simp add: byte_of_char_def)

lemma string_in_c_str [simp]:
  assumes "no_nul str"
  shows "string_in (c_str str @ r) = Some str"
proof -
  have "takeWhile (\<lambda>x. x \<noteq> 0) (map byte_of_char str @ 0 # r) = map byte_of_char str"
    using assms by (subst takeWhile_append2) (auto simp: no_nul_def)
  then show ?thesis using assms by (simp add: string_in_def c_str_plain comp_def)
qed

lemma starts_with_str_c_str [simp]: "starts_with_str (c_str str @ r) str"
  by (simp add: starts_with_str_def)

text \<open>A string on the wire: its size with the NUL, then its bytes with the NUL.\<close>

definition string_field :: "string \<Rightarrow> u8 list" where
  "string_field str = bytes16 (htons (of_nat (length str + 1))) @ c_str str"

lemma length_string_field [simp]: "no_nul str \<Longrightarrow> length (string_field str) = length str + 3"
  by (simp add: string_field_def)

lemma put_string_eq:
  assumes "no_nul str" "length str < 65535" "off = length p"
  shows "put_string str (p @ r, off) =
    (if length str + 3 \<le> length r
     then Some (p @ string_field str @ drop (length str + 3) r, off + length str + 3) else None)"
proof -
  have n: "unat (1 + of_nat (length str) :: u16) = length str + 1"
    using unat_of_nat_less [of "length str + 1", where ?'a = 16] assms(2) by simp
  show ?thesis
  proof (cases "2 \<le> length r")
    case True
    then obtain a b r' where r: "r = a # b # r'"
      by (metis One_nat_def Suc_1 Suc_le_length_iff)
    have "store16 (p @ r) off (htons (of_nat (length str + 1)))
        = Some (p @ bytes16 (htons (of_nat (length str + 1))) @ r')"
      using assms(3) r by (simp add: store16_def store_bytes_def)
    moreover have "store_bytes (p @ bytes16 (htons w) @ r') (off + 2) (c_str str) =
        (if length str + 1 \<le> length r'
         then Some (p @ bytes16 (htons w) @ c_str str @ drop (length str + 1) r') else None)" for w
      using assms(1,3) by (simp add: store_bytes_def)
    ultimately show ?thesis using n r
      by (simp add: put_string_def Let_def string_field_def eval_nat_numeral)
  next
    case False
    then show ?thesis using assms(3) by (simp add: put_string_def Let_def store16_def store_bytes_def)
  qed
qed

lemma put_size_eq:
  "2 \<le> length m \<Longrightarrow> store16 m 0 w = Some (bytes16 w @ drop 2 m)"
  by (simp add: store16_def store_bytes_def numeral_2_eq_2)

text \<open>A request: the size of what follows in 16 bits, then that.\<close>

definition sized :: "u8 list \<Rightarrow> u8 list" where
  "sized bs = bytes16 (htons (of_nat (length bs))) @ bs"

lemma length_sized [simp]: "length (sized bs) = length bs + 2"
  by (simp add: sized_def)

lemma read_int_0 [simp]: "read_int (bytes32 (htonl w) @ r) 0 = Some (sint w)"
  by (simp add: read_int_def load32_def load_bytes_def)

lemma read_int_4 [simp]: "length p = 4 \<Longrightarrow> read_int (p @ bytes32 (htonl w) @ r) 4 = Some (sint w)"
  by (simp add: read_int_def load32_def load_bytes_def)

lemma read_int_8 [simp]:
  "length p = 4 \<Longrightarrow> length q = 4 \<Longrightarrow> read_int (p @ q @ bytes32 (htonl w) @ r) 8 = Some (sint w)"
  by (simp add: read_int_def load32_def load_bytes_def)

section \<open>Requests\<close>

definition signing_in_request :: "cf \<Rightarrow> u8 list" where
  "signing_in_request s = sized (string_field (userName s) @ string_field (password s))"

lemma signing_in_message_eq:
  assumes "length (buffer s) = 1524" "no_nul (userName s)" "no_nul (password s)"
    "length (userName s) \<le> 20" "length (password s) \<le> 50"
  shows "\<exists>r. signing_in_message s = Some (signing_in_request s @ r, length (signing_in_request s))
    \<and> length (signing_in_request s @ r) = 1524"
proof -
  obtain p q where b: "buffer s = p @ q" "length p = 2" "length q = 1522"
    using that [of "take 2 (buffer s)" "drop 2 (buffer s)"] assms(1) by simp
  let ?f = "string_field (userName s) @ string_field (password s)"
  have w: "(of_nat (length p + length (userName s) + 3 + length (password s) + 3) - 2 :: u16) = of_nat (length ?f)"
    using b(2) assms(2,3) by (simp add: algebra_simps)
  have "signing_in_message s = Some (bytes16 (htons (of_nat (length ?f)))
      @ ?f @ drop (length (userName s) + length (password s) + 6) q, length (userName s) + length (password s) + 8)"
    using assms b put_string_eq [of "userName s" 2 p q]
      put_string_eq [of "password s" "2 + length (userName s) + 3" "p @ string_field (userName s)"
        "drop (length (userName s) + 3) q"] w
    by (simp add: signing_in_message_def b(1) put_size_eq algebra_simps del: of_nat_add)
  then show ?thesis using assms b(3) by (auto simp: signing_in_request_def sized_def)
qed

definition map_request :: "cf \<Rightarrow> u8 list" where
  "map_request s = sized (string_field (mapName s)
     @ string_field (if needNewMap s \<noteq> 0 then userName s else creatorId s)
     @ bytes32 (htonl (word_of_int (needNewMap s))))"

definition node_request :: "cf \<Rightarrow> u8 list" where
  "node_request s = string_field (nodeName s)"

text \<open>The buffer is left when the two names of the map request have more than 1512 characters.\<close>

lemma map_message_eq:
  assumes "length (buffer s) = 1524" "no_nul (mapName s)" "no_nul (creatorId s)"
    "length (mapName s) + length (creatorId s) \<le> 1514"
    "needNewMap s \<noteq> 0 \<Longrightarrow> creatorId s = userName s"
  shows "\<exists>r. map_message s = (if length (mapName s) + length (creatorId s) \<le> 1512
      then Some (map_request s @ r, length (map_request s)) else None)
    \<and> (length (mapName s) + length (creatorId s) \<le> 1512 \<longrightarrow> length (map_request s @ r) = 1524)"
proof -
  obtain p q where b: "buffer s = p @ q" "length p = 2" "length q = 1522"
    using that [of "take 2 (buffer s)" "drop 2 (buffer s)"] assms(1) by simp
  let ?m = "mapName s" and ?c = "creatorId s" and ?k = "bytes32 (htonl (word_of_int (needNewMap s)))"
  let ?f = "string_field ?m @ string_field ?c @ ?k"
  have c: "(if needNewMap s \<noteq> 0 then userName s else ?c) = ?c" using assms(5) by auto
  show ?thesis
  proof (cases "length ?m + length ?c \<le> 1512")
    case True
    obtain x r where q: "q = x @ r" "length x = length ?m + length ?c + 6 + 4"
      using that [of "take (length ?m + length ?c + 10) q" "drop (length ?m + length ?c + 10) q"] b(3) True by simp
    obtain x1 y1 where x1: "x = x1 @ y1" "length x1 = length ?m + 3" "length y1 = length ?c + 7"
      using that [of "take (length ?m + 3) x" "drop (length ?m + 3) x"] q(2) by simp
    obtain x2 x3 where x2: "y1 = x2 @ x3" "length x2 = length ?c + 3" "length x3 = 4"
      using that [of "take (length ?c + 3) y1" "drop (length ?c + 3) y1"] x1(3) by simp
    have 1: "put_string ?m (buffer s, 2) = Some (p @ string_field ?m @ x2 @ x3 @ r, 2 + length ?m + 3)"
      using put_string_eq [of ?m 2 p q] assms(2,4) b q x1 x2 by simp
    have 2: "put_string ?c (p @ string_field ?m @ x2 @ x3 @ r, 2 + length ?m + 3)
        = Some (p @ string_field ?m @ string_field ?c @ x3 @ r, 2 + length ?m + 3 + length ?c + 3)"
      using put_string_eq [of ?c "2 + length ?m + 3" "p @ string_field ?m" "x2 @ x3 @ r"] assms(2-4) b(2) x2 by simp
    have 3: "store32 (p @ string_field ?m @ string_field ?c @ x3 @ r) (2 + length ?m + 3 + length ?c + 3)
        (htonl (word_of_int (needNewMap s))) = Some (p @ ?f @ r)"
      using assms(2,3) b(2) x2(3) by (simp add: store32_def store_bytes_def)
    have w: "(of_nat (2 + length ?m + 3 + length ?c + 3 + 4) - 2 :: u16) = of_nat (length ?f)"
      using assms(2,3) by (simp add: algebra_simps)
    have "map_message s = Some (bytes16 (htons (of_nat (length ?f))) @ ?f @ r, length ?f + 2)"
      using 1 2 3 w b(2) assms(2,3)
      by (simp add: map_message_def put_size_eq del: of_nat_add)
    moreover have "length (bytes16 (htons (of_nat (length ?f))) @ ?f @ r) = 1524"
      using q(2) b(2,3) assms(1-3) b(1) q(1) by simp
    ultimately show ?thesis using True c by (intro exI [of _ r]) (simp add: map_request_def sized_def)
  next
    case False
    have "map_message s = None"
    proof (cases "length ?m + 3 \<le> 1522")
      case True
      then have 1: "put_string ?m (buffer s, 2) = Some (p @ string_field ?m @ drop (length ?m + 3) q, 2 + length ?m + 3)"
        using put_string_eq [of ?m 2 p q] assms(2,4) b by simp
      have 2: "put_string ?c (p @ string_field ?m @ drop (length ?m + 3) q, 2 + length ?m + 3)
        = (if length ?c + 3 \<le> 1522 - (length ?m + 3)
           then Some (p @ string_field ?m @ string_field ?c @ drop (length ?m + 3 + (length ?c + 3)) q,
              2 + length ?m + 3 + length ?c + 3) else None)"
        using put_string_eq [of ?c "2 + length ?m + 3" "p @ string_field ?m" "drop (length ?m + 3) q"] assms(2-4) b
        by (simp add: add.commute)
      have "store32 b (2 + length ?m + 3 + length ?c + 3) w = None" if "length b = 1524" for b w
        using False that by (simp add: store32_def store_bytes_def)
      moreover have "length (p @ string_field ?m @ string_field ?c @ drop (length ?m + 3 + (length ?c + 3)) q) = 1524"
        if "length ?c + 3 \<le> 1522 - (length ?m + 3)" using that b assms(2,3) True by simp
      ultimately show ?thesis using 1 2 by (simp add: map_message_def)
    next
      case False
      then show ?thesis using put_string_eq [of ?m 2 p q] assms(2,4) b by (simp add: map_message_def)
    qed
    then show ?thesis using False by simp
  qed
qed

text \<open>One request and its answer.\<close>

lemma exchange:
  assumes "can_send s" "length (req @ r) = 1524" "rx s = stream_of (ans @ ys) e" "length ans = n" "0 < n" "n \<le> 1524"
  shows "\<exists>a. (\<forall>c\<in>set a. 0 \<le> c) \<and>
    (\<forall>k ec ec'. check_ok (sendOrReceive True ec (length req) (s\<lparr>buffer := req @ r\<rparr>))
        (\<lambda>s. check_ok (sendOrReceive False ec' n s) k)
      = k (s\<lparr>tx := a, wire := wire s @ req, buffer := ans @ drop n (req @ r), rx := stream_of ys e\<rparr>))"
proof -
  let ?s = "s\<lparr>buffer := req @ r\<rparr>"
  obtain cs where cs: "send_loop req (tx s) (wire s) = (True, cs, wire s @ req)" "set cs \<subseteq> set (tx s)"
    using send_loop_all [of "tx s" req "wire s"] assms(1) by (auto simp: can_send_def)
  then have "sendOrReceive True ec (length req) ?s = Inr (True, ?s\<lparr>tx := cs, wire := wire s @ req\<rparr>)" for ec
    by (simp add: sendOrReceive_def transfer_def load_bytes_def)
  moreover have "sendOrReceive False ec n (?s\<lparr>tx := cs, wire := wire s @ req\<rparr>)
      = Inr (True, ?s\<lparr>tx := cs, wire := wire s @ req, buffer := ans @ drop n (req @ r), rx := stream_of ys e\<rparr>)" for ec
    using receive_next [of "?s\<lparr>tx := cs, wire := wire s @ req\<rparr>" ans ys e n ec] assms by simp
  ultimately show ?thesis using cs(2) assms(1) by (intro exI [of _ cs]) (auto simp: can_send_def)
qed

section \<open>A server that follows the protocol\<close>

text \<open>
  The state \<open>t\<close> comes after \<open>s\<close> with the bytes \<open>req\<close> sent and the bytes \<open>ys\<close> still to come; names and
  options are the same.
\<close>

definition moved :: "u8 list \<Rightarrow> u8 list \<Rightarrow> chunk list \<Rightarrow> cf \<Rightarrow> cf \<Rightarrow> bool" where
  "moved req ys e s t \<longleftrightarrow> can_send t \<and> length (buffer t) = 1524 \<and> wire t = wire s @ req \<and> rx t = stream_of ys e
     \<and> mapName t = mapName s \<and> nodeName t = nodeName s \<and> userName t = userName s \<and> password t = password s
     \<and> needNewMap t = needNewMap s \<and> fresh_index t = fresh_index s
     \<and> sigaction_ok t = sigaction_ok s \<and> thread_ok t = thread_ok s
     \<and> (needNewMap s = 0 \<longrightarrow> creatorId t = creatorId s)"

definition ready :: "u8 list \<Rightarrow> chunk list \<Rightarrow> cf \<Rightarrow> bool" where
  "ready ys e s \<longleftrightarrow> can_send s \<and> length (buffer s) = 1524 \<and> rx s = stream_of ys e"

lemma moved_ready: "moved req ys e s t \<Longrightarrow> ready ys e t"
  by (simp add: moved_def ready_def)

lemma moved_trans: "moved req xs e s t \<Longrightarrow> moved req' ys e t u \<Longrightarrow> moved (req @ req') ys e s u"
  by (simp add: moved_def)

definition answer2 :: "u32 \<Rightarrow> u32 \<Rightarrow> u8 list" where
  "answer2 a b = bytes32 (htonl a) @ bytes32 (htonl b)"

lemma length_answer2 [simp]: "length (answer2 a b) = 8"
  by (simp add: answer2_def)

lemma read_answer2 [simp]:
  "read_int (answer2 a b @ r) 0 = Some (sint a)" "read_int (answer2 a b @ r) 4 = Some (sint b)"
  by (simp_all add: answer2_def)

definition names_ok :: "cf \<Rightarrow> bool" where
  "names_ok s \<longleftrightarrow> no_nul (userName s) \<and> length (userName s) \<le> 20 \<and> no_nul (password s) \<and> length (password s) \<le> 50
     \<and> no_nul (mapName s) \<and> no_nul (if needNewMap s \<noteq> 0 then userName s else creatorId s) \<and> no_nul (nodeName s)
     \<and> length (mapName s) + length (if needNewMap s \<noteq> 0 then userName s else creatorId s) \<le> 1512
     \<and> nodeName s \<noteq> '''' \<and> length (nodeName s) < 1522"

lemma names_ok_moved: "moved req ys e s t \<Longrightarrow> names_ok s \<Longrightarrow> names_ok t"
  by (auto simp: moved_def names_ok_def)

lemma signing_in_accepted:
  assumes "ready (answer2 0 1 @ ys) e s" "names_ok s"
  shows "\<exists>t. doSigningInNegotiations s = Inr (True, t) \<and> moved (signing_in_request s) ys e s t
    \<and> creatorId t = creatorId s"
proof -
  let ?s = "say ''Signing in... '' s"
  have s: "signing_in_request ?s = signing_in_request s" by (simp add: signing_in_request_def)
  obtain r where r: "signing_in_message ?s = Some (signing_in_request s @ r, length (signing_in_request s))"
      "length (signing_in_request s @ r) = 1524"
    using signing_in_message_eq [of ?s] assms s by (auto simp: ready_def names_ok_def)
  obtain a where a: "\<forall>c\<in>set a. 0 \<le> c"
    "\<And>k ec ec'. check_ok (sendOrReceive True ec (length (signing_in_request s)) (?s\<lparr>buffer := signing_in_request s @ r\<rparr>))
        (\<lambda>s. check_ok (sendOrReceive False ec' 8 s) k)
      = k (?s\<lparr>tx := a, wire := wire ?s @ signing_in_request s, buffer := answer2 0 1 @ drop 8 (signing_in_request s @ r),
              rx := stream_of ys e\<rparr>)"
    using exchange [of ?s "signing_in_request s" r "answer2 0 1" ys e 8] assms(1) r(2)
    by (auto simp: ready_def can_send_def)
  have n: "unat (of_nat (length (signing_in_request s)) :: u16) = length (signing_in_request s)"
    using assms(2) by (intro unat_of_nat_less) (simp add: signing_in_request_def names_ok_def)
  have "doSigningInNegotiations s = Inr (True, say_line ''[Done]'' (?s\<lparr>tx := a, wire := wire ?s @ signing_in_request s,
      buffer := answer2 0 1 @ drop 8 (signing_in_request s @ r), rx := stream_of ys e\<rparr>))"
    unfolding doSigningInNegotiations_def Let_def
    using assms(2) r(1) a(2) n by (simp add: names_ok_def protocol_numbers del: drop_append)
  then show ?thesis using assms r(2) a(1)
    by (simp add: moved_def ready_def can_send_def del: drop_append)
qed

lemma map_selected:
  assumes "ready (answer2 1 2 @ ys) e s" "names_ok s"
  shows "\<exists>t. doMapSelectingNegotiations s = Inr (True, t) \<and> moved (map_request s) ys e s t"
proof -
  let ?s = "say ''Selecting map... '' s"
  define u where "u = (if needNewMap ?s \<noteq> 0 then ?s\<lparr>creatorId := userName ?s\<rparr> else ?s)"
  have s: "map_request u = map_request s" "mapName u = mapName s" "buffer u = buffer s" "wire u = wire s"
    "creatorId u = (if needNewMap s \<noteq> 0 then userName s else creatorId s)" "tx u = tx s" "rx u = rx s"
    "userName u = userName s" "needNewMap u = needNewMap s" "nodeName u = nodeName s" "password u = password s"
    "fresh_index u = fresh_index s" "sigaction_ok u = sigaction_ok s" "thread_ok u = thread_ok s"
    by (simp_all add: map_request_def u_def)
  have le: "length (mapName u) + length (creatorId u) \<le> 1512" using assms(2) by (auto simp: s names_ok_def split: if_splits)
  have nn: "no_nul (creatorId u)" "needNewMap u \<noteq> 0 \<Longrightarrow> creatorId u = userName u"
    using assms(2) by (simp_all add: s names_ok_def)
  obtain r where r: "map_message u = Some (map_request s @ r, length (map_request s))"
      "length (map_request s @ r) = 1524"
    using map_message_eq [of u, OF _ _ nn(1) _ nn(2)] assms le by (auto simp: s ready_def names_ok_def)
  obtain a where a: "\<forall>c\<in>set a. 0 \<le> c"
    "\<And>k ec ec'. check_ok (sendOrReceive True ec (length (map_request s)) (u\<lparr>buffer := map_request s @ r\<rparr>))
        (\<lambda>s. check_ok (sendOrReceive False ec' 8 s) k)
      = k (u\<lparr>tx := a, wire := wire u @ map_request s, buffer := answer2 1 2 @ drop 8 (map_request s @ r),
              rx := stream_of ys e\<rparr>)"
    using exchange [of u "map_request s" r "answer2 1 2" ys e 8] assms(1) r(2)
    by (auto simp: s ready_def can_send_def)
  have n: "unat (of_nat (length (map_request s)) :: u16) = length (map_request s)"
    using r(2) by (intro unat_of_nat_less) simp
  have "doMapSelectingNegotiations s = Inr (True, say_line ''[Done]'' (u\<lparr>tx := a, wire := wire u @ map_request s,
      buffer := answer2 1 2 @ drop 8 (map_request s @ r), rx := stream_of ys e\<rparr>))"
    unfolding doMapSelectingNegotiations_def Let_def u_def [symmetric]
    using le r(1) a(2) n by (simp add: FRAME_BUFFER_SIZE_def protocol_numbers map_answer_def del: drop_append)
  then show ?thesis using assms r(2) a(1)
    by (simp add: moved_def ready_def can_send_def s del: drop_append)
qed

lemma node_selected:
  assumes "ready (answer2 1 4 @ ys) e s" "names_ok s"
  shows "\<exists>t. doNodeSelectingNegotiations s = Inr (True, t) \<and> moved (node_request s) ys e s t"
proof -
  let ?s = "say ''Connecting to node... '' s" and ?n = "length (nodeName s)"
  have n: "unat (of_nat (Suc ?n) :: u32) = Suc ?n" "(ucast (of_nat (Suc ?n) :: u32) :: u16) = of_nat (Suc ?n)"
    using assms(2) by (simp_all add: names_ok_def unat_of_nat_less unsigned_of_nat take_bit_nat_eq_self del: of_nat_add of_nat_Suc)
  obtain b where b: "store16 (buffer s) 0 (htons (of_nat (Suc ?n))) = Some (bytes16 (htons (of_nat (Suc ?n))) @ b)"
    "length b = 1522" using put_size_eq [of "buffer s"] assms(1) by (simp add: ready_def)
  let ?r = "drop (Suc ?n) b"
  have st: "store_bytes (bytes16 (htons (of_nat (Suc ?n))) @ b) 2 (c_str (nodeName s)) = Some (node_request s @ ?r)"
    using assms(2) b(2) by (simp add: store_bytes_def names_ok_def node_request_def string_field_def)
  have len: "length (node_request s @ ?r) = 1524" "length (node_request s) = 2 + Suc ?n"
    using assms(2) b(2) by (simp_all add: node_request_def names_ok_def)
  let ?u = "?s\<lparr>buffer := bytes16 (htons (of_nat (Suc ?n))) @ b\<rparr>"
  obtain a where a: "\<forall>c\<in>set a. 0 \<le> c"
    "\<And>k ec ec'. check_ok (sendOrReceive True ec (length (node_request s)) (?u\<lparr>buffer := node_request s @ ?r\<rparr>))
        (\<lambda>s. check_ok (sendOrReceive False ec' 8 s) k)
      = k (?u\<lparr>tx := a, wire := wire ?u @ node_request s, buffer := answer2 1 4 @ drop 8 (node_request s @ ?r),
              rx := stream_of ys e\<rparr>)"
    using exchange [of ?u "node_request s" ?r "answer2 1 4" ys e 8] assms(1) len(1)
    by (auto simp: ready_def can_send_def)
  have "doNodeSelectingNegotiations s = Inr (True, say_line ''[Done]'' (?u\<lparr>tx := a, wire := wire ?u @ node_request s,
      buffer := answer2 1 4 @ drop 8 (node_request s @ ?r), rx := stream_of ys e\<rparr>))"
    unfolding doNodeSelectingNegotiations_def Let_def n using assms(2) b(1) st a(2) len(2)
    by (simp add: FRAME_BUFFER_SIZE_def protocol_numbers node_answer_def names_ok_def n del: drop_append of_nat_add of_nat_Suc)
  then show ?thesis using assms len a(1)
    by (simp add: moved_def ready_def can_send_def del: drop_append)
qed

section \<open>Interfaces\<close>

lemma digits_sum: "(\<Sum>k<n. (x div 256 ^ k mod 256) * 256 ^ k) = x mod 256 ^ n" for x :: nat
proof (induction n)
  case (Suc n)
  have "x mod (256 ^ n * 256) = 256 ^ n * (x div 256 ^ n mod 256) + x mod 256 ^ n"
    by (rule mod_mult2_eq)
  with Suc show ?case by (simp add: mult.commute)
qed simp

lemma dec64_bytes64 [simp]: "dec64 (bytes64 w) = w"
proof -
  have "(\<Sum>k<8. unat (bytes64 w ! k) * 2 ^ (8 * k)) = (\<Sum>k<8. (unat w div 256 ^ k mod 256) * 256 ^ k)"
    by (rule sum.cong) (simp_all add: bytes64_def unat_byte_of power_mult)
  also have "\<dots> = unat w"
    using digits_sum [of "unat w" 8] unsigned_less [of w, where ?'a = nat] by simp
  finally show ?thesis by (simp add: dec64_def)
qed

text \<open>An interface as the server describes it: its type, MAC address, IP address and mask.\<close>

type_synonym description = "string \<times> u64 \<times> u32 \<times> u32"

definition known_type :: "description \<Rightarrow> bool" where
  "known_type d \<longleftrightarrow> fst d = interface_type \<or> fst d = physical_interface_type"

definition description_bytes :: "description \<Rightarrow> u8 list" where
  "description_bytes d = (case d of (kind, mac, ip, netmask) \<Rightarrow>
     c_str kind @ bytes64 mac @ bytes32 (htonl ip) @ bytes32 (htonl netmask))"

definition interface_answer :: "description \<Rightarrow> u8 list" where
  "interface_answer d = sized (description_bytes d)"

definition described :: "int \<Rightarrow> description \<Rightarrow> interface" where
  "described i d = (case d of (kind, mac, ip, netmask) \<Rightarrow>
     \<lparr>if_mac = take 6 (bytes64 mac), if_index = i, if_ip = ip, if_mask = netmask\<rparr>)"

lemma no_nul_types: "no_nul interface_type" "no_nul physical_interface_type"
  "length interface_type = 59" "length physical_interface_type = 67"
  unfolding no_nul_def interface_type_def physical_interface_type_def by code_simp+

lemma known_type_cases:
  assumes "known_type d"
  obtains kind mac ip netmask where "d = (kind, mac, ip, netmask)" "no_nul kind" "length kind \<le> 67"
    "kind = interface_type \<or> kind = physical_interface_type"
proof -
  obtain kind mac ip netmask where d: "d = (kind, mac, ip, netmask)" by (metis prod_cases4)
  moreover have "kind = interface_type \<or> kind = physical_interface_type"
    using assms d by (simp add: known_type_def)
  moreover from this have "no_nul kind" "length kind \<le> 67" using no_nul_types by auto
  ultimately show thesis using that by blast
qed

lemma interface_fields_eq:
  assumes "length p + 16 = n"
  shows "interface_fields (p @ bytes64 mac @ bytes32 (htonl ip) @ bytes32 (htonl netmask) @ r) n
    = Some (mac, ip, netmask)"
  using assms by (auto simp: interface_fields_def load64_def load32_def load_bytes_def)

lemma interface_read:
  assumes "ready (interface_answer d @ ys) e s" "known_type d" "cf_machine s = Some m"
  shows "\<exists>t. readInterfaceInformation i s
      = Inr (True, t\<lparr>cf_machine := Some (initInterface m i (fst (snd d)) (fst (snd (snd d))) (snd (snd (snd d))))\<rparr>)
    \<and> moved [] ys e s t"
proof -
  obtain kind mac ip netmask where d: "d = (kind, mac, ip, netmask)" "no_nul kind" "length kind \<le> 67"
    "kind = interface_type \<or> kind = physical_interface_type" using known_type_cases [OF assms(2)] by metis
  let ?b = "description_bytes d" let ?n = "length ?b"
  have n: "?n = length kind + 17" using d by (simp add: description_bytes_def)
  let ?t = "s\<lparr>buffer := bytes16 (htons (of_nat ?n)) @ drop 2 (buffer s), rx := stream_of (?b @ ys) e\<rparr>"
  let ?u = "?t\<lparr>buffer := ?b @ drop ?n (buffer ?t), rx := stream_of ys e\<rparr>"
  have 1: "sendOrReceive False 17 2 s = Inr (True, ?t)"
    using assms(1) receive_next [of s "bytes16 (htons (of_nat ?n))" "?b @ ys" e 2 17]
    by (simp add: ready_def interface_answer_def sized_def)
  have w: "load16 (buffer ?t) 0 = Some (htons (of_nat ?n))"
    by (simp add: load16_def load_bytes_def)
  have u: "unat (of_nat ?n :: u16) = ?n" using n d(3) by (intro unat_of_nat_less) simp
  have 2: "sendOrReceive False 19 ?n ?t = Inr (True, ?u)"
    using assms(1) n d(3) by (intro receive_next) (simp_all add: ready_def)
  have k: "starts_with_str (buffer ?u) kind"
    using d(1) by (simp add: description_bytes_def)
  have f: "interface_fields (buffer ?u) ?n = Some (mac, ip, netmask)"
    using interface_fields_eq [of "c_str kind" ?n mac ip netmask "drop ?n (buffer ?t)"] n d(1,2)
    by (simp add: description_bytes_def)
  have "readInterfaceInformation i s = Inr (True, ?u\<lparr>cf_machine := Some (initInterface m i mac ip netmask)\<rparr>)"
    unfolding readInterfaceInformation_def Let_def
    using 1 w u 2 k f d(4) n d(3) assms(3) by (auto simp: FRAME_BUFFER_SIZE_def)
  moreover have "moved [] ys e s ?u"
    using assms(1) n d(3) by (simp add: moved_def ready_def can_send_def)
  ultimately show ?thesis using d(1) by (intro exI [of _ ?u]) simp
qed

definition init_described :: "int \<Rightarrow> description \<Rightarrow> machine \<Rightarrow> machine" where
  "init_described i d m = initInterface m i (fst (snd d)) (fst (snd (snd d))) (snd (snd (snd d)))"

fun init_from :: "int \<Rightarrow> description list \<Rightarrow> machine \<Rightarrow> machine" where
  "init_from k [] m = m"
| "init_from k (d # ds) m = init_from (k + 1) ds (init_described k d m)"

fun described_from :: "int \<Rightarrow> description list \<Rightarrow> interface list" where
  "described_from k [] = []"
| "described_from k (d # ds) = described k d # described_from (k + 1) ds"

lemma length_described_from [simp]: "length (described_from k ds) = length ds"
  by (induction ds arbitrary: k) auto

lemma nth_described_from: "j < length ds \<Longrightarrow> described_from k ds ! j = described (k + int j) (ds ! j)"
proof (induction ds arbitrary: k j)
  case (Cons d ds)
  then show ?case by (cases j) (auto simp: add.assoc)
qed simp

text \<open>The machine with the interfaces of the descriptions and the custom information.\<close>

definition described_machine :: "description list \<Rightarrow> string \<Rightarrow> machine" where
  "described_machine ds info =
     \<lparr>countOfInterfaces = int (length ds), ifaces = described_from 0 ds, customInfo = info\<rparr>"

lemma init_described_eq:
  assumes "k < length (ifaces m)" "int (length (ifaces m)) = countOfInterfaces m"
  shows "init_described (int k) d m = m\<lparr>ifaces := (ifaces m)[k := described (int k) d]\<rparr>"
  using assms
  by (cases d; cases "ifaces m ! k")
    (simp add: init_described_def initInterface_def Interface_init_def described_def)

lemma init_from_eq:
  assumes "k + length ds = length (ifaces m)" "int (length (ifaces m)) = countOfInterfaces m"
  shows "init_from (int k) ds m = m\<lparr>ifaces := take k (ifaces m) @ described_from (int k) ds\<rparr>"
  using assms
proof (induction ds arbitrary: k m)
  case (Cons d ds)
  let ?m = "m\<lparr>ifaces := (ifaces m)[k := described (int k) d]\<rparr>"
  have "init_from (int (Suc k)) ds ?m
      = ?m\<lparr>ifaces := take (Suc k) (ifaces ?m) @ described_from (int (Suc k)) ds\<rparr>"
    using Cons.prems by (intro Cons.IH) auto
  moreover have "take (Suc k) ((ifaces m)[k := described (int k) d]) = take k (ifaces m) @ [described (int k) d]"
    using Cons.prems by (simp add: take_Suc_conv_app_nth)
  ultimately show ?case using Cons.prems init_described_eq [of k m d] by (simp add: add.commute)
qed simp

lemma init_from_new:
  "setCustomInformation (init_from 0 ds (Machine_new idx (int (length ds)))) info = described_machine ds info"
  using init_from_eq [of 0 ds "Machine_new idx (int (length ds))"]
  by (simp add: Machine_new_def described_machine_def setCustomInformation_def)

lemma interfaces_read:
  assumes "ready (concat (map interface_answer ds) @ ys) e s" "\<forall>d\<in>set ds. known_type d" "cf_machine s = Some m"
  shows "\<exists>t. read_interfaces [k..k + int (length ds) - 1] s = Inr (True, t) \<and> moved [] ys e s t
    \<and> cf_machine t = Some (init_from k ds m)"
  using assms
proof (induction ds arbitrary: k s m)
  case Nil
  then show ?case by (auto simp: moved_def ready_def)
next
  case (Cons d ds)
  obtain t where t: "readInterfaceInformation k s = Inr (True, t\<lparr>cf_machine := Some (init_described k d m)\<rparr>)"
    "moved [] (concat (map interface_answer ds) @ ys) e s t"
    using interface_read [of d "concat (map interface_answer ds) @ ys" e s m k] Cons.prems
    by (auto simp: init_described_def)
  let ?t = "t\<lparr>cf_machine := Some (init_described k d m)\<rparr>"
  have m: "moved [] (concat (map interface_answer ds) @ ys) e s ?t" using t(2) by (simp add: moved_def can_send_def)
  obtain u where u: "read_interfaces [k + 1..k + 1 + int (length ds) - 1] ?t = Inr (True, u)"
    "moved [] ys e ?t u" "cf_machine u = Some (init_from (k + 1) ds (init_described k d m))"
    using Cons.IH [of ?t "init_described k d m" "k + 1"] moved_ready [OF m] Cons.prems(2) by auto
  have "[k..k + int (length (d # ds)) - 1] = k # [k + 1..k + 1 + int (length ds) - 1]"
    by (subst upto.simps) (simp add: algebra_simps)
  then show ?case using t(1) u moved_trans [OF m u(2)] by (intro exI [of _ u]) simp
qed

definition answer3 :: "u32 \<Rightarrow> u32 \<Rightarrow> u32 \<Rightarrow> u8 list" where
  "answer3 a b c = bytes32 (htonl a) @ bytes32 (htonl b) @ bytes32 (htonl c)"

definition command_bytes :: "u32 \<Rightarrow> u8 list" where
  "command_bytes c = bytes32 (htonl c)"

definition interfaces_answer :: "description list \<Rightarrow> u8 list" where
  "interfaces_answer ds = answer3 2 1 (of_nat (length ds)) @ concat (map interface_answer ds)"

lemma put_command_eq:
  "length (buffer s) = 1524 \<Longrightarrow>
   put_command c s = Inr (s\<lparr>buffer := command_bytes c @ drop 4 (buffer s)\<rparr>)"
  by (simp add: put_command_def store32_def store_bytes_def command_bytes_def)

lemma length_answers [simp]: "length (answer3 a b c) = 12" "length (command_bytes x) = 4"
  by (simp_all add: answer3_def command_bytes_def)

lemma read_answer3 [simp]:
  "read_int (answer3 a b c @ r) 0 = Some (sint a)" "read_int (answer3 a b c @ r) 4 = Some (sint b)"
  "read_int (answer3 a b c @ r) 8 = Some (sint c)"
  by (simp_all add: answer3_def)

lemma interfaces_learned:
  assumes "ready (interfaces_answer ds @ ys) e s" "\<forall>d\<in>set ds. known_type d" "0 < length ds" "length ds < 2147483648"
  shows "\<exists>t. doInterfacesInformationSynchronizationNegotiations s = Inr (True, t)
    \<and> moved (command_bytes 0) ys e s t
    \<and> cf_machine t = Some (init_from 0 ds (Machine_new (fresh_index s) (int (length ds))))"
proof -
  let ?rest = "concat (map interface_answer ds) @ ys" and ?r = "drop 4 (buffer s)"
  let ?m = "Machine_new (fresh_index s) (int (length ds))"
  obtain a where a: "\<forall>c\<in>set a. 0 \<le> c"
    "\<And>k ec ec'. check_ok (sendOrReceive True ec (length (command_bytes 0)) (s\<lparr>buffer := command_bytes 0 @ ?r\<rparr>))
        (\<lambda>s. check_ok (sendOrReceive False ec' 12 s) k)
      = k (s\<lparr>tx := a, wire := wire s @ command_bytes 0,
              buffer := answer3 2 1 (of_nat (length ds)) @ drop 12 (command_bytes 0 @ ?r), rx := stream_of ?rest e\<rparr>)"
    using exchange [of s "command_bytes 0" ?r "answer3 2 1 (of_nat (length ds))" ?rest e 12] assms(1)
    by (auto simp: ready_def interfaces_answer_def)
  let ?t = "s\<lparr>tx := a, wire := wire s @ command_bytes 0,
      buffer := answer3 2 1 (of_nat (length ds)) @ drop 12 (command_bytes 0 @ ?r), rx := stream_of ?rest e,
      cf_machine := Some ?m\<rparr>"
  have mt: "moved (command_bytes 0) ?rest e s ?t"
    using assms(1) a(1) by (simp add: moved_def ready_def can_send_def)
  have n: "sint (of_nat (length ds) :: u32) = int (length ds)"
    using assms(4) by (simp add: signed_of_nat signed_take_bit_int_eq_self)
  obtain u where u: "read_interfaces [0..0 + int (length ds) - 1] ?t = Inr (True, u)" "moved [] ys e ?t u"
    "cf_machine u = Some (init_from 0 ds ?m)"
    using interfaces_read [of ds ys e ?t ?m 0] moved_ready [OF mt] assms(2) by auto
  have "doInterfacesInformationSynchronizationNegotiations s = read_interfaces [0..int (length ds) - 1] ?t"
    unfolding doInterfacesInformationSynchronizationNegotiations_def
    using assms(1,3) a(2) by (simp add: ready_def put_command_eq InterfacesInformationRequestCommand_def
        protocol_numbers n del: drop_append)
  then show ?thesis using u moved_trans [OF mt u(2)] by (intro exI [of _ u]) simp
qed

definition custom_answer :: "string \<Rightarrow> u8 list" where
  "custom_answer info = answer2 2 2 @ bytes16 (htons (of_nat (length info + 1))) @ c_str info"

lemma custom_learned:
  assumes "ready (custom_answer info @ ys) e s" "no_nul info" "length info < 1524" "cf_machine s = Some m"
  shows "\<exists>t. doCustomInformationSynchronizationNegotiations s = Inr (True, t)
    \<and> moved (command_bytes 1) ys e s t \<and> cf_machine t = Some (setCustomInformation m info)"
proof -
  let ?a = "answer2 2 2 @ bytes16 (htons (of_nat (length info + 1)))" and ?r = "drop 4 (buffer s)"
  obtain a where a: "\<forall>c\<in>set a. 0 \<le> c"
    "\<And>k ec ec'. check_ok (sendOrReceive True ec (length (command_bytes 1)) (s\<lparr>buffer := command_bytes 1 @ ?r\<rparr>))
        (\<lambda>s. check_ok (sendOrReceive False ec' 10 s) k)
      = k (s\<lparr>tx := a, wire := wire s @ command_bytes 1, buffer := ?a @ drop 10 (command_bytes 1 @ ?r),
              rx := stream_of (c_str info @ ys) e\<rparr>)"
    using exchange [of s "command_bytes 1" ?r ?a "c_str info @ ys" e 10] assms(1)
    by (auto simp: ready_def custom_answer_def)
  let ?t = "s\<lparr>tx := a, wire := wire s @ command_bytes 1, buffer := ?a @ drop 10 (command_bytes 1 @ ?r),
      rx := stream_of (c_str info @ ys) e\<rparr>"
  let ?u = "?t\<lparr>buffer := c_str info @ drop (length info + 1) (buffer ?t), rx := stream_of ys e\<rparr>"
  have lb: "length (buffer ?t) = 1524" using assms(1) by (simp add: ready_def)
  have n: "unat (of_nat (length info + 1) :: u16) = length info + 1" using assms(3) by (intro unat_of_nat_less) simp
  have w: "load16 (buffer ?t) 8 = Some (htons (of_nat (length info + 1)))"
    by (simp add: load16_def load_bytes_def)
  have r: "sendOrReceive False 23 (length info + 1) ?t = Inr (True, ?u)"
    using assms(2,3) lb by (intro receive_next) simp_all
  have i: "read_int (buffer ?t) 0 = Some 2" "read_int (buffer ?t) 4 = Some 2" by simp_all
  have "doCustomInformationSynchronizationNegotiations s
      = Inr (True, ?u\<lparr>cf_machine := Some (setCustomInformation m info)\<rparr>)"
    unfolding doCustomInformationSynchronizationNegotiations_def Let_def
    using assms a(2) w n r i by (simp add: ready_def put_command_eq CustomInformationRequestCommand_def
        protocol_numbers del: drop_append of_nat_add)
  then show ?thesis using assms lb a(1) 
    by (intro exI [of _ "?u\<lparr>cf_machine := Some (setCustomInformation m info)\<rparr>"])
      (simp add: moved_def ready_def can_send_def)
qed

section \<open>The whole negotiation\<close>

definition server_answers :: "description list \<Rightarrow> string \<Rightarrow> u8 list" where
  "server_answers ds info = answer2 0 1 @ answer2 1 2 @ answer2 1 4 @ interfaces_answer ds @ custom_answer info"

definition client_requests :: "cf \<Rightarrow> u8 list" where
  "client_requests s = signing_in_request s @ map_request s @ node_request s @ command_bytes 0 @ command_bytes 1"

definition describes :: "description list \<Rightarrow> string \<Rightarrow> bool" where
  "describes ds info \<longleftrightarrow> ds \<noteq> [] \<and> length ds < 2147483648 \<and> (\<forall>d\<in>set ds. known_type d)
     \<and> no_nul info \<and> length info < 1524"

lemma requests_moved:
  "moved req ys e s t \<Longrightarrow> signing_in_request t = signing_in_request s \<and> map_request t = map_request s
    \<and> node_request t = node_request s"
  by (auto simp: moved_def signing_in_request_def map_request_def node_request_def)

lemma negotiate:
  assumes "ready (server_answers ds info @ ys) e s" "names_ok s" "describes ds info"
  shows "\<exists>t. doInitialNegotiations s = Inr (True, t) \<and> moved (client_requests s) ys e s t
    \<and> cf_machine t = Some (described_machine ds info)"
proof -
  obtain t1 where 1: "doSigningInNegotiations s = Inr (True, t1)"
    "moved (signing_in_request s) (answer2 1 2 @ answer2 1 4 @ interfaces_answer ds @ custom_answer info @ ys) e s t1"
    using signing_in_accepted [OF _ assms(2)] assms(1) by (auto simp: server_answers_def)
  obtain t2 where 2: "doMapSelectingNegotiations t1 = Inr (True, t2)"
    "moved (map_request t1) (answer2 1 4 @ interfaces_answer ds @ custom_answer info @ ys) e t1 t2"
    using map_selected [OF moved_ready [OF 1(2)] names_ok_moved [OF 1(2) assms(2)]] by auto
  note m2 = moved_trans [OF 1(2) 2(2)]
  obtain t3 where 3: "doNodeSelectingNegotiations t2 = Inr (True, t3)"
    "moved (node_request t2) (interfaces_answer ds @ custom_answer info @ ys) e t2 t3"
    using node_selected [OF moved_ready [OF m2] names_ok_moved [OF m2 assms(2)]] by auto
  define t3' where "t3' = say ''Synchronizing information... '' t3"
  have m3: "moved (node_request t2) (interfaces_answer ds @ custom_answer info @ ys) e t2 t3'"
    using 3(2) by (simp add: moved_def can_send_def t3'_def)
  obtain t4 where 4: "doInterfacesInformationSynchronizationNegotiations t3' = Inr (True, t4)"
    "moved (command_bytes 0) (custom_answer info @ ys) e t3' t4"
    "cf_machine t4 = Some (init_from 0 ds (Machine_new (fresh_index t3') (int (length ds))))"
    using interfaces_learned [OF moved_ready [OF m3]] assms(3) by (auto simp: describes_def)
  obtain t5 where 5: "doCustomInformationSynchronizationNegotiations t4 = Inr (True, t5)"
    "moved (command_bytes 1) ys e t4 t5" "cf_machine t5 = Some (described_machine ds info)"
    using custom_learned [OF moved_ready [OF 4(2)] _ _ 4(3)] assms(3) by (auto simp: describes_def init_from_new)
  let ?t = "say (information_text (described_machine ds info)) (say_line ''[Done]'' t5)"
  note m = moved_trans [OF moved_trans [OF moved_trans [OF m2 m3] 4(2)] 5(2)]
  have "moved (client_requests s) ys e s t5"
    using m requests_moved [OF 1(2)] requests_moved [OF m2] by (simp add: client_requests_def)
  then have "moved (client_requests s) ys e s ?t" by (simp add: moved_def can_send_def)
  moreover have "doInitialNegotiations s = Inr (True, ?t)"
    using 1(1) 2(1) 3(1) 4(1) 5(1,3)
    by (simp add: doInitialNegotiations_def doInformationSynchronizationNegotiations_def t3'_def [symmetric])
  ultimately show ?thesis using 5(3) by (intro exI [of _ ?t]) simp
qed

lemma pending_ending [simp]: "pending (ending cs) = []"
  by (induction cs rule: ending.induct) auto

lemma ending_ending [simp]: "ending (ending cs) = ending cs"
  by (induction cs rule: ending.induct) auto

lemma alike_stream_of: "alike s (s\<lparr>rx := stream_of (pending (rx s)) (ending (rx s))\<rparr>)"
  by (intro alikeI) auto

lemma negotiate_chunked:
  assumes "pending (rx s) = server_answers ds info @ ys" "can_send s" "length (buffer s) = 1524"
    and "names_ok s" "describes ds info"
  obtains t where "doInitialNegotiations s = Inr (True, t)" "cf_machine t = Some (described_machine ds info)"
    and "wire t = wire s @ client_requests s" "pending (rx t) = ys" "ending (rx t) = ending (rx s)"
    and "can_send t" "length (buffer t) = 1524" "sigaction_ok t = sigaction_ok s" "thread_ok t = thread_ok s"
proof -
  let ?s = "s\<lparr>rx := stream_of (pending (rx s)) (ending (rx s))\<rparr>"
  have "ready (server_answers ds info @ ys) (ending (rx s)) ?s" using assms by (simp add: ready_def can_send_def)
  moreover have "names_ok ?s" using assms(4) by (auto simp: names_ok_def split: if_splits)
  moreover have "client_requests ?s = client_requests s"
    by (simp add: client_requests_def signing_in_request_def map_request_def node_request_def)
  ultimately obtain t where t: "doInitialNegotiations ?s = Inr (True, t)"
    "moved (client_requests s) ys (ending (rx s)) ?s t" "cf_machine t = Some (described_machine ds info)"
    using negotiate [OF _ _ assms(5)] by metis
  have "alike ?s s" using alike_stream_of [of s] by (auto simp: alike_def)
  then have "agree (doInitialNegotiations ?s) (doInitialNegotiations s)" by (rule agree_initial)
  then obtain u where u: "doInitialNegotiations s = Inr (True, u)" "alike t u" using t(1) by (auto simp: agree_def)
  have p: "pending (rx u) = pending (rx t)" "ending (rx u) = ending (rx t)" using u(2) by (simp_all add: alike_def)
  show thesis using t u p by (intro that [of u]) (simp_all add: alike_field moved_def can_send_def)
qed

section \<open>Properties\<close>

text \<open>
  C9: With a server that follows the protocol the negotiation succeeds, however the bytes of the answers
  are cut into chunks and however few bytes \<open>send\<close> takes at a time. The machine is the one the server
  described, interface by interface, the requests sent are those of the protocol, and not a byte
  behind the answers is consumed.
\<close>

theorem negotiation_learns_configuration:
  assumes "pending (rx s) = server_answers ds info @ ys" "can_send s" "length (buffer s) = 1524"
    and "names_ok s" "describes ds info"
  shows "\<exists>t. doInitialNegotiations s = Inr (True, t) \<and> cf_machine t = Some (described_machine ds info)
    \<and> wire t = wire s @ client_requests s \<and> pending (rx t) = ys"
  by (rule negotiate_chunked [OF assms]) blast

definition sample_descriptions :: "description list" where
  "sample_descriptions =
     [(interface_type, 0x0504030201000000, 0xC0A80102, 0xFFFFFF00),
      (physical_interface_type, 0x0605040302010000, 0xD5E9A950, 0xFFFFFF00)]"

definition sample_cf :: "chunk list \<Rightarrow> int list \<Rightarrow> cf" where
  "sample_cf cs accepts =
     \<lparr>connected = True, progName = ''cf'', cf_ip = 0x7F000001, cf_port = 9339, sin_addr = 0, sin_port = 0,
      mapName = ''overlay'', nodeName = ''node1'', userName = ''alice'', password = ''secret'', creatorId = ''bob'',
      needNewMap = 0, cf_machine = None, sentBytes = 0, receivedBytes = 0, initialized = False,
      buffer = replicate 1524 0, rx = cs, tx = accepts, wire = [], fresh_index = (\<lambda>_. 0),
      sigaction_ok = True, thread_ok = True, out = ''''\<rparr>"

lemma sample_cf_fields [simp]:
  "buffer (sample_cf cs ps) = replicate 1524 0" "rx (sample_cf cs ps) = cs" "tx (sample_cf cs ps) = ps"
  "wire (sample_cf cs ps) = []" "mapName (sample_cf cs ps) = ''overlay''" "nodeName (sample_cf cs ps) = ''node1''"
  "userName (sample_cf cs ps) = ''alice''" "password (sample_cf cs ps) = ''secret''"
  "creatorId (sample_cf cs ps) = ''bob''" "needNewMap (sample_cf cs ps) = 0"
  by (simp_all add: sample_cf_def)

lemma sample_names: "names_ok (sample_cf cs ps)"
  by (simp add: names_ok_def no_nul_def)

lemma sample_describes: "describes sample_descriptions ''gateway 1''"
  by (simp add: describes_def sample_descriptions_def known_type_def no_nul_def)

text \<open>The answers of the server, cut after the third byte, with a \<open>send\<close> that first takes one byte.\<close>

theorem negotiation_learns_configuration_witness:
  "\<exists>t. doInitialNegotiations (sample_cf [Data (take 3 (server_answers sample_descriptions ''gateway 1'')),
        Data (drop 3 (server_answers sample_descriptions ''gateway 1'') @ [7])] [1]) = Inr (True, t)
    \<and> cf_machine t = Some (described_machine sample_descriptions ''gateway 1'') \<and> pending (rx t) = [7]"
  using negotiation_learns_configuration [of "sample_cf [Data (take 3 (server_answers sample_descriptions ''gateway 1'')),
        Data (drop 3 (server_answers sample_descriptions ''gateway 1'') @ [7])] [1]" sample_descriptions
      "''gateway 1''" "[7]"] sample_names sample_describes
  by (auto simp: can_send_def)

section \<open>Where the buffer is left\<close>

text \<open>A run with defined behaviour that keeps the buffer.\<close>

definition sound :: "(bool \<times> cf) run \<Rightarrow> bool" where
  "sound r \<longleftrightarrow> (case r of Inl e \<Rightarrow> e \<noteq> Undefined | Inr (ok, t) \<Rightarrow> length (buffer t) = 1524)"

named_theorems sound_intros \<open>steps with defined behaviour\<close>

lemma sound_check_ok [sound_intros]:
  "sound r \<Longrightarrow> (\<And>t. length (buffer t) = 1524 \<Longrightarrow> sound (k t)) \<Longrightarrow> sound (check_ok r k)"
  by (cases r) (auto simp: sound_def check_ok_def)

lemma sound_return [sound_intros]: "length (buffer t) = 1524 \<Longrightarrow> sound (Inr (ok, t))"
  by (simp add: sound_def)

lemma sound_fail [sound_intros]: "length (buffer t) = 1524 \<Longrightarrow> sound (fail_with msg t)"
  by (simp add: sound_def fail_with_def)

lemma sound_if [sound_intros]:
  "(b \<Longrightarrow> sound r) \<Longrightarrow> (\<not> b \<Longrightarrow> sound r') \<Longrightarrow> sound (if b then r else r')"
  by simp

lemma sound_stop [sound_intros]: "e \<noteq> Undefined \<Longrightarrow> sound (Inl e)"
  by (simp add: sound_def)

lemma sound_read_int [sound_intros]:
  assumes "i + 4 \<le> length b" "\<And>v. sound (k v)"
  shows "sound (and_then (run_of (read_int b i)) k)"
  using assms by (simp add: read_int_def load32_def load_bytes_def)

lemma sound_sendOrReceive [sound_intros]:
  assumes "length (buffer s) = 1524" "n \<le> 1524"
  shows "sound (sendOrReceive d ec n s)"
proof (cases d)
  case True
  obtain ok txs w where "send_loop (take n (buffer s)) (tx s) (wire s) = (ok, txs, w)" by (metis prod_cases3)
  with True assms show ?thesis by (simp add: sendOrReceive_def transfer_def load_bytes_def sound_def)
next
  case False
  show ?thesis
  proof (cases "n \<le> length (pending (rx s))")
    case True
    then show ?thesis using recv_loop_enough [of n "rx s" 0 "buffer s"] assms False
      by (auto simp: sendOrReceive_def transfer_def sound_def)
  next
    case f: False
    then show ?thesis using recv_loop_short [of "rx s" n 0 "buffer s"] assms False
      by (auto simp: sendOrReceive_def transfer_def sound_def split: list.splits chunk.splits)
  qed
qed

lemma sound_map_answer [sound_intros]: "length (buffer t) = 1524 \<Longrightarrow> sound (map_answer c t)"
  unfolding map_answer_def by (intro sound_intros) simp_all

lemma sound_node_answer [sound_intros]: "length (buffer t) = 1524 \<Longrightarrow> sound (node_answer c t)"
  unfolding node_answer_def by (intro sound_intros) simp_all

text \<open>
  C26: Signing in and selecting the node never leave the buffer, whatever the names are and whatever the
  server answers: they return, wait for the server forever, or end the process.
\<close>

theorem requests_stay_in_buffer:
  assumes "length (buffer s) = 1524" "no_nul (userName s)" "no_nul (password s)" "no_nul (nodeName s)"
    and "length (nodeName s) < 4294967295"
  shows "doSigningInNegotiations s \<noteq> Inl Undefined \<and> doNodeSelectingNegotiations s \<noteq> Inl Undefined"
proof -
  have "sound (doSigningInNegotiations s)"
  proof (cases "20 < length (userName s) \<or> 50 < length (password s)")
    case True
    then show ?thesis using assms(1) by (simp add: doSigningInNegotiations_def sound_fail)
  next
    case False
    let ?s = "say ''Signing in... '' s"
    have q: "signing_in_request ?s = signing_in_request s" by (simp add: signing_in_request_def)
    obtain r where r: "signing_in_message ?s = Some (signing_in_request s @ r, length (signing_in_request s))"
      "length (signing_in_request s @ r) = 1524" using signing_in_message_eq [of ?s] assms False q by auto
    have n: "unat (of_nat (length (signing_in_request s)) :: u16) \<le> 1524"
      using r(2) by (subst unat_of_nat_less) simp_all
    show ?thesis using False r n unfolding doSigningInNegotiations_def Let_def
      by (simp, intro sound_intros) simp_all
  qed
  moreover have "sound (doNodeSelectingNegotiations s)"
  proof (cases "nodeName s = []")
    case True
    then show ?thesis by (simp add: doNodeSelectingNegotiations_def sound_stop)
  next
    case False
    let ?n = "length (nodeName s)"
    have n: "unat (of_nat (Suc ?n) :: u32) = Suc ?n" using assms(5) by (intro unat_of_nat_less) simp
    obtain b where b: "\<And>w. store16 (buffer s) 0 w = Some (bytes16 w @ b)" "length b = 1522"
      using put_size_eq [of "buffer s"] assms(1) by simp
    have st: "store_bytes (bytes16 w @ b) 2 (c_str (nodeName s)) = Some (bytes16 w @ c_str (nodeName s) @ drop (Suc ?n) b)"
      if "Suc ?n \<le> 1522" for w using that assms(4) b(2) by (simp add: store_bytes_def)
    show ?thesis
    proof (cases "1522 < Suc ?n")
      case True
      then show ?thesis using False b n unfolding doNodeSelectingNegotiations_def Let_def
        by (simp add: FRAME_BUFFER_SIZE_def sound_fail del: of_nat_Suc)
    next
      case le: False
      show ?thesis using False le b n st assms(4) unfolding doNodeSelectingNegotiations_def Let_def
        by (simp add: FRAME_BUFFER_SIZE_def del: of_nat_Suc, intro sound_intros) simp_all
    qed
  qed
  ultimately show ?thesis by (auto simp: sound_def)
qed

theorem requests_stay_in_buffer_witness:
  "doSigningInNegotiations (sample_cf [Data [1, 2], Closed] []) \<noteq> Inl Undefined
    \<and> doNodeSelectingNegotiations (sample_cf [Data [1, 2], Closed] []) \<noteq> Inl Undefined"
  using requests_stay_in_buffer [of "sample_cf [Data [1, 2], Closed] []"] by (simp add: no_nul_def)

text \<open>
  C24: The length check of the map request forgets the two NULs: on names of together 1513 or 1514
  characters the request is written past the buffer, on longer ones it is refused, on shorter ones
  nothing is undefined.
\<close>

theorem map_request_overrun:
  assumes "length (buffer s) = 1524" "no_nul (mapName s)"
    and "no_nul (if needNewMap s \<noteq> 0 then userName s else creatorId s)"
  shows "doMapSelectingNegotiations s = Inl Undefined \<longleftrightarrow>
    length (mapName s) + length (if needNewMap s \<noteq> 0 then userName s else creatorId s) \<in> {1513, 1514}"
proof -
  define u where "u = (let s = say ''Selecting map... '' s in
    if needNewMap s \<noteq> 0 then s\<lparr>creatorId := userName s\<rparr> else s)"
  let ?n = "length (mapName u) + length (creatorId u)"
  have u: "length (buffer u) = 1524" "no_nul (mapName u)" "no_nul (creatorId u)" "mapName u = mapName s"
    "creatorId u = (if needNewMap s \<noteq> 0 then userName s else creatorId s)"
    "needNewMap u \<noteq> 0 \<Longrightarrow> creatorId u = userName u"
    using assms by (auto simp: u_def Let_def)
  consider "1514 < ?n" | "?n \<in> {1513, 1514}" | "?n \<le> 1512" by fastforce
  then have "doMapSelectingNegotiations s = Inl Undefined \<longleftrightarrow> ?n \<in> {1513, 1514}"
  proof cases
    case 1
    then show ?thesis unfolding doMapSelectingNegotiations_def u_def [unfolded Let_def, symmetric] Let_def
      by (simp add: FRAME_BUFFER_SIZE_def fail_with_def)
  next
    case 2
    then have "map_message u = None" using map_message_eq [of u] u by auto
    then show ?thesis using 2 unfolding doMapSelectingNegotiations_def u_def [unfolded Let_def, symmetric] Let_def
      by (auto simp: FRAME_BUFFER_SIZE_def)
  next
    case 3
    obtain r where r: "map_message u = Some (map_request u @ r, length (map_request u))"
      "length (map_request u @ r) = 1524" using map_message_eq [of u] u 3 by auto
    have n: "unat (of_nat (length (map_request u)) :: u16) \<le> 1524"
      using r(2) by (subst unat_of_nat_less) simp_all
    have "sound (doMapSelectingNegotiations s)"
      using 3 r n unfolding doMapSelectingNegotiations_def u_def [unfolded Let_def, symmetric] Let_def
      by (simp add: FRAME_BUFFER_SIZE_def, intro sound_intros) simp_all
    then show ?thesis using 3 by (auto simp: sound_def)
  qed
  then show ?thesis by (simp add: u)
qed

theorem map_request_overrun_witness:
  "doMapSelectingNegotiations ((sample_cf [] [])\<lparr>mapName := replicate 1510 (CHR ''a'')\<rparr>) = Inl Undefined
    \<and> doMapSelectingNegotiations (sample_cf [] []) \<noteq> Inl Undefined"
  using map_request_overrun [of "(sample_cf [] [])\<lparr>mapName := replicate 1510 (CHR ''a'')\<rparr>"]
    map_request_overrun [of "sample_cf [] []"]
  by (simp add: no_nul_def)

text \<open>
  C25: The size of the custom information comes from the server as 16 bits and is not compared with the
  buffer: of a larger text that arrives, the bytes behind the first 1524 are written past it.
\<close>

theorem custom_information_overrun:
  assumes "pending (rx s) = answer2 2 2 @ bytes16 (htons (of_nat n)) @ ys" "can_send s" "length (buffer s) = 1524"
    and "1524 < n" "n < 65536" "1524 < length ys"
  shows "doCustomInformationSynchronizationNegotiations s = Inl Undefined"
proof -
  let ?e = "ending (rx s)" and ?a = "answer2 2 2 @ bytes16 (htons (of_nat n))" and ?r = "drop 4 (buffer s)"
  let ?s = "s\<lparr>rx := stream_of (pending (rx s)) ?e\<rparr>"
  obtain a where a:
    "\<And>k ec ec'. check_ok (sendOrReceive True ec (length (command_bytes 1)) (?s\<lparr>buffer := command_bytes 1 @ ?r\<rparr>))
        (\<lambda>s. check_ok (sendOrReceive False ec' 10 s) k)
      = k (?s\<lparr>tx := a, wire := wire ?s @ command_bytes 1, buffer := ?a @ drop 10 (command_bytes 1 @ ?r),
              rx := stream_of ys ?e\<rparr>)"
    using exchange [of ?s "command_bytes 1" ?r ?a ys ?e 10] assms(1-3) by (auto simp: can_send_def)
  let ?t = "?s\<lparr>tx := a, wire := wire ?s @ command_bytes 1, buffer := ?a @ drop 10 (command_bytes 1 @ ?r),
      rx := stream_of ys ?e\<rparr>"
  have w: "load16 (buffer ?t) 8 = Some (htons (of_nat n))" by (simp add: load16_def load_bytes_def)
  have n: "unat (of_nat n :: u16) = n" using assms(5) by (intro unat_of_nat_less) simp
  have "length (buffer ?t) = 1524" using assms(3) by simp
  then have r: "sendOrReceive False 23 n ?t = Inl Undefined"
    using recv_loop_overrun [of 0 "buffer ?t" n "rx ?t"] assms(4,6)
    by (simp add: sendOrReceive_def transfer_def del: drop_append)
  have i: "read_int (buffer ?t) 0 = Some 2" "read_int (buffer ?t) 4 = Some 2" by simp_all
  have "doCustomInformationSynchronizationNegotiations ?s = Inl Undefined"
    unfolding doCustomInformationSynchronizationNegotiations_def Let_def
    using assms(3,4) a w n r i by (simp add: put_command_eq CustomInformationRequestCommand_def protocol_numbers
        del: drop_append)
  moreover have "agree (doCustomInformationSynchronizationNegotiations ?s)
      (doCustomInformationSynchronizationNegotiations s)"
    by (rule agree_custom_information) (simp add: alike_def)
  ultimately show ?thesis by simp
qed

theorem custom_information_overrun_witness:
  "doCustomInformationSynchronizationNegotiations (sample_cf [Data (answer2 2 2 @ bytes16 (htons 2000)
     @ replicate 2000 65)] []) = Inl Undefined"
  using custom_information_overrun [of "sample_cf [Data (answer2 2 2 @ bytes16 (htons 2000) @ replicate 2000 65)] []"
      2000 "replicate 2000 65"]
  by (simp add: can_send_def)

text \<open>
  C22: The outcome of the negotiation does not depend on how the network cuts the server's bytes into
  chunks: runs from states that differ in nothing else end alike.
\<close>

theorem negotiation_chunking:
  assumes "pending cs = pending (rx s)" "ending cs = ending (rx s)"
  shows "agree (doInitialNegotiations s) (doInitialNegotiations (s\<lparr>rx := cs\<rparr>))"
  by (rule agree_initial) (rule alikeI [OF assms])

theorem negotiation_chunking_witness:
  "agree (doInitialNegotiations (sample_cf [Data (answer2 0 1), Closed] []))
    (doInitialNegotiations (sample_cf [Data [0, 0], Data [], Data (drop 2 (answer2 0 1)), Closed] []))"
  using negotiation_chunking [of "[Data [0, 0], Data [], Data (drop 2 (answer2 0 1)), Closed]"
      "sample_cf [Data (answer2 0 1), Closed] []"]
  by (simp add: answer2_def wire_simps sample_cf_def)

end
