(* ===== verification/EventLoop.thy ===== *)
theory EventLoop
  imports Session Outgoing
begin

text \<open>
  The running simulation (base/cf.cpp, base/main.cpp): connecting, starting, the event loop that reads
  frames from the server and hands them to \<open>processFrame\<close>, and the recovery after an error.

  \<open>processFrame\<close> is a virtual method of the machine: here a function \<open>h\<close> of the machine's own state
  that gives its new state and the frames it passes to \<open>sendFrame\<close>, whose results it does not use, or
  \<open>None\<close> for undefined behaviour. The theory Simulation instantiates it with the overlay node.
\<close>

type_synonym 'm handler = "'m \<Rightarrow> frame \<Rightarrow> int \<Rightarrow> ('m \<times> (u8 list \<times> int) list) option"

section \<open>Connecting\<close>

text \<open>What \<open>socket\<close> and \<open>connect\<close> give, with the traffic on the new connection.\<close>

datatype dial = No_socket | Refused | Accepted "chunk list" "int list"

definition quoted :: "string \<Rightarrow> string" where
  "quoted str = [CHR 0x22] @ str @ [CHR 0x22]"

definition connectToServer :: "dial \<Rightarrow> cf \<Rightarrow> (bool \<times> cf) run" where
  "connectToServer d s =
     (let s = say_line (''Connecting to Partov server at '' @ dotted (ntohl (sin_addr s)) @ '':''
                 @ show_nat (unat (ntohs (sin_port s)))) s;
          s = say (''           to map/node '' @ quoted (mapName s) @ ''/'' @ quoted (nodeName s) @ '' ... '') s
      in case d of
        No_socket \<Rightarrow> Inr (False, say_line ''[Failed]'' s)
      | Refused \<Rightarrow> Inr (False, say_line ''[Failed]'' (s\<lparr>connected := True, rx := [], tx := []\<rparr>))
      | Accepted cs accepts \<Rightarrow>
          Inr (True, say_line '' [Done]'' (s\<lparr>connected := True, rx := cs, tx := accepts\<rparr>)))"

section \<open>The event loop\<close>

definition stop_with :: "nat \<Rightarrow> 'm \<Rightarrow> cf \<Rightarrow> (bool \<times> 'm \<times> cf) run" where
  "stop_with code um s = Inr (False, um, say_line (''An IO exception occurred (error code ''
     @ show_nat code @ ''). Aborting simulation...'') s)"

fun send_frames :: "(u8 list \<times> int) list \<Rightarrow> cf \<Rightarrow> cf run" where
  "send_frames [] s = Inr s"
| "send_frames ((d, i) # fs) s =
     and_then (Machine_sendFrame (Frame_new (of_nat (length d)) d) i s) (\<lambda>(ok, s). send_frames fs s)"

text \<open>
  One round of \<open>simulationEventLoop\<close>: true to go on, false after a \<open>break\<close>. The frame handed to the
  machine points into the framework's buffer, behind the four bytes of the interface index.
\<close>

definition receive_warning :: "nat \<Rightarrow> 'm \<Rightarrow> cf \<Rightarrow> (bool \<times> 'm \<times> cf) run" where
  "receive_warning n um s =
     (if n < 1 then stop_with 27 um s
      else and_then (sendOrReceive False (- 1) n s) (\<lambda>(ok, s).
        if \<not> ok then stop_with 27 um s
        else and_then (run_of (string_in (buffer s))) (\<lambda>desc.
          Inr (True, um, say_line (''-- '' @ desc) (say_line ''Warning: Interface index was wrong.'' s)))))"

definition receive_frame :: "'m handler \<Rightarrow> nat \<Rightarrow> 'm \<Rightarrow> cf \<Rightarrow> (bool \<times> 'm \<times> cf) run" where
  "receive_frame h n um s =
     and_then (sendOrReceive False (- 1) n s) (\<lambda>(ok, s).
       if \<not> ok then stop_with 29 um s
       else and_then (run_of (read_int (buffer s) 0)) (\<lambda>interfaceIndex.
         and_then (run_of (cf_machine s)) (\<lambda>m.
         if interfaceIndex < 0 \<or> getCountOfInterfaces m \<le> interfaceIndex then stop_with 30 um s
         else let s = s\<lparr>receivedBytes := receivedBytes s + of_nat (n - 4)\<rparr> in
           and_then (run_of (h um (Frame_new (of_nat (n - 4)) (drop 4 (buffer s))) interfaceIndex)) (\<lambda>(um, fs).
           and_then (send_frames fs s) (\<lambda>s. Inr (True, um, s))))))"

definition event_round :: "'m handler \<Rightarrow> 'm \<Rightarrow> cf \<Rightarrow> (bool \<times> 'm \<times> cf) run" where
  "event_round h um s =
     and_then (sendOrReceive False (- 1) 6 s) (\<lambda>(ok, s).
       if \<not> ok then stop_with 26 um s
       else and_then (run_of (read_int (buffer s) 0)) (\<lambda>c.
         and_then (run_of (load16 (buffer s) 4)) (\<lambda>w.
         let n = unat (ntohs w) in
         if c = InvalidInterfaceIndexType then receive_warning n um s
         else if c \<noteq> RawFrameReceivedNotificationType \<or> n < 4 \<or> FRAME_BUFFER_SIZE < n
         then stop_with 28 um s
         else receive_frame h n um s)))"

section \<open>Termination\<close>

text \<open>Each round that goes on has taken bytes from the stream; sending takes none.\<close>

lemma receive_consumes:
  assumes "sendOrReceive False ec n s = Inr (True, t)"
  shows "n + length (pending (rx t)) = length (pending (rx s)) \<and> ending (rx t) = ending (rx s)"
  using assms recv_loop_consumes
  by (fastforce simp: sendOrReceive_def transfer_def and_then_eq_Inr split: if_splits)

text \<open>What sending leaves alone.\<close>

definition only_sent :: "cf \<Rightarrow> cf \<Rightarrow> bool" where
  "only_sent s t \<longleftrightarrow> rx t = rx s \<and> receivedBytes t = receivedBytes s \<and> cf_machine t = cf_machine s \<and> buffer t = buffer s"

lemma only_sent_refl [simp]: "only_sent s s"
  by (simp add: only_sent_def)

lemma only_sent_trans: "only_sent s t \<Longrightarrow> only_sent t u \<Longrightarrow> only_sent s u"
  by (simp add: only_sent_def)

lemma send_or_say_only:
  assumes "send_or_say msg n mem s = Inr (ok, t)"
  shows "only_sent s t"
proof (cases "load_bytes mem 0 n")
  case None
  then show ?thesis using assms by (simp add: send_or_say_def transfer_def)
next
  case (Some bs)
  obtain ok' txs w where "send_loop bs (tx s) (wire s) = (ok', txs, w)" by (metis prod_cases3)
  then show ?thesis using assms Some
    by (auto simp: send_or_say_def transfer_def only_sent_def split: if_splits)
qed

lemma Machine_sendFrame_only:
  assumes "Machine_sendFrame fr i s = Inr (ok, t)"
  shows "only_sent s t"
proof (cases "unat (flength fr) < 14 \<or> 65532 \<le> unat (flength fr)")
  case True
  then show ?thesis using assms
    by (auto simp: Machine_sendFrame_def sendFrame_def realSendFrame_def only_sent_def)
next
  case False
  let ?m1 = "''Error in sending frame on simulated machine. [error code 32]''"
  let ?m2 = "''Error in sending frame on simulated machine. [error code 33]''"
  from assms False obtain ok1 s1 where 1: "send_or_say ?m1 10 (frame_header (flength fr) i) s = Inr (ok1, s1)"
    by (cases "send_or_say ?m1 10 (frame_header (flength fr) i) s")
      (auto simp: Machine_sendFrame_def sendFrame_def realSendFrame_def)
  show ?thesis
  proof (cases ok1)
    case True
    from assms False 1 True obtain ok2 s2 where
      2: "send_or_say ?m2 (unat (flength fr)) (fdata fr) s1 = Inr (ok2, s2)"
      by (cases "send_or_say ?m2 (unat (flength fr)) (fdata fr) s1")
        (auto simp: Machine_sendFrame_def sendFrame_def realSendFrame_def)
    have "only_sent s s2" using send_or_say_only [OF 1] send_or_say_only [OF 2] by (rule only_sent_trans)
    then show ?thesis using assms False 1 2 True
      by (cases ok2) (auto simp: Machine_sendFrame_def sendFrame_def realSendFrame_def only_sent_def)
  next
    case f: False
    then have "t = s1" using assms False 1
      by (auto simp: Machine_sendFrame_def sendFrame_def realSendFrame_def)
    then show ?thesis using send_or_say_only [OF 1] by simp
  qed
qed

lemma send_frames_only: "send_frames fs s = Inr t \<Longrightarrow> only_sent s t"
proof (induction fs s rule: send_frames.induct)
  case (2 d i fs s)
  then obtain ok u where "Machine_sendFrame (Frame_new (of_nat (length d)) d) i s = Inr (ok, u)"
    "send_frames fs u = Inr t" by (auto simp: and_then_eq_Inr)
  then show ?case using 2(1) Machine_sendFrame_only only_sent_trans by (metis case_prod_conv)
qed simp

lemma send_frames_rx: "send_frames fs s = Inr t \<Longrightarrow> rx t = rx s"
  using send_frames_only by (fastforce simp: only_sent_def)

lemma event_round_consumes:
  assumes "event_round h um s = Inr (True, um', t)"
  shows "length (pending (rx t)) < length (pending (rx s))"
  using assms
  by (fastforce simp: event_round_def receive_warning_def receive_frame_def stop_with_def Let_def and_then_eq_Inr
      dest!: receive_consumes send_frames_rx split: if_splits)

function event_loop :: "'m handler \<Rightarrow> 'm \<Rightarrow> cf \<Rightarrow> ('m \<times> cf) run" where
  "event_loop h um s = (case event_round h um s of
       Inl e \<Rightarrow> Inl e
     | Inr (again, um', s') \<Rightarrow> if again then event_loop h um' s' else Inr (um', s'))"
  by pat_completeness auto
termination
  by (relation "measure (\<lambda>(h, um, s). length (pending (rx s)))") (auto dest: event_round_consumes)

declare event_loop.simps [simp del]

section \<open>Starting, recovering, ending\<close>

definition announceSimulationResume :: "cf \<Rightarrow> (bool \<times> cf) run" where
  "announceSimulationResume s =
     and_then (put_command StartingSimulationRequestCommand (say ''Resuming simulation......... '' s)) (\<lambda>s.
     check_ok (sendOrReceive True 24 4 s) (\<lambda>s.
     check_ok (sendOrReceive False 25 4 s) (\<lambda>s.
     and_then (run_of (read_int (buffer s) 0)) (\<lambda>c.
     if c \<noteq> SimulationStartedNotificationType
     then fail_with ''+++ Resuming simulation does not verified by server.'' s
     else Inr (True, say_line rule_line (say_line ''[Done]'' s))))))"

text \<open>
  \<open>recoverSimulation\<close> tries the connections \<open>d # ds\<close> in turn; it ends at the first attempt that fails,
  and, when the list is used up, without a socket.
\<close>

definition reconnect :: "dial \<Rightarrow> cf \<Rightarrow> (bool \<times> cf) run" where
  "reconnect d s =
     (let s = (say_line ''Trying to recover the simulation...............'' s)\<lparr>connected := False, needNewMap := 0\<rparr> in
      check_ok (connectToServer d s) (\<lambda>s.
      check_ok (doInitialRecoveryNegotiations s) announceSimulationResume))"

fun recoverSimulation :: "'m handler \<Rightarrow> dial list \<Rightarrow> 'm \<Rightarrow> cf \<Rightarrow> ('m \<times> cf) run" where
  "recoverSimulation h [] um s = and_then (reconnect No_socket s) (\<lambda>(ok, s). Inr (um, s))"
| "recoverSimulation h (d # ds) um s =
     and_then (reconnect d s) (\<lambda>(ok, s).
       if ok then and_then (event_loop h um s) (\<lambda>(um, s). recoverSimulation h ds um s)
       else Inr (um, s))"

text \<open>
  The second thread, up to its signal: \<open>initialize\<close> (\<open>ini\<close>, on the machine of the framework), then
  \<open>initialized\<close>. Its last step, \<open>run\<close>, is part of the machine's state: the handler of the machine does the
  steps of \<open>run\<close> that fall before a frame.
\<close>

definition st_run :: "(machine \<Rightarrow> 'm option) \<Rightarrow> cf \<Rightarrow> ('m \<times> cf) run" where
  "st_run ini s = and_then (run_of (cf_machine s)) (\<lambda>m. and_then (run_of (ini m)) (\<lambda>um.
     Inr (um, s\<lparr>initialized := True\<rparr>)))"

text \<open>The main thread waits for the signal before it enters the event loop.\<close>

definition simulateMachine ::
  "(machine \<Rightarrow> 'm option) \<Rightarrow> 'm handler \<Rightarrow> dial list \<Rightarrow> cf \<Rightarrow> cf run" where
  "simulateMachine ini h ds s =
     (if \<not> thread_ok s
      then Inr (say_line ''Can not start the simulator thread. Check POSIX installation.'' s)
      else and_then (st_run ini s) (\<lambda>(um, s).
        and_then (event_loop h um s) (\<lambda>(um, s).
        and_then (recoverSimulation h ds um s) (\<lambda>(um, s). Inr s))))"

text \<open>
  The handler of \<open>SIGINT\<close> prints the byte counts and ends the process; the text goes with the process.
\<close>

definition SIGINT :: int where "SIGINT = 2"

definition systemInterrupt :: "int \<Rightarrow> cf \<Rightarrow> cf run" where
  "systemInterrupt signalNumber s = (if signalNumber \<noteq> SIGINT then Inr s else Inl (Exit 0))"

definition startSimulation ::
  "(machine \<Rightarrow> 'm option) \<Rightarrow> 'm handler \<Rightarrow> dial list \<Rightarrow> cf \<Rightarrow> (bool \<times> cf) run" where
  "startSimulation ini h ds s =
     and_then (put_command StartingSimulationRequestCommand (say ''Starting simulation... '' s)) (\<lambda>s.
     check_ok (sendOrReceive True 24 4 s) (\<lambda>s.
     check_ok (sendOrReceive False 25 4 s) (\<lambda>s.
     and_then (run_of (read_int (buffer s) 0)) (\<lambda>c.
     if c \<noteq> SimulationStartedNotificationType
     then fail_with ''+++ Starting simulation does not verified by server.'' s
     else if \<not> sigaction_ok s
     then Inr (False, say_line ''Make sure that you have POSIX library installed.''
            (say_line ''Failed to handle the interrupt signal.'' (say_line ''[Failed]'' s)))
     else let s = say_line rule_line
                    (say_line ''Simulation started. You will receive all frames of the machine from now on.''
                    (say_line ''[Done]'' s)) in
       and_then (simulateMachine ini h ds s) (\<lambda>s.
       and_then (systemInterrupt SIGINT s) (\<lambda>s. Inr (True, s)))))))"

section \<open>Rounds of the event loop\<close>

lemma receive_enough:
  assumes "n \<le> length (pending (rx s))" "n \<le> length (buffer s)"
  obtains cs where "sendOrReceive False ec n s
      = Inr (True, s\<lparr>rx := cs, buffer := take n (pending (rx s)) @ drop n (buffer s)\<rparr>)"
    and "pending cs = drop n (pending (rx s))" "ending cs = ending (rx s)"
  using recv_loop_enough [of n "rx s" 0 "buffer s"] assms
  by (auto simp: sendOrReceive_def transfer_def)

text \<open>The notice by which the server passes the frame \<open>d\<close> to the interface \<open>j\<close>.\<close>

definition frame_notice :: "int \<Rightarrow> u8 list \<Rightarrow> u8 list" where
  "frame_notice j d = bytes32 (htonl 4) @ bytes16 (htons (of_nat (4 + length d)))
     @ bytes32 (htonl (word_of_int j)) @ d"

definition notice_head :: "u32 \<Rightarrow> u16 \<Rightarrow> u8 list" where
  "notice_head c n = bytes32 (htonl c) @ bytes16 (htons n)"

lemma length_notice_head [simp]: "length (notice_head c n) = 6"
  by (simp add: notice_head_def)

text \<open>A round reads the head of a notice and branches.\<close>

lemma event_round_head:
  assumes "pending (rx s) = notice_head c (of_nat n) @ ys" "length (buffer s) = 1524" "n < 65536"
  obtains t where "event_round h um s =
      (if sint c = 5 then receive_warning n um t
       else if sint c \<noteq> 4 \<or> n < 4 \<or> 1524 < n then stop_with 28 um t else receive_frame h n um t)"
    and "pending (rx t) = ys" "ending (rx t) = ending (rx s)" "length (buffer t) = 1524"
    and "cf_machine t = cf_machine s" "receivedBytes t = receivedBytes s" "wire t = wire s" "tx t = tx s"
    and "out t = out s" "buffer t = notice_head c (of_nat n) @ drop 6 (buffer s)"
proof -
  obtain cs where cs: "sendOrReceive False (- 1) 6 s
      = Inr (True, s\<lparr>rx := cs, buffer := take 6 (pending (rx s)) @ drop 6 (buffer s)\<rparr>)"
    "pending cs = drop 6 (pending (rx s))" "ending cs = ending (rx s)"
    using receive_enough [of 6 s "- 1"] assms(1,2) by auto
  let ?t = "s\<lparr>rx := cs, buffer := notice_head c (of_nat n) @ drop 6 (buffer s)\<rparr>"
  have r: "sendOrReceive False (- 1) 6 s = Inr (True, ?t)" using cs(1) assms(1) by simp
  have "read_int (buffer ?t) 0 = Some (sint c)" by (simp add: notice_head_def)
  moreover have "load16 (buffer ?t) 4 = Some (htons (of_nat n))"
    by (simp add: notice_head_def load16_def load_bytes_def)
  moreover have "unat (of_nat n :: u16) = n" using assms(3) by (intro unat_of_nat_less) simp
  ultimately have "event_round h um s =
      (if sint c = 5 then receive_warning n um ?t
       else if sint c \<noteq> 4 \<or> n < 4 \<or> 1524 < n then stop_with 28 um ?t else receive_frame h n um ?t)"
    using r by (simp add: event_round_def Let_def protocol_numbers FRAME_BUFFER_SIZE_def)
  then show thesis using that [of ?t] cs assms by simp
qed

lemma event_round_frame:
  assumes "pending (rx s) = frame_notice j d @ ys" "length (buffer s) = 1524" "length d \<le> 1520"
    and "cf_machine s = Some m" "0 \<le> j" "j < countOfInterfaces m" "j < 2147483648"
  shows "\<exists>c mem. event_round h um s = and_then (run_of (h um (Frame_new (of_nat (length d)) mem) j)) (\<lambda>(um', fs).
        and_then (send_frames fs c) (\<lambda>t. Inr (True, um', t)))
    \<and> take (length d) mem = d \<and> length mem = 1520 \<and> pending (rx c) = ys \<and> ending (rx c) = ending (rx s)
    \<and> receivedBytes c = receivedBytes s + of_nat (length d) \<and> cf_machine c = Some m
    \<and> length (buffer c) = 1524 \<and> wire c = wire s \<and> tx c = tx s"
proof -
  let ?b = "bytes32 (htonl (word_of_int j)) @ d" and ?n = "4 + length d"
  have p: "pending (rx s) = notice_head 4 (of_nat ?n) @ ?b @ ys"
    using assms(1) by (simp add: frame_notice_def notice_head_def)
  obtain t where t: "event_round h um s = receive_frame h ?n um t" "pending (rx t) = ?b @ ys"
    "ending (rx t) = ending (rx s)" "length (buffer t) = 1524" "cf_machine t = cf_machine s"
    "receivedBytes t = receivedBytes s" "wire t = wire s" "tx t = tx s"
    using assms(3) by (rule_tac event_round_head [OF p assms(2), where h = h and um = um]) auto
  obtain cs where cs: "sendOrReceive False (- 1) ?n t
      = Inr (True, t\<lparr>rx := cs, buffer := take ?n (pending (rx t)) @ drop ?n (buffer t)\<rparr>)"
    "pending cs = drop ?n (pending (rx t))" "ending cs = ending (rx t)"
    using receive_enough [of ?n t "- 1"] t(2,4) assms(3) by auto
  let ?u = "t\<lparr>rx := cs, buffer := ?b @ drop ?n (buffer t)\<rparr>"
  have r: "sendOrReceive False (- 1) ?n t = Inr (True, ?u)" using cs(1) t(2) by simp
  have i: "read_int (buffer ?u) 0 = Some j"
    using assms(5,7) by (simp add: sint_word_ariths signed_of_int signed_take_bit_int_eq_self)
  let ?c = "?u\<lparr>receivedBytes := receivedBytes ?u + of_nat (?n - 4)\<rparr>"
  have m: "drop 4 (buffer ?c) = d @ drop ?n (buffer t)" by simp
  have "event_round h um s = and_then (run_of (h um (Frame_new (of_nat (length d)) (drop 4 (buffer ?c))) j))
      (\<lambda>(um', fs). and_then (send_frames fs ?c) (\<lambda>t. Inr (True, um', t)))"
    unfolding t(1) receive_frame_def Let_def
    using r i assms(4-6) t(5) by (simp add: getCountOfInterfaces_def)
  moreover have "take (length d) (drop 4 (buffer ?c)) = d" "length (drop 4 (buffer ?c)) = 1520"
    using assms(3) t(4) by (simp_all add: m)
  ultimately show ?thesis using cs(2,3) t assms(3,4)
    by (intro exI [of _ ?c] exI [of _ "drop 4 (buffer ?c)"]) simp
qed

section \<open>Properties\<close>

text \<open>
  The server passes a frame message on to an interface of another node: it keeps the size and the
  bytes of the frame and writes its own type and the interface's index.
\<close>

definition relayed :: "int \<Rightarrow> u8 list \<Rightarrow> u8 list" where
  "relayed j msg = bytes32 (htonl 4) @ take 2 (drop 4 msg) @ bytes32 (htonl (word_of_int j)) @ drop 10 msg"

lemma relayed_message:
  "relayed j (frame_header (of_nat (length d)) i @ d) = frame_notice j d" if "length d < 65532"
proof -
  have "unat (of_nat (length d) :: u32) = length d" using that by (intro unat_of_nat_less) simp
  then show ?thesis by (simp add: relayed_def frame_header_def frame_notice_def)
qed

lemma sendFrame_message:
  assumes "can_send s" "14 \<le> length d" "length d < 65532"
  obtains t where "sendFrame (Frame_new (of_nat (length d)) d) i s = Inr (True, t)"
    and "wire t = wire s @ frame_header (of_nat (length d)) i @ d"
    and "sentBytes t = sentBytes s + of_nat (length d)"
proof -
  have n: "unat (of_nat (length d) :: u32) = length d" using assms(3) by (intro unat_of_nat_less) simp
  obtain t where t: "realSendFrame (Frame_new (of_nat (length d)) d) i s
      = Inr (True, t\<lparr>sentBytes := sentBytes t + ucast (of_nat (length d) :: u32)\<rparr>)"
    "sent (frame_header (of_nat (length d)) i @ d) s t"
    using realSendFrame_sent [of s "Frame_new (of_nat (length d)) d" i] assms n by (auto simp: Frame_new_def)
  have "(ucast (of_nat (length d) :: u32) :: u64) = of_nat (length d)"
    using n assms(3) by (simp add: word_unat_eq_iff unsigned_ucast_eq take_bit_nat_eq_self unat_of_nat_less)
  moreover obtain a where "t = s\<lparr>tx := a, wire := wire s @ frame_header (of_nat (length d)) i @ d\<rparr>"
    using t(2) by (auto simp: sent_def)
  ultimately show thesis using that t(1) by (simp add: sendFrame_def)
qed

text \<open>
  C10: Relay. A frame of 14 to 1520 bytes that one node sends, passed on by the server, reaches the machine
  of the other node byte for byte, with its length and the interface's index, and not a byte behind
  it is consumed. Both byte counts grow by its length.
\<close>

theorem frame_relay:
  assumes "sendFrame (Frame_new (of_nat (length d)) d) i a = Inr (True, a')" "wire a' = wire a @ msg"
    and "can_send a" "14 \<le> length d" "length d \<le> 1520" "pending (rx b) = relayed j msg @ ys"
    and "length (buffer b) = 1524" "cf_machine b = Some m" "0 \<le> j" "j < countOfInterfaces m" "j < 2147483648"
  shows "sentBytes a' = sentBytes a + of_nat (length d)
    \<and> (\<exists>c mem. event_round h um b = and_then (run_of (h um (Frame_new (of_nat (length d)) mem) j)) (\<lambda>(um', fs).
          and_then (send_frames fs c) (\<lambda>t. Inr (True, um', t)))
        \<and> take (length d) mem = d \<and> pending (rx c) = ys \<and> receivedBytes c = receivedBytes b + of_nat (length d))"
proof -
  have le: "length d < 65532" using assms(5) by simp
  have s: "wire a' = wire a @ frame_header (of_nat (length d)) i @ d" "sentBytes a' = sentBytes a + of_nat (length d)"
    using sendFrame_message [OF assms(3,4) le, of i] assms(1) by auto
  then have "msg = frame_header (of_nat (length d)) i @ d" using assms(2) by simp
  then have "pending (rx b) = frame_notice j d @ ys" using assms(6) relayed_message [OF le, of j i] by simp
  from event_round_frame [OF this assms(7,5,8-11), of h um] s(2) show ?thesis by blast
qed

definition sample_running :: "chunk list \<Rightarrow> cf" where
  "sample_running cs = (sample_cf cs [])\<lparr>cf_machine := Some (described_machine sample_descriptions ''gateway 1'')\<rparr>"

text \<open>A machine that notes the frames it gets.\<close>

definition noting :: "(u8 list \<times> int) list handler" where
  "noting um fr i = Some (um @ [(take (unat (flength fr)) (fdata fr), i)], [])"

definition sample_frame :: "u8 list" where
  "sample_frame = replicate 20 7"

theorem frame_relay_witness:
  "\<exists>t. event_round noting [] (sample_running [Data (relayed 1 (frame_header 20 0 @ sample_frame) @ [9])])
      = Inr (True, [(sample_frame, 1)], t)"
proof -
  let ?a = "sample_running []" and ?b = "sample_running [Data (relayed 1 (frame_header 20 0 @ sample_frame) @ [9])]"
  have l: "length sample_frame = 20" by (simp add: sample_frame_def)
  have c: "can_send ?a" by (simp add: sample_running_def can_send_def)
  obtain a' where "sendFrame (Frame_new (of_nat (length sample_frame)) sample_frame) 0 ?a = Inr (True, a')"
    "wire a' = wire ?a @ frame_header (of_nat (length sample_frame)) 0 @ sample_frame"
    by (rule sendFrame_message [OF c, of sample_frame 0]) (simp_all add: l)
  from frame_relay [OF this c, where b = ?b and j = 1 and ys = "[9]" and um = "[]" and h = noting
      and m = "described_machine sample_descriptions ''gateway 1''"]
  show ?thesis
    by (auto simp: l sample_running_def described_machine_def sample_descriptions_def noting_def Frame_new_def)
qed

text \<open>A frame too long for the receiver, for use by other theories.\<close>

lemma long_frame_stops:
  assumes "sendFrame (Frame_new (of_nat (length d)) d) i a = Inr (True, a')" "wire a' = wire a @ msg"
    and "can_send a" "1520 < length d" "length d < 65532" "pending (rx b) = relayed j msg @ ys"
    and "length (buffer b) = 1524"
  shows "\<exists>t. event_loop h um b = Inr (um, t) \<and> pending (rx t) = drop 6 (relayed j msg @ ys)
    \<and> out t = out b @ ''An IO exception occurred (error code 28). Aborting simulation...'' @ endl"
proof -
  have "14 \<le> length d" using assms(4) by simp
  then have "wire a' = wire a @ frame_header (of_nat (length d)) i @ d"
    using sendFrame_message [OF assms(3) _ assms(5), of i] assms(1) by auto
  then have "msg = frame_header (of_nat (length d)) i @ d" using assms(2) by simp
  then have r: "relayed j msg @ ys = notice_head 4 (of_nat (4 + length d)) @ bytes32 (htonl (word_of_int j)) @ d @ ys"
    using relayed_message [OF assms(5), of j i] by (simp add: frame_notice_def notice_head_def)
  have p: "pending (rx b) = notice_head 4 (of_nat (4 + length d)) @ bytes32 (htonl (word_of_int j)) @ d @ ys"
    using assms(6) r by simp
  obtain t where t: "event_round h um b = stop_with 28 um t" "out t = out b"
    "pending (rx t) = bytes32 (htonl (word_of_int j)) @ d @ ys"
    using assms(4,5) by (rule_tac event_round_head [OF p assms(7), where h = h and um = um]) auto
  have "show_nat 28 = ''28''" by code_simp
  with t show ?thesis unfolding r
    by (subst event_loop.simps) (simp add: stop_with_def say_line_def say_def)
qed

definition jumbo_frame :: "u8 list" where
  "jumbo_frame = replicate 1530 7"

text \<open>
  The receiver's buffer is smaller than what a sender may send. A frame of 1521 bytes or more, up to
  the sender's own limit, is sent; on the node it is passed on to it ends the event loop with error
  28, before any byte of the frame is read.
\<close>

theorem long_frame_stops_receiver:
  assumes "sendFrame (Frame_new (of_nat (length d)) d) i a = Inr (True, a')" "wire a' = wire a @ msg"
    and "can_send a" "1520 < length d" "length d < 65532" "pending (rx b) = relayed j msg @ ys"
    and "length (buffer b) = 1524"
  shows "\<exists>t. event_loop h um b = Inr (um, t) \<and> pending (rx t) = drop 6 (relayed j msg @ ys)
    \<and> out t = out b @ ''An IO exception occurred (error code 28). Aborting simulation...'' @ endl"
  by (rule long_frame_stops [OF assms])

theorem long_frame_stops_receiver_witness:
  "\<exists>t. event_loop noting [] (sample_running [Data (relayed 1 (frame_header 1530 0 @ jumbo_frame))]) = Inr ([], t)"
proof -
  let ?a = "sample_running []" and ?b = "sample_running [Data (relayed 1 (frame_header 1530 0 @ jumbo_frame))]"
  have l: "length jumbo_frame = 1530" by (simp add: jumbo_frame_def)
  have c: "can_send ?a" by (simp add: sample_running_def can_send_def)
  obtain a' where "sendFrame (Frame_new (of_nat (length jumbo_frame)) jumbo_frame) 0 ?a = Inr (True, a')"
    "wire a' = wire ?a @ frame_header (of_nat (length jumbo_frame)) 0 @ jumbo_frame"
    by (rule sendFrame_message [OF c, of jumbo_frame 0]) (simp_all add: l)
  from long_frame_stops_receiver [OF this c, where b = ?b and j = 1 and ys = "[]" and um = "[]" and h = noting]
  show ?thesis by (auto simp: l sample_running_def)
qed

text \<open>
  C23: A connection that the server closes in good order makes \<open>recv\<close> give 0, which the loop of
  \<open>sendOrReceive\<close> takes for progress: the node waits forever and never recovers. Only an error of
  \<open>recv\<close> ends the event loop, with error 26, and starts the recovery.
\<close>

theorem closed_connection_hangs:
  assumes "length (pending (rx s)) < 6" "length (buffer s) = 1524"
  shows "(event_loop h um s = Inl Forever \<longleftrightarrow> (\<forall>cs. ending (rx s) \<noteq> Failed # cs))
    \<and> ((\<exists>cs. ending (rx s) = Failed # cs) \<longrightarrow> (\<exists>t. event_loop h um s = Inr (um, t) \<and> wire t = wire s
        \<and> out t = out s @ ''An IO exception occurred (error code 26). Aborting simulation...'' @ endl))"
proof -
  have n: "show_nat 26 = ''26''" by code_simp
  show ?thesis
  proof (cases "\<exists>cs. ending (rx s) = Failed # cs")
    case True
    then obtain t where "sendOrReceive False (- 1) 6 s = Inr (False, t)" "wire t = wire s" "out t = out s"
      using recv_loop_short [of "rx s" 6 0 "buffer s"] assms by (auto simp: sendOrReceive_def transfer_def)
    then show ?thesis using True n
      by (subst (1 2) event_loop.simps) (auto simp: event_round_def stop_with_def say_line_def say_def)
  next
    case False
    then have "recv_loop (buffer s) 0 6 (rx s) = Inl Forever"
      using recv_loop_short [of "rx s" 6 0 "buffer s"] assms by (auto split: list.splits chunk.splits)
    then show ?thesis using False
      by (subst (1 2) event_loop.simps) (auto simp: event_round_def sendOrReceive_def transfer_def)
  qed
qed

theorem closed_connection_hangs_witness:
  "event_loop noting [] (sample_running [Data [0, 0], Closed]) = Inl Forever
    \<and> (\<exists>t. event_loop noting [] (sample_running [Data [0, 0], Failed]) = Inr ([], t))"
  using closed_connection_hangs [of "sample_running [Data [0, 0], Closed]" noting "[]"]
    closed_connection_hangs [of "sample_running [Data [0, 0], Failed]" noting "[]"]
  by (auto simp: sample_running_def)

section \<open>The end of the loop\<close>

text \<open>A run that does not wait for ever and does not end the process.\<close>

definition ends :: "'a run \<Rightarrow> bool" where
  "ends r \<longleftrightarrow> r = Inl Undefined \<or> (\<exists>x. r = Inr x)"

lemma ends_simps [simp]: "ends (Inr x)" "ends (run_of y)" "ends (Inl Undefined)"
  by (simp_all add: ends_def) (cases y, simp_all)

lemma ends_and_then: "ends r \<Longrightarrow> (\<And>x. r = Inr x \<Longrightarrow> ends (k x)) \<Longrightarrow> ends (and_then r k)"
  by (auto simp: ends_def)

lemma ends_stop_with [simp]: "ends (stop_with code um s)"
  by (simp add: stop_with_def)

lemma ends_recv_loop: "ending cs = Failed # cs' \<Longrightarrow> ends (recv_loop buf pos n cs)"
proof (induction buf pos n cs rule: recv_loop.induct)
  case (2 buf pos n bs cs)
  then show ?case by (auto intro!: ends_and_then)
qed auto

lemma ends_receive: "ending (rx s) = Failed # cs' \<Longrightarrow> ends (sendOrReceive False ec n s)"
  unfolding sendOrReceive_def transfer_def
  by (intro ends_and_then; auto intro!: ends_and_then ends_recv_loop split: if_splits)

lemma ends_send_or_say: "ends (send_or_say msg n mem s)"
  unfolding send_or_say_def transfer_def by (auto intro!: ends_and_then split: prod.splits)

lemma ends_send_frames: "ends (send_frames fs s)"
proof (induction fs s rule: send_frames.induct)
  case (2 d i fs s)
  have "ends (Machine_sendFrame fr i s)" for fr
    by (auto simp: Machine_sendFrame_def sendFrame_def realSendFrame_def check_ok_def
        intro!: ends_and_then ends_send_or_say split: if_splits)
  then show ?case using 2 by (auto intro!: ends_and_then)
qed simp

lemma ends_event_round:
  assumes "ending (rx s) = Failed # cs"
  shows "ends (event_round h um s)"
proof -
  have warn: "ends (receive_warning n um t)" if "ending (rx t) = Failed # cs" for n t
    using ends_receive [OF that] by (auto simp: receive_warning_def intro!: ends_and_then)
  have frame: "ends (receive_frame h n um t)" if "ending (rx t) = Failed # cs" for n t
    using ends_receive [OF that] by (auto simp: receive_frame_def Let_def intro!: ends_and_then ends_send_frames)
  show ?thesis
    unfolding event_round_def
    by (auto simp: Let_def intro!: ends_and_then ends_receive [OF assms] warn frame
        dest!: receive_consumes simp: assms)
qed

lemma event_round_ending:
  assumes "event_round h um s = Inr (True, um', t)"
  shows "ending (rx t) = ending (rx s)"
  using assms
  by (fastforce simp: event_round_def receive_warning_def receive_frame_def stop_with_def Let_def and_then_eq_Inr
      dest!: receive_consumes send_frames_rx split: if_splits)

text \<open>
  C28: The loop ends. If the connection breaks with an error at some point, the event loop does not wait
  for ever, whatever bytes arrive before, however they are cut, whatever the machine does with the frames
  and whatever becomes of the frames it sends: the loop returns, unless the machine or a message
  of the server leads to undefined behaviour.
\<close>

theorem event_loop_ends:
  assumes "ending (rx s) = Failed # cs"
  shows "event_loop h um s = Inl Undefined \<or> (\<exists>um' t. event_loop h um s = Inr (um', t))"
proof -
  have "ends (event_loop h um s)"
    using assms
  proof (induction h um s rule: event_loop.induct)
    case (1 h um s)
    show ?case
      using 1 ends_event_round [of s cs h um] event_round_ending
      by (subst event_loop.simps) (fastforce simp: ends_def split: sum.splits)
  qed
  then show ?thesis by (auto simp: ends_def)
qed

theorem event_loop_ends_witness:
  "event_loop noting [] (sample_running [Data [0, 0, 0, 4, 0], Data (14 # relayed 1 sample_frame), Failed]) \<noteq> Inl Forever"
proof -
  have "ending (rx (sample_running [Data [0, 0, 0, 4, 0], Data (14 # relayed 1 sample_frame), Failed])) = [Failed]"
    by (simp add: sample_running_def)
  from event_loop_ends [OF this, of noting "[]"] show ?thesis by auto
qed

end
