(* ===== verification/Rounds.thy ===== *)
theory Rounds
  imports EventLoop
begin

text \<open>
  When a round of the event loop (base/cf.cpp) is undefined behaviour: a notice of the server
  decides it, and only a warning, or the machine itself, can lead there.
\<close>

section \<open>The steps of a round\<close>

lemma receive_overrun:
  "length (buffer s) < min n (length (pending (rx s))) \<Longrightarrow> sendOrReceive False ec n s = Inl Undefined"
  using recv_loop_overrun [of 0 "buffer s" n "rx s"] by (simp add: sendOrReceive_def transfer_def)

lemma receive_short:
  assumes "length (pending (rx s)) < n" "length (pending (rx s)) \<le> length (buffer s)"
  shows "sendOrReceive False ec n s = Inl Forever \<or> (\<exists>t. sendOrReceive False ec n s = Inr (False, t))"
  using recv_loop_short [of "rx s" n 0 "buffer s"] assms
  by (auto simp: sendOrReceive_def transfer_def split: list.splits chunk.splits)

lemma send_or_say_defined: "n \<le> length mem \<Longrightarrow> send_or_say msg n mem s \<noteq> Inl e"
  by (auto simp: send_or_say_def transfer_def load_bytes_def split: prod.splits)

lemma sendFrame_defined: "unat (flength fr) \<le> length (fdata fr) \<Longrightarrow> Machine_sendFrame fr i s \<noteq> Inl e"
  unfolding Machine_sendFrame_def sendFrame_def realSendFrame_def
  by (auto simp: check_ok_def and_then_def send_or_say_defined split: sum.splits prod.splits if_splits)

text \<open>Whatever the machine passes to \<open>sendFrame\<close>, sending it is defined.\<close>

lemma send_frames_defined: "send_frames fs s \<noteq> Inl e"
proof (induction fs s rule: send_frames.induct)
  case (2 d i fs s)
  let ?f = "Frame_new (of_nat (length d)) d"
  have "unat (flength ?f) \<le> length (fdata ?f)" by (simp add: Frame_new_def unat_of_nat)
  then obtain ok t where "Machine_sendFrame ?f i s = Inr (ok, t)"
    using sendFrame_defined by (metis obj_sumE surj_pair)
  then show ?case using 2 by simp
qed simp

lemma warning_undefined_iff:
  assumes "length (buffer t) = 1524"
  shows "receive_warning n um t = Inl Undefined \<longleftrightarrow> 1 \<le> n
    \<and> (1524 < min n (length (pending (rx t)))
      \<or> n \<le> length (pending (rx t)) \<and> 0 \<notin> set (take n (pending (rx t)) @ drop n (buffer t)))"
proof -
  let ?p = "pending (rx t)"
  consider "1524 < min n (length ?p)" | "n \<le> length ?p" "n \<le> 1524" | "length ?p < n" "length ?p \<le> 1524"
    by linarith
  then show ?thesis
  proof cases
    case 1
    then show ?thesis using receive_overrun [of t n "- 1"] assms by (auto simp: receive_warning_def)
  next
    case 2
    let ?m = "take n ?p @ drop n (buffer t)"
    obtain cs where "sendOrReceive False (- 1) n t = Inr (True, t\<lparr>rx := cs, buffer := ?m\<rparr>)"
      using receive_enough [of n t "- 1"] 2 assms by auto
    then have "receive_warning n um t = Inl Undefined \<longleftrightarrow> 1 \<le> n \<and> string_in ?m = None"
      by (cases "string_in ?m") (simp_all add: receive_warning_def stop_with_def)
    then show ?thesis using 2 by (simp add: string_in_def)
  next
    case 3
    then show ?thesis using receive_short [of t n "- 1"] assms by (auto simp: receive_warning_def stop_with_def)
  qed
qed

lemma frame_undefined_iff:
  assumes "length (buffer t) = 1524" "cf_machine t = Some m" "4 \<le> n" "n \<le> 1524"
  shows "receive_frame h n um t = Inl Undefined \<longleftrightarrow> n \<le> length (pending (rx t))
    \<and> (\<exists>j. read_int (pending (rx t)) 0 = Some j \<and> 0 \<le> j \<and> j < countOfInterfaces m
        \<and> h um (Frame_new (of_nat (n - 4)) (drop 4 (take n (pending (rx t))) @ drop n (buffer t))) j = None)"
proof (cases "n \<le> length (pending (rx t))")
  case True
  let ?p = "pending (rx t)" and ?m = "take n (pending (rx t)) @ drop n (buffer t)"
  obtain cs where r: "sendOrReceive False (- 1) n t = Inr (True, t\<lparr>rx := cs, buffer := ?m\<rparr>)"
    using receive_enough [of n t "- 1"] True assms by auto
  have i: "read_int ?m 0 = read_int ?p 0"
    using True assms(3) by (simp add: read_int_def load32_def load_bytes_def take_drop min_def)
  obtain j where j: "read_int ?p 0 = Some j"
    using True assms(3) by (simp add: read_int_def load32_def load_bytes_def)
  have d: "drop 4 ?m = drop 4 (take n ?p) @ drop n (buffer t)" using True assms(3) by simp
  show ?thesis
    unfolding receive_frame_def Let_def
    using True assms(2,3) by (auto simp: r i j d [simplified] getCountOfInterfaces_def stop_with_def send_frames_defined
        and_then_def run_of_def split: option.splits prod.splits sum.splits)
next
  case False
  then show ?thesis using receive_short [of t n "- 1"] assms by (auto simp: receive_frame_def stop_with_def)
qed

section \<open>Properties\<close>

text \<open>The buffer of a round once the head of a notice has been read into it.\<close>

definition read_head :: "u32 \<Rightarrow> nat \<Rightarrow> cf \<Rightarrow> u8 list" where
  "read_head c n s = notice_head c (of_nat n) @ drop 6 (buffer s)"

text \<open>
  C27: A round of the event loop is undefined behaviour in two cases only. The notice is a warning, and
  either more of its bytes arrive than the buffer has, since their number is not compared with the size of the
  buffer, or neither they nor what an earlier message left behind them in the buffer has a NUL to end the text
  that is printed. Or it is a frame that fits the buffer, for an interface the machine has, and the machine is
  not defined on it. No other notice, whatever its type, its size and the cuts of its bytes, and no frame that
  the machine sends in answer leads to undefined behaviour of the framework.
\<close>

theorem round_undefined_iff:
  assumes "pending (rx s) = notice_head c (of_nat n) @ ys" "length (buffer s) = 1524" "n < 65536"
    and "cf_machine s = Some m"
  shows "event_round h um s = Inl Undefined \<longleftrightarrow>
    (if sint c = 5
     then 1 \<le> n \<and> (1524 < min n (length ys)
       \<or> n \<le> length ys \<and> 0 \<notin> set (take n ys @ drop n (read_head c n s)))
     else sint c = 4 \<and> 4 \<le> n \<and> n \<le> 1524 \<and> n \<le> length ys
       \<and> (\<exists>j. read_int ys 0 = Some j \<and> 0 \<le> j \<and> j < countOfInterfaces m
           \<and> h um (Frame_new (of_nat (n - 4)) (drop 4 (take n ys) @ drop n (read_head c n s))) j = None))"
proof -
  obtain t where t: "event_round h um s =
      (if sint c = 5 then receive_warning n um t
       else if sint c \<noteq> 4 \<or> n < 4 \<or> 1524 < n then stop_with 28 um t else receive_frame h n um t)"
    "pending (rx t) = ys" "length (buffer t) = 1524" "cf_machine t = Some m" "buffer t = read_head c n s"
    by (rule event_round_head [OF assms(1-3), where h = h and um = um]) (simp add: assms(4) read_head_def)
  show ?thesis
    unfolding t(1)
    using warning_undefined_iff [OF t(3), of n um] frame_undefined_iff [OF t(3,4), of n h um]
    by (auto simp: t(2,5) stop_with_def)
qed

theorem round_undefined_iff_witness:
  "event_round noting [] (sample_running [Data (notice_head 5 2000 @ replicate 1525 65)]) = Inl Undefined
    \<and> event_round noting [] (sample_running [Data (notice_head 5 2000 @ replicate 1524 65)]) \<noteq> Inl Undefined
    \<and> event_round noting [] (sample_running [Data (notice_head 5 4 @ [66, 97, 100, 0])]) \<noteq> Inl Undefined
    \<and> event_round noting [] (sample_running [Data (notice_head 4 6), Data (bytes32 (htonl 1) @ [7, 7])]) \<noteq> Inl Undefined
    \<and> event_round (\<lambda>_ _ _. None) ([] :: (u8 list \<times> int) list) (sample_running [Data (notice_head 4 6), Data (bytes32 (htonl 1) @ [7, 7])]) = Inl Undefined"
proof -
  let ?s = "\<lambda>cs. sample_running cs"
  have m: "cf_machine (?s cs) = Some (described_machine sample_descriptions ''gateway 1'')" for cs
    by (simp add: sample_running_def)
  have n: "countOfInterfaces (described_machine sample_descriptions ''gateway 1'') = 2"
    by (simp add: described_machine_def sample_descriptions_def)
  have l: "length (buffer (?s cs)) = 1524" "rx (?s cs) = cs" for cs by (simp_all add: sample_running_def)
  have i: "read_int (bytes32 (htonl 1) @ [7, 7]) 0 = Some 1" by simp
  note exact = round_undefined_iff [OF _ l(1) _ m]
  have "event_round noting [] (?s [Data (notice_head 5 2000 @ replicate 1525 65)]) = Inl Undefined"
    using exact [of "[Data (notice_head 5 2000 @ replicate 1525 65)]" 5 2000 "replicate 1525 65" noting "[]"]
    by (simp add: l(2))
  moreover have "event_round noting [] (?s [Data (notice_head 5 2000 @ replicate 1524 65)]) \<noteq> Inl Undefined"
    using exact [of "[Data (notice_head 5 2000 @ replicate 1524 65)]" 5 2000 "replicate 1524 65" noting "[]"]
    by (simp add: l(2))
  moreover have "event_round noting [] (?s [Data (notice_head 5 4 @ [66, 97, 100, 0])]) \<noteq> Inl Undefined"
    using exact [of "[Data (notice_head 5 4 @ [66, 97, 100, 0])]" 5 4 "[66, 97, 100, 0]" noting "[]"]
    by (simp add: l(2))
  moreover have "event_round noting [] (?s [Data (notice_head 4 6), Data (bytes32 (htonl 1) @ [7, 7])]) \<noteq> Inl Undefined"
    "event_round (\<lambda>_ _ _. None) ([] :: (u8 list \<times> int) list) (?s [Data (notice_head 4 6), Data (bytes32 (htonl 1) @ [7, 7])]) = Inl Undefined"
    using exact [of "[Data (notice_head 4 6), Data (bytes32 (htonl 1) @ [7, 7])]" 4 6 "bytes32 (htonl 1) @ [7, 7]"
      _ "[] :: (u8 list \<times> int) list"]
    by (simp_all add: l(2) i n noting_def)
  ultimately show ?thesis by blast
qed

end
