(* ===== verification/Options.thy ===== *)
theory Options
  imports Transport "HOL-Library.Multiset"
begin

text \<open>
  The command line of the client framework (base/cf.cpp): \<open>parseArguments\<close> and the constructor. The
  lemmas describe the result on any list of options, independently of their order.
\<close>

section \<open>Operations\<close>

text \<open>\<open>usage\<close> prints the manual and ends the process.\<close>

definition usage :: "'a run" where
  "usage = Inl (Exit (- 1))"

definition checkForRedundantArgument :: "nat \<Rightarrow> bool list \<Rightarrow> bool list run" where
  "checkForRedundantArgument k mark = (if mark ! k then usage else Inr (mark[k := True]))"

definition parseIPArgument :: "string \<Rightarrow> cf \<Rightarrow> cf run" where
  "parseIPArgument arg s = (case parseIP arg of Rejected \<Rightarrow> usage | Parsed ip \<Rightarrow> Inr (s\<lparr>cf_ip := ip\<rparr>))"

definition parsePortArgument :: "string \<Rightarrow> cf \<Rightarrow> cf run" where
  "parsePortArgument arg s = and_then (run_of (parsePort arg)) (\<lambda>r.
     case r of Rejected \<Rightarrow> usage | Parsed p \<Rightarrow> Inr (s\<lparr>cf_port := p\<rparr>))"

definition parseMapNameArgument :: "string \<Rightarrow> cf \<Rightarrow> cf" where
  "parseMapNameArgument arg s = s\<lparr>mapName := arg\<rparr>"

definition parseUserNameArgument :: "string \<Rightarrow> cf \<Rightarrow> cf" where
  "parseUserNameArgument arg s = s\<lparr>userName := arg\<rparr>"

definition parseIDArgument :: "string \<Rightarrow> cf \<Rightarrow> cf" where
  "parseIDArgument arg s = s\<lparr>creatorId := arg\<rparr>"

definition parsePasswordArgument :: "string \<Rightarrow> cf \<Rightarrow> cf" where
  "parsePasswordArgument arg s = s\<lparr>password := arg\<rparr>"

definition parseNodeNameArgument :: "string \<Rightarrow> cf \<Rightarrow> cf" where
  "parseNodeNameArgument arg s = s\<lparr>nodeName := arg\<rparr>"

text \<open>\<open>SimulatedMachine::parseArguments\<close> ignores the arguments of the user program.\<close>

definition parseUserProgramArguments :: "string list \<Rightarrow> cf \<Rightarrow> cf" where
  "parseUserProgramArguments args s = s"

text \<open>
  The value \<open>argv[++i]\<close> of an option: behind the last argument stands a null pointer, from which no
  string can be made.
\<close>

definition next_argument :: "string list \<Rightarrow> string run" where
  "next_argument args = (case args of [] \<Rightarrow> Inl Undefined | v # _ \<Rightarrow> Inr v)"

function parse_loop :: "string list \<Rightarrow> bool list \<Rightarrow> cf \<Rightarrow> (bool list \<times> cf) run" where
  "parse_loop args mark s = (case args of [] \<Rightarrow> Inr (mark, s) | a # rest \<Rightarrow>
     (if a = ''--ip'' then
        and_then (checkForRedundantArgument 0 mark) (\<lambda>mark.
        and_then (next_argument rest) (\<lambda>v. and_then (parseIPArgument v s) (\<lambda>s. parse_loop (tl rest) mark s)))
      else if a = ''--port'' then
        and_then (checkForRedundantArgument 1 mark) (\<lambda>mark.
        and_then (next_argument rest) (\<lambda>v. and_then (parsePortArgument v s) (\<lambda>s. parse_loop (tl rest) mark s)))
      else if a = ''--map'' then
        and_then (checkForRedundantArgument 2 mark) (\<lambda>mark.
        and_then (next_argument rest) (\<lambda>v. parse_loop (tl rest) mark (parseMapNameArgument v s)))
      else if a = ''--user'' then
        and_then (checkForRedundantArgument 3 mark) (\<lambda>mark.
        and_then (next_argument rest) (\<lambda>v. parse_loop (tl rest) mark (parseUserNameArgument v s)))
      else if a = ''--pass'' then
        and_then (checkForRedundantArgument 4 mark) (\<lambda>mark.
        and_then (next_argument rest) (\<lambda>v. parse_loop (tl rest) mark (parsePasswordArgument v s)))
      else if a = ''--id'' then
        and_then (checkForRedundantArgument 5 mark) (\<lambda>mark.
        and_then (next_argument rest) (\<lambda>v. parse_loop (tl rest) mark ((parseIDArgument v s)\<lparr>needNewMap := 0\<rparr>)))
      else if a = ''--new'' then
        and_then (checkForRedundantArgument 5 mark) (\<lambda>mark. parse_loop rest mark (s\<lparr>needNewMap := 1\<rparr>))
      else if a = ''--free'' then
        and_then (checkForRedundantArgument 5 mark) (\<lambda>mark. parse_loop rest mark (s\<lparr>needNewMap := - 1\<rparr>))
      else if a = ''--node'' then
        and_then (checkForRedundantArgument 6 mark) (\<lambda>mark.
        and_then (next_argument rest) (\<lambda>v. parse_loop (tl rest) mark (parseNodeNameArgument v s)))
      else if a = ''--args'' then
        and_then (checkForRedundantArgument 7 mark) (\<lambda>mark. Inr (mark, parseUserProgramArguments rest s))
      else usage))"
  by pat_completeness auto
termination
  by (relation "measure (\<lambda>(args, mark, s). length args)") auto

declare parse_loop.simps [simp del]

definition parseArguments :: "string list \<Rightarrow> cf \<Rightarrow> cf run" where
  "parseArguments args s =
     and_then (parse_loop args (replicate 8 False) s) (\<lambda>(mark, s).
       if list_all (\<lambda>i. mark ! i) [0..<6]
       then Inr (s\<lparr>sin_port := htons (cf_port s), sin_addr := htonl (cf_ip s)\<rparr>) else usage)"

text \<open>The constructor; members it does not set keep whatever the memory held, here those of \<open>s\<close>.\<close>

definition ClientFramework_new :: "string \<Rightarrow> string list \<Rightarrow> cf \<Rightarrow> cf run" where
  "ClientFramework_new prog args s =
     and_then (parseArguments args (s\<lparr>connected := False, cf_machine := None, progName := prog,
       mapName := '''', nodeName := '''', userName := '''', password := '''', creatorId := ''''\<rparr>)) (\<lambda>s.
     Inr (s\<lparr>initialized := False\<rparr>))"

text \<open>The options leave the machine and the connection alone.\<close>

definition keeps :: "cf \<Rightarrow> ('a \<times> cf) run \<Rightarrow> bool" where
  "keeps s r \<longleftrightarrow> (\<forall>x t. r = Inr (x, t) \<longrightarrow> cf_machine t = cf_machine s \<and> connected t = connected s)"

lemma keeps_and_then: "(\<And>x. r = Inr x \<Longrightarrow> keeps s (k x)) \<Longrightarrow> keeps s (and_then r k)"
  unfolding keeps_def and_then_eq_Inr by blast

lemma keeps_usage: "keeps s usage" "keeps s (Inr (mark, s))"
  by (simp_all add: keeps_def usage_def)

lemma keeps_cong: "keeps t r \<Longrightarrow> cf_machine t = cf_machine s \<Longrightarrow> connected t = connected s \<Longrightarrow> keeps s r"
  unfolding keeps_def by metis

lemma keeps_if: "(p \<Longrightarrow> keeps s a) \<Longrightarrow> (\<not> p \<Longrightarrow> keeps s b) \<Longrightarrow> keeps s (if p then a else b)"
  by simp

lemma address_options_keep:
  "parseIPArgument v s = Inr t \<Longrightarrow> cf_machine t = cf_machine s \<and> connected t = connected s"
  "parsePortArgument v s = Inr t \<Longrightarrow> cf_machine t = cf_machine s \<and> connected t = connected s"
proof -
  show "parseIPArgument v s = Inr t \<Longrightarrow> cf_machine t = cf_machine s \<and> connected t = connected s"
    by (cases "parseIP v") (auto simp: parseIPArgument_def usage_def)
  show "parsePortArgument v s = Inr t \<Longrightarrow> cf_machine t = cf_machine s \<and> connected t = connected s"
    by (cases "the (parsePort v)") (auto simp: parsePortArgument_def usage_def and_then_eq_Inr)
qed

lemmas set_options = parseMapNameArgument_def parseUserNameArgument_def parsePasswordArgument_def
  parseIDArgument_def parseNodeNameArgument_def parseUserProgramArguments_def

lemma parse_loop_keeps: "keeps s (parse_loop args mark s)"
proof (induction "length args" arbitrary: args mark s rule: less_induct)
  case less
  show ?case
  proof (cases args)
    case Nil
    then show ?thesis by (simp add: parse_loop.simps [of "[]"] keeps_usage)
  next
    case (Cons a rest)
    then have IH: "keeps t (parse_loop (tl rest) m t)" "keeps t (parse_loop rest m t)" for m t
      by (simp_all add: less)
    note IHs = keeps_cong [OF IH(1)] keeps_cong [OF IH(2)]
    show ?thesis
      unfolding Cons parse_loop.simps [of "a # rest"] list.case
      by (intro keeps_if keeps_and_then keeps_usage)
        (auto intro!: IHs keeps_usage simp: set_options dest!: address_options_keep)
  qed
qed

lemma new_fields: "ClientFramework_new prog args s = Inr t \<Longrightarrow> cf_machine t = None \<and> \<not> connected t"
  using parse_loop_keeps
  by (fastforce simp: keeps_def ClientFramework_new_def parseArguments_def and_then_eq_Inr usage_def split: if_splits)

definition banner :: "string list" where
  "banner =
     ['' ____   __   ____  ____  __   _  _     ___  ____ '',
      ''(  _ '' @ [CHR 0x5C] @ '' / _'' @ [CHR 0x5C] @ '' (  _ '' @ [CHR 0x5C] @ ''(_  _)/  '' @ [CHR 0x5C]
        @ '' / )( '' @ [CHR 0x5C] @ ''   / __)(  __)'',
      '' ) __//    '' @ [CHR 0x5C] @ '' )   /  )( (  O )'' @ [CHR 0x5C] @ '' '' @ [CHR 0x5C] @ ''/ /  ( (__  ) _) '',
      ''(__)  '' @ [CHR 0x5C] @ ''_/'' @ [CHR 0x5C] @ ''_/(__'' @ [CHR 0x5C] @ ''_) (__) '' @ [CHR 0x5C] @ ''__/  ''
        @ [CHR 0x5C] @ ''__/    '' @ [CHR 0x5C] @ ''___)(__)  '',
      ''                                                 '']"

definition printArguments :: "cf \<Rightarrow> cf" where
  "printArguments s = fold say_line
     (banner @ [rule_line, ''Server ip: '' @ dotted (cf_ip s), ''Server port: '' @ show_nat (unat (cf_port s)),
       ''Map name: '' @ mapName s,
       (if nodeName s = '''' then ''Node name not specified.'' else ''Node name: '' @ nodeName s), rule_line]) s"

section \<open>Options\<close>

datatype opt = Ip string | Port string | Map string | User string | Pass string | Id string | New | Free | Node string

fun opt_words :: "opt \<Rightarrow> string list" where
  "opt_words (Ip v) = [''--ip'', v]"
| "opt_words (Port v) = [''--port'', v]"
| "opt_words (Map v) = [''--map'', v]"
| "opt_words (User v) = [''--user'', v]"
| "opt_words (Pass v) = [''--pass'', v]"
| "opt_words (Id v) = [''--id'', v]"
| "opt_words New = [''--new'']"
| "opt_words Free = [''--free'']"
| "opt_words (Node v) = [''--node'', v]"

text \<open>Options with the same slot exclude each other; slots 0 to 5 are mandatory.\<close>

fun slot :: "opt \<Rightarrow> nat" where
  "slot (Ip v) = 0" | "slot (Port v) = 1" | "slot (Map v) = 2" | "slot (User v) = 3" | "slot (Pass v) = 4"
| "slot (Id v) = 5" | "slot New = 5" | "slot Free = 5" | "slot (Node v) = 6"

text \<open>The values \<open>parseIP\<close> and \<open>parsePort\<close> accept.\<close>

fun opt_ok :: "opt \<Rightarrow> bool" where
  "opt_ok (Ip v) \<longleftrightarrow> (\<exists>ip. parseIP v = Parsed ip)"
| "opt_ok (Port v) \<longleftrightarrow> (\<exists>p. parsePort v = Some (Parsed p))"
| "opt_ok _ \<longleftrightarrow> True"

fun opt_set :: "opt \<Rightarrow> cf \<Rightarrow> cf" where
  "opt_set (Ip v) s = (case parseIP v of Parsed ip \<Rightarrow> s\<lparr>cf_ip := ip\<rparr> | Rejected \<Rightarrow> s)"
| "opt_set (Port v) s = (case parsePort v of Some (Parsed p) \<Rightarrow> s\<lparr>cf_port := p\<rparr> | _ \<Rightarrow> s)"
| "opt_set (Map v) s = s\<lparr>mapName := v\<rparr>"
| "opt_set (User v) s = s\<lparr>userName := v\<rparr>"
| "opt_set (Pass v) s = s\<lparr>password := v\<rparr>"
| "opt_set (Id v) s = s\<lparr>creatorId := v, needNewMap := 0\<rparr>"
| "opt_set New s = s\<lparr>needNewMap := 1\<rparr>"
| "opt_set Free s = s\<lparr>needNewMap := - 1\<rparr>"
| "opt_set (Node v) s = s\<lparr>nodeName := v\<rparr>"

lemma parse_option:
  assumes "opt_ok x" "length mark = 8"
  shows "parse_loop (opt_words x @ rest) mark s =
    (if mark ! slot x then usage else parse_loop rest (mark[slot x := True]) (opt_set x s))"
  using assms
  by (cases x; subst parse_loop.simps)
    (auto simp: checkForRedundantArgument_def usage_def next_argument_def parseIPArgument_def parsePortArgument_def
      parseMapNameArgument_def parseUserNameArgument_def parsePasswordArgument_def parseIDArgument_def
      parseNodeNameArgument_def)

definition marked :: "opt list \<Rightarrow> bool list \<Rightarrow> bool list" where
  "marked xs mark = fold (\<lambda>x m. m[slot x := True]) xs mark"

lemma slot_less: "slot x < 7"
  by (cases x) simp_all

lemma marked_nth:
  "length mark = 8 \<Longrightarrow> i < 8 \<Longrightarrow> length (marked xs mark) = 8 \<and> (marked xs mark ! i \<longleftrightarrow> mark ! i \<or> i \<in> slot ` set xs)"
proof (induction xs arbitrary: mark)
  case (Cons x xs)
  have "marked (x # xs) mark = marked xs (mark[slot x := True])" by (simp add: marked_def)
  moreover have "mark[slot x := True] ! i \<longleftrightarrow> mark ! i \<or> i = slot x"
    using Cons.prems slot_less [of x] by (auto simp: nth_list_update)
  ultimately show ?case using Cons.IH [of "mark[slot x := True]"] Cons.prems by auto
qed (simp add: marked_def)

lemma parse_options:
  assumes "\<forall>x\<in>set xs. opt_ok x" "length mark = 8"
  shows "parse_loop (concat (map opt_words xs) @ rest) mark s =
    (if distinct (map slot xs) \<and> (\<forall>x\<in>set xs. \<not> mark ! slot x)
     then parse_loop rest (marked xs mark) (fold opt_set xs s) else usage)"
  using assms
proof (induction xs arbitrary: mark s)
  case (Cons x xs)
  have "mark[slot x := True] ! slot y \<longleftrightarrow> mark ! slot y \<or> slot y = slot x" for y
    using Cons.prems(2) slot_less [of x] by (auto simp: nth_list_update)
  moreover have "parse_loop (concat (map opt_words xs) @ rest) (mark[slot x := True]) (opt_set x s) =
      (if distinct (map slot xs) \<and> (\<forall>y\<in>set xs. \<not> mark[slot x := True] ! slot y)
       then parse_loop rest (marked xs (mark[slot x := True])) (fold opt_set xs (opt_set x s)) else usage)"
    using Cons.prems by (intro Cons.IH) auto
  ultimately show ?case using Cons.prems
    by (auto simp: parse_option marked_def image_iff)
qed (simp add: marked_def)

text \<open>Options of different slots set different members.\<close>

lemma opt_set_commute: "slot x \<noteq> slot y \<Longrightarrow> opt_set x (opt_set y s) = opt_set y (opt_set x s)"
  by (cases x; cases y) (simp_all split: parsed.splits option.splits)

lemma options_result:
  assumes "\<forall>x\<in>set xs. opt_ok x" "user = [] \<or> (\<exists>us. user = ''--args'' # us)"
  shows "parseArguments (concat (map opt_words xs) @ user) s =
    (if distinct (map slot xs) \<and> {..<6} \<subseteq> slot ` set xs
     then Inr (let t = fold opt_set xs s in t\<lparr>sin_port := htons (cf_port t), sin_addr := htonl (cf_ip t)\<rparr>)
     else Inl (Exit (- 1)))"
proof -
  let ?m = "marked xs (replicate 8 False)"
  have m: "?m ! i \<longleftrightarrow> i \<in> slot ` set xs" "length ?m = 8" if "i < 8" for i
    using marked_nth [of "replicate 8 False" i xs] that by simp_all
  have seven: "\<not> ?m ! 7" using m(1) [of 7] slot_less by (auto simp: less_le)
  have "\<exists>k. parse_loop user ?m t = Inr (k, t) \<and> (\<forall>i<7. k ! i = ?m ! i)" for t
    using assms(2)
  proof
    assume "user = []"
    then show ?thesis by (subst parse_loop.simps) simp
  next
    assume "\<exists>us. user = ''--args'' # us"
    then show ?thesis using seven
      by (subst parse_loop.simps) (auto simp: checkForRedundantArgument_def parseUserProgramArguments_def)
  qed
  then obtain k where k: "parse_loop user ?m (fold opt_set xs s) = Inr (k, fold opt_set xs s)" "\<And>i. i < 7 \<Longrightarrow> k ! i = ?m ! i"
    by blast
  have "list_all (\<lambda>i. k ! i) [0..<6] \<longleftrightarrow> {..<6} \<subseteq> slot ` set xs"
    using k(2) m(1) by (auto simp: list_all_iff)
  moreover have "\<not> replicate 8 False ! slot x" for x using slot_less [of x] by simp
  ultimately show ?thesis using k(1) parse_options [OF assms(1), of "replicate 8 False" user s]
    by (auto simp: parseArguments_def Let_def usage_def)
qed

section \<open>Properties\<close>

text \<open>
  C30: On any list of options with values the parsers accept, with or without arguments of the user
  program behind, the command line is accepted exactly if no option excludes another and all
  mandatory ones are there, and then every option has set its member; else the process ends with
  the manual.
\<close>

theorem command_line_accepted:
  assumes "\<forall>x\<in>set xs. opt_ok x" "user = [] \<or> (\<exists>us. user = ''--args'' # us)"
  shows "parseArguments (concat (map opt_words xs) @ user) s =
    (if distinct (map slot xs) \<and> {..<6} \<subseteq> slot ` set xs
     then Inr (let t = fold opt_set xs s in t\<lparr>sin_port := htons (cf_port t), sin_addr := htonl (cf_ip t)\<rparr>)
     else Inl (Exit (- 1)))"
  using assms by (rule options_result)

definition sample_options :: "opt list" where
  "sample_options = [New, Map ''overlay'', Ip ''127.0.0.1'', Pass ''secret'', User ''alice'', Port ''9339'']"

lemma sample_values: "parseIP ''127.0.0.1'' = Parsed 0x7F000001" "parsePort ''9339'' = Some (Parsed 9339)"
  by code_simp+

lemma sample_options_ok: "\<forall>x\<in>set sample_options. opt_ok x"
  by (simp add: sample_options_def sample_values)

theorem command_line_accepted_witness:
  "\<forall>s. (\<exists>t. parseArguments [''--new'', ''--map'', ''overlay'', ''--ip'', ''127.0.0.1'', ''--pass'', ''secret'',
        ''--user'', ''alice'', ''--port'', ''9339'', ''--args'', ''x''] s = Inr t \<and> mapName t = ''overlay''
        \<and> needNewMap t = 1)"
proof
  fix s
  have "{..<6} \<subseteq> slot ` set sample_options"
    by (auto simp: sample_options_def)
  with command_line_accepted [OF sample_options_ok, of "[''--args'', ''x'']" s]
  show "\<exists>t. parseArguments [''--new'', ''--map'', ''overlay'', ''--ip'', ''127.0.0.1'', ''--pass'', ''secret'',
        ''--user'', ''alice'', ''--port'', ''9339'', ''--args'', ''x''] s = Inr t \<and> mapName t = ''overlay''
        \<and> needNewMap t = 1"
    by (auto simp: sample_options_def Let_def sample_values)
qed

text \<open>
  The order of the options does not matter.
\<close>

theorem command_line_order:
  assumes "mset xs = mset ys" "\<forall>x\<in>set xs. opt_ok x"
  shows "parseArguments (concat (map opt_words xs)) s = parseArguments (concat (map opt_words ys)) s"
proof -
  have ok: "\<forall>y\<in>set ys. opt_ok y" using assms mset_eq_setD by metis
  have set: "slot ` set xs = slot ` set ys" using assms(1) mset_eq_setD by metis
  have dist: "distinct (map slot xs) \<longleftrightarrow> distinct (map slot ys)"
    using assms(1) by (metis mset_eq_imp_distinct_iff mset_map)
  have "fold opt_set xs s = fold opt_set ys s" if d: "distinct (map slot xs)"
  proof (rule fold_permuted_eq [where P = "\<lambda>_. True", OF assms(1)])
    fix x y z assume xy: "x \<in> set xs" "y \<in> set xs"
    show "opt_set x (opt_set y z) = opt_set y (opt_set x z)"
    proof (cases "x = y")
      case False
      then have "slot x \<noteq> slot y" using d xy by (auto simp: distinct_map inj_on_def)
      then show ?thesis by (rule opt_set_commute)
    qed simp
  qed simp_all
  then show ?thesis
    using options_result [OF assms(2), of "[]" s] options_result [OF ok, of "[]" s] set dist by simp
qed

theorem command_line_order_witness:
  "\<forall>s. parseArguments [''--user'', ''alice'', ''--id'', ''bob''] s = parseArguments [''--id'', ''bob'', ''--user'', ''alice''] s"
  using command_line_order [of "[User ''alice'', Id ''bob'']" "[Id ''bob'', User ''alice'']"] by simp

end
