(* ===== verification/Simulation.thy ===== *)
theory Simulation
  imports EventLoop Options Node
begin

text \<open>
  The whole program (base/main.cpp): the command line, the connection, the negotiation and the
  simulation, with the overlay node of \<open>user/sm.cpp\<close> as its machine.

  The locale \<open>simulated_machine\<close> is the contract between the framework and a machine: an invariant of
  the machine that \<open>processFrame\<close> keeps. Its lemmas carry the invariant through the event loop and
  the recovery; it is interpreted for the overlay node with reachability in \<open>node_steps\<close>.
\<close>

section \<open>Running a machine\<close>

inductive rounds :: "'m handler \<Rightarrow> 'm \<Rightarrow> cf \<Rightarrow> 'm \<Rightarrow> cf \<Rightarrow> bool" for h um s where
  start: "rounds h um s um s"
| again: "rounds h um s um1 s1 \<Longrightarrow> event_round h um1 s1 = Inr (True, um2, s2) \<Longrightarrow> rounds h um s um2 s2"

lemma event_round_handled:
  assumes "event_round h um s = Inr (ok, um', s')"
  shows "um' = um \<or> (\<exists>fr i fs. h um fr i = Some (um', fs))"
  using assms
  by (fastforce simp: event_round_def receive_warning_def receive_frame_def stop_with_def Let_def and_then_eq_Inr
      split: if_splits)

locale simulated_machine =
  fixes h :: "'m handler" and inv :: "'m \<Rightarrow> bool"
  assumes handled: "inv um \<Longrightarrow> h um fr i = Some (um', fs) \<Longrightarrow> inv um'"
begin

lemma round_inv: "event_round h um s = Inr (ok, um', s') \<Longrightarrow> inv um \<Longrightarrow> inv um'"
  using event_round_handled handled by metis

lemma rounds_inv: "rounds h um s um' s' \<Longrightarrow> inv um \<Longrightarrow> inv um'"
  by (induction rule: rounds.induct) (auto intro: round_inv)

lemma loop_inv: "event_loop h um s = Inr (um', s') \<Longrightarrow> inv um \<Longrightarrow> inv um'"
proof (induction "length (pending (rx s))" arbitrary: um s rule: less_induct)
  case less
  obtain ok um1 s1 where r: "event_round h um s = Inr (ok, um1, s1)"
    using less.prems(1) by (subst (asm) event_loop.simps) (auto split: sum.splits)
  have i: "inv um1" using round_inv [OF r less.prems(2)] .
  show ?case
  proof (cases ok)
    case True
    then have "event_loop h um1 s1 = Inr (um', s')" using less.prems(1) r by (subst (asm) event_loop.simps) simp
    moreover have "length (pending (rx s1)) < length (pending (rx s))"
      using event_round_consumes [of h um s um1 s1] r True by simp
    ultimately show ?thesis using less.hyps i by metis
  next
    case False
    then have "um' = um1" using less.prems(1) r by (subst (asm) event_loop.simps) simp
    then show ?thesis using i by simp
  qed
qed

lemma recover_inv: "recoverSimulation h ds um s = Inr (um', s') \<Longrightarrow> inv um \<Longrightarrow> inv um'"
proof (induction ds arbitrary: um s)
  case Nil
  then show ?case by (auto simp: and_then_eq_Inr)
next
  case (Cons d ds)
  then obtain ok s1 where r: "reconnect d s = Inr (ok, s1)" by (auto simp: and_then_eq_Inr)
  show ?case
  proof (cases ok)
    case True
    with Cons.prems r obtain um2 s2 where "event_loop h um s1 = Inr (um2, s2)" "recoverSimulation h ds um2 s2 = Inr (um', s')"
      by (auto simp: and_then_eq_Inr)
    then show ?thesis using Cons.IH Cons.prems(2) loop_inv by blast
  next
    case False
    with Cons.prems r show ?thesis by simp
  qed
qed

end

section \<open>The overlay node as a machine\<close>

text \<open>
  The state of the node's two threads: how many rounds of \<open>run\<close> the command thread does before each
  received frame, its last command and its input, and the node.
\<close>

type_synonym overlay = "nat list \<times> string \<times> string list \<times> sm"

definition node_of :: "overlay \<Rightarrow> sm" where
  "node_of um = snd (snd (snd um))"

definition node_ini ::
  "nat list \<Rightarrow> string list \<Rightarrow> nat \<Rightarrow> (nat \<Rightarrow> u8) \<Rightarrow> (nat \<Rightarrow> int) \<Rightarrow> machine \<Rightarrow> overlay option" where
  "node_ini sched input gap junk clk m =
     map_option (\<lambda>s. (sched, '''', input, s))
       (initialize (getCustomInformation m) (sm_start gap (ifaces m) junk clk))"

text \<open>
  A frame, after the commands scheduled before it; the frames sent meanwhile go to the framework in
  their order.
\<close>

definition node_handler :: "overlay handler" where
  "node_handler um fr i = (case um of (sched, command, input, s) \<Rightarrow> do {
     (command, input, s1) \<leftarrow> run_rounds (case sched of [] \<Rightarrow> 0 | n # _ \<Rightarrow> n) (command, input, s);
     s2 \<leftarrow> processFrame fr i s1;
     Some ((tl sched, command, input, s2), drop (length (sent_frames s)) (sent_frames s2)) })"

lemma run_rounds_steps:
  "run_rounds n (command, input, s) = Some (command', input', s') \<Longrightarrow> node_steps s0 s \<Longrightarrow> node_steps s0 s'"
proof (induction n arbitrary: command input s)
  case (Suc n)
  then obtain c i t where "run_round (command, input, s) = Some (c, i, t)" "run_rounds n (c, i, t) = Some (command', input', s')"
    by (auto simp: Option.bind_eq_Some_conv)
  moreover from this have "node_step s t"
    by (auto simp: run_round_def Let_def Option.bind_eq_Some_conv split: prod.splits intro: node_step.command)
  ultimately show ?case using Suc node_steps.step by blast
qed simp

interpretation overlay: simulated_machine node_handler "\<lambda>um. node_steps s0 (node_of um)" for s0
proof unfold_locales
  fix um um' fr i fs
  assume "node_steps s0 (node_of um)" "node_handler um fr i = Some (um', fs)"
  then show "node_steps s0 (node_of um')"
    by (cases um) (auto simp: node_handler_def node_of_def Option.bind_eq_Some_conv
        dest!: run_rounds_steps intro: node_steps.step [OF _ node_step.frame])
qed

section \<open>The program\<close>

definition runCF :: "(machine \<Rightarrow> 'm option) \<Rightarrow> 'm handler \<Rightarrow> dial \<Rightarrow> dial list \<Rightarrow> cf \<Rightarrow> (bool \<times> cf) run" where
  "runCF ini h d ds s =
     check_ok (connectToServer d (printArguments s)) (\<lambda>s.
     check_ok (doInitialNegotiations s) (startSimulation ini h ds))"

text \<open>
  The one framework object, \<open>me\<close>, and what deleting it gives back: the socket, if a connection was
  attempted, and the machine, if there is one.
\<close>

definition ClientFramework_init :: "string \<Rightarrow> string list \<Rightarrow> cf option \<Rightarrow> cf \<Rightarrow> cf option run" where
  "ClientFramework_init prog args me s =
     (if me \<noteq> None then Inr me else and_then (ClientFramework_new prog args s) (\<lambda>s. Inr (Some s)))"

definition ClientFramework_getInstance :: "cf option \<Rightarrow> cf option" where
  "ClientFramework_getInstance me = me"

datatype release = Close_socket | Delete_machine machine

definition ClientFramework_delete :: "cf \<Rightarrow> release list" where
  "ClientFramework_delete s = (if connected s then [Close_socket] else [])
     @ (case cf_machine s of None \<Rightarrow> [] | Some m \<Rightarrow> [Delete_machine m])"

definition ClientFramework_destroy :: "cf option \<Rightarrow> release list" where
  "ClientFramework_destroy me = (case me of None \<Rightarrow> [] | Some s \<Rightarrow> ClientFramework_delete s)"

text \<open>The program, with what it releases before it returns its status.\<close>

definition main ::
  "(machine \<Rightarrow> 'm option) \<Rightarrow> 'm handler \<Rightarrow> string \<Rightarrow> string list \<Rightarrow> dial \<Rightarrow> dial list \<Rightarrow> cf \<Rightarrow> (release list \<times> int) run" where
  "main ini h prog args d ds s =
     and_then (ClientFramework_init prog args None s) (\<lambda>me.
     and_then (run_of (ClientFramework_getInstance me)) (\<lambda>s.
     and_then (runCF ini h d ds s) (\<lambda>(res, s).
     Inr (ClientFramework_destroy (Some s), if res then 0 else - 1))))"

lemma print_fields [simp]:
  "buffer (printArguments s) = buffer s" "wire (printArguments s) = wire s" "mapName (printArguments s) = mapName s"
  "nodeName (printArguments s) = nodeName s" "userName (printArguments s) = userName s"
  "password (printArguments s) = password s" "creatorId (printArguments s) = creatorId s"
  "needNewMap (printArguments s) = needNewMap s" "sigaction_ok (printArguments s) = sigaction_ok s"
  "thread_ok (printArguments s) = thread_ok s" "cf_machine (printArguments s) = cf_machine s"
  "connected (printArguments s) = connected s"
proof -
  have f: "fold say_line ls s = s\<lparr>out := out (fold say_line ls s)\<rparr>" for ls s
  proof (induction ls arbitrary: s)
    case (Cons l ls)
    have "fold say_line ls (say_line l s) = (say_line l s)\<lparr>out := out (fold say_line ls (say_line l s))\<rparr>"
      by (rule Cons.IH)
    also have "\<dots> = s\<lparr>out := out (fold say_line ls (say_line l s))\<rparr>"
      by (simp add: say_line_def [of l s] say_def [of _ s])
    finally show ?case by simp
  qed simp
  obtain x where "printArguments s = s\<lparr>out := x\<rparr>" unfolding printArguments_def using f by blast
  then show "buffer (printArguments s) = buffer s" "wire (printArguments s) = wire s"
    "mapName (printArguments s) = mapName s" "nodeName (printArguments s) = nodeName s"
    "userName (printArguments s) = userName s" "password (printArguments s) = password s"
    "creatorId (printArguments s) = creatorId s" "needNewMap (printArguments s) = needNewMap s"
    "sigaction_ok (printArguments s) = sigaction_ok s" "thread_ok (printArguments s) = thread_ok s"
    "cf_machine (printArguments s) = cf_machine s" "connected (printArguments s) = connected s" by simp_all
qed

lemma start_running:
  assumes "pending (rx s) = command_bytes 3 @ ys" "can_send s" "length (buffer s) = 1524"
    and "sigaction_ok s" "thread_ok s" "cf_machine s = Some m" "ini m = Some um"
  shows "\<exists>t. startSimulation ini h ds s = and_then (event_loop h um t) (\<lambda>(um, s).
        and_then (recoverSimulation h ds um s) (\<lambda>_. Inl (Exit 0)))
    \<and> pending (rx t) = ys \<and> ending (rx t) = ending (rx s) \<and> cf_machine t = Some m
    \<and> wire t = wire s @ command_bytes 2 \<and> length (buffer t) = 1524 \<and> can_send t"
proof -
  define s1 where "s1 = (say ''Starting simulation... '' s)\<lparr>buffer := command_bytes 2 @ drop 4 (buffer s)\<rparr>"
  have p: "put_command StartingSimulationRequestCommand (say ''Starting simulation... '' s) = Inr s1"
    using assms(3) by (simp add: put_command_eq s1_def StartingSimulationRequestCommand_def)
  have b1: "length (buffer s1) = 1524" "can_send s1" "take 4 (buffer s1) = command_bytes 2"
    using assms(2,3) by (simp_all add: s1_def can_send_def)
  obtain s2 where s2: "sendOrReceive True 24 4 s1 = Inr (True, s2)" "sent (command_bytes 2) s1 s2"
    using send_sent [OF b1(2), of 4 24] b1 by auto
  obtain a where a: "s2 = s1\<lparr>tx := a, wire := wire s1 @ command_bytes 2\<rparr>" "can_send s2"
    using s2(2) by (auto simp: sent_def)
  have p2: "pending (rx s2) = command_bytes 3 @ ys" "length (buffer s2) = 1524"
    using assms(1) b1 by (simp_all add: a s1_def)
  obtain cs where cs: "sendOrReceive False 25 4 s2
      = Inr (True, s2\<lparr>rx := cs, buffer := take 4 (pending (rx s2)) @ drop 4 (buffer s2)\<rparr>)"
    "pending cs = drop 4 (pending (rx s2))" "ending cs = ending (rx s2)"
    using receive_enough [of 4 s2 25] p2 by auto
  let ?s3 = "s2\<lparr>rx := cs, buffer := command_bytes 3 @ drop 4 (buffer s2)\<rparr>"
  have r: "sendOrReceive False 25 4 s2 = Inr (True, ?s3)" using cs(1) p2(1) by simp
  have c: "read_int (buffer ?s3) 0 = Some 3" by (simp add: command_bytes_def)
  define t where "t = (say_line rule_line
      (say_line ''Simulation started. You will receive all frames of the machine from now on.''
        (say_line ''[Done]'' ?s3)))\<lparr>initialized := True\<rparr>"
  have "startSimulation ini h ds s = and_then (event_loop h um t) (\<lambda>(um, s).
        and_then (recoverSimulation h ds um s) (\<lambda>_. Inl (Exit 0)))"
    unfolding startSimulation_def Let_def p using s2(1) r c assms(4-7)
    by (simp add: protocol_numbers simulateMachine_def st_run_def a(1) s1_def t_def systemInterrupt_def and_then_def split_def
        split: sum.splits)
  moreover have "pending (rx t) = ys" "ending (rx t) = ending (rx s)" "cf_machine t = Some m"
    "wire t = wire s @ command_bytes 2" "length (buffer t) = 1524" "can_send t"
    using cs(2,3) p2 a(2) assms(6) by (simp_all add: t_def a(1) s1_def can_send_def)
  ultimately show ?thesis by blast
qed

lemma length_described_machine: "countOfInterfaces (described_machine ds info) = int (length ds)"
  "ifaces (described_machine ds info) = described_from 0 ds" "customInfo (described_machine ds info) = info"
  by (simp_all add: described_machine_def)

lemma wf_described: "i \<in> set (described_from k ds) \<Longrightarrow> wf_interface i"
  by (induction ds arbitrary: k) (auto simp: described_def wf_interface_def split: prod.splits)

lemma configured_fields [simp]:
  "iface (configured gw mac names s) = iface s"
  "number_of_servers (configured gw mac names s) = int (length names)"
  "number_of_all_servers (configured gw mac names s) = int (length names)"
  "ip_to_mac (configured gw mac names s) = ip_to_mac s"
  "mac_gateway (configured gw mac names s) = mac @ [0, 0, 0] @ drop 9 (mac_gateway s)"
  by (simp_all add: configured_def init_range_def)

section \<open>Properties\<close>

text \<open>
  C8: The program as a whole. Connected to a server that follows the protocol, it sends the requests in
  order, initialises its machine with exactly what the server described, then handles the frames
  that come behind the answers; when the event loop ends it tries to recover, and the process ends with
  status 0.
\<close>

theorem program_runs_simulation:
  assumes "pending cs = server_answers ds info @ command_bytes 3 @ ys" "\<forall>c\<in>set accepts. 0 \<le> c"
    and "length (buffer s) = 1524" "names_ok s" "describes ds info" "sigaction_ok s" "thread_ok s"
    and "ini (described_machine ds info) = Some um"
  shows "\<exists>t. runCF ini h (Accepted cs accepts) dials s = and_then (event_loop h um t) (\<lambda>(um, s).
        and_then (recoverSimulation h dials um s) (\<lambda>_. Inl (Exit 0)))
    \<and> pending (rx t) = ys \<and> ending (rx t) = ending cs \<and> cf_machine t = Some (described_machine ds info)
    \<and> wire t = wire s @ client_requests s @ command_bytes 2 \<and> length (buffer t) = 1524"
proof -
  let ?d = "Accepted cs accepts"
  obtain s1 where s1: "connectToServer ?d (printArguments s) = Inr (True, s1)"
    and f: "rx s1 = cs" "tx s1 = accepts" "buffer s1 = buffer s" "wire s1 = wire s" "sigaction_ok s1 = sigaction_ok s"
    "thread_ok s1 = thread_ok s" and n: "names_ok s1" "client_requests s1 = client_requests s"
    using assms(4)
    by (auto simp: connectToServer_def Let_def names_ok_def client_requests_def signing_in_request_def
        map_request_def node_request_def split: if_splits)
  obtain t1 where t1: "doInitialNegotiations s1 = Inr (True, t1)" "cf_machine t1 = Some (described_machine ds info)"
    "wire t1 = wire s1 @ client_requests s1" "pending (rx t1) = command_bytes 3 @ ys" "ending (rx t1) = ending cs"
    "can_send t1" "length (buffer t1) = 1524" "sigaction_ok t1" "thread_ok t1"
    by (rule negotiate_chunked [of s1 ds info "command_bytes 3 @ ys"]) (use assms f n in \<open>simp_all add: can_send_def\<close>)
  from start_running [where ini = ini and h = h and ds = dials, OF t1(4,6-9,2) assms(8)]
  show ?thesis using s1 t1 f n by (auto simp: runCF_def)
qed

text \<open>
  C14: The overlay node inside the framework. From a configuration of at most 1000 servers and at least
  two interfaces, \<open>initialize\<close> succeeds on the machine the server described; and in every round of the
  event loop, whatever frames arrive and however the commands of the user fall between them, the
  node is reachable in its own step relation, well-formed, with its interfaces and servers unchanged.
\<close>

theorem overlay_node_in_framework:
  assumes "tokens info = gw # mac_str mac # num # names" "atoi num = Some (int (length names))"
    and "length names \<le> 1000" "length mac = 6" "3 \<le> gap" "2 \<le> length ds"
  shows "\<exists>um. node_ini sched input gap junk clk (described_machine ds info) = Some um
    \<and> iface (node_of um) = described_from 0 ds
    \<and> (\<forall>s um' s'. rounds node_handler um s um' s' \<longrightarrow> node_steps (node_of um) (node_of um') \<and> wf_node (node_of um')
        \<and> iface (node_of um') = described_from 0 ds \<and> number_of_servers (node_of um') = int (length names))"
proof -
  let ?init = "sm_start gap (described_from 0 ds) junk clk"
  let ?s = "configured gw mac names ?init" and ?um = "(sched, '''', input, configured gw mac names ?init)"
  have "9 \<le> length (mac_gateway ?init)" using assms(5) by (auto simp: sm_start_def)
  then have i: "node_ini sched input gap junk clk (described_machine ds info) = Some ?um"
    using initialize_eq [OF assms(1-4)]
    by (simp add: node_ini_def getCustomInformation_def length_described_machine)
  have wf: "wf_node ?s" using assms(3,4,6)
    by (auto simp: wf_node_def wf_servers_def sm_start_def intro: wf_described)
  have "node_steps ?s (node_of um') \<and> wf_node (node_of um') \<and> iface (node_of um') = described_from 0 ds
      \<and> number_of_servers (node_of um') = int (length names)" if "rounds node_handler ?um s um' s'" for s um' s'
  proof -
    have st: "node_steps ?s (node_of um')"
      using overlay.rounds_inv [OF that, of ?s] by (simp add: node_of_def node_steps.refl)
    from node_steps_evolves [OF st] wf have "wf_node (node_of um')" "node_config (node_of um') = node_config ?s"
      by (simp_all add: evolves_def)
    then show ?thesis using st by (simp add: node_config_def) (simp add: sm_start_def)
  qed
  then show ?thesis using i by (intro exI [of _ ?um]) (simp add: node_of_def sm_start_def)
qed

theorem program_runs_simulation_witness:
  "\<exists>t. runCF (\<lambda>m. Some []) noting (Accepted [Data (server_answers sample_descriptions ''gateway 1'' @ command_bytes 3 @ [0, 0])]
        [2, 5]) [] (sample_cf [] [])
      = and_then (event_loop noting [] t) (\<lambda>(um, s). and_then (recoverSimulation noting [] um s) (\<lambda>_. Inl (Exit 0)))
    \<and> pending (rx t) = [0, 0]"
  using program_runs_simulation [of "[Data (server_answers sample_descriptions ''gateway 1'' @ command_bytes 3 @ [0, 0])]"
      sample_descriptions "''gateway 1''" "[0, 0]" "[2, 5]" "sample_cf [] []" "\<lambda>m. Some []" "[]" noting "[]"]
    sample_names sample_describes
  by (auto simp: sample_cf_def)

theorem overlay_node_in_framework_witness:
  "\<exists>um. node_ini [1, 0] [''ping''] 8 (\<lambda>_. 0) (\<lambda>_. 0) (described_machine sample_descriptions
        ''192.168.1.1 0A:0B:0C:0D:0E:0F 2 10.0.0.1 10.0.0.2'') = Some um
    \<and> iface (node_of um) = described_from 0 sample_descriptions"
proof -
  have t: "tokens ''192.168.1.1 0A:0B:0C:0D:0E:0F 2 10.0.0.1 10.0.0.2''
    = ''192.168.1.1'' # mac_str [10, 11, 12, 13, 14, 15] # ''2'' # [''10.0.0.1'', ''10.0.0.2'']" by code_simp
  have n: "atoi ''2'' = Some (int (length [''10.0.0.1'', ''10.0.0.2'']))" by code_simp
  show ?thesis using overlay_node_in_framework [OF t n, of 8 sample_descriptions]
    by (fastforce simp: sample_descriptions_def)
qed

text \<open>
  C29: The end of the program. \<open>main\<close> returns only after a failure, with status -1, since after a
  simulation the process ends inside \<open>startSimulation\<close>. If the server cannot be reached it does return, and
  it releases nothing but the socket, if there is one.
\<close>

theorem main_returns_failure:
  shows "(main ini h prog args d ds s = Inr (rel, status) \<longrightarrow> status = - 1)
    \<and> (ClientFramework_new prog args s = Inr t \<and> (d = No_socket \<or> d = Refused) \<longrightarrow>
        main ini h prog args d ds s = Inr (if d = Refused then [Close_socket] else [], - 1))"
proof (intro conjI impI)
  have no: "startSimulation ini h ds u \<noteq> Inr (True, v)" for u v
    by (auto simp: startSimulation_def check_ok_eq_True and_then_eq_Inr fail_with_def systemInterrupt_def Let_def split: if_splits)
  then show "status = - 1" if "main ini h prog args d ds s = Inr (rel, status)"
    using that by (auto simp: main_def and_then_eq_Inr runCF_def check_ok_eq_True split: if_splits)
next
  assume "ClientFramework_new prog args s = Inr t \<and> (d = No_socket \<or> d = Refused)"
  then have n: "ClientFramework_new prog args s = Inr t" and d: "d = No_socket \<or> d = Refused" by blast+
  note f = new_fields [OF n]
  show "main ini h prog args d ds s = Inr (if d = Refused then [Close_socket] else [], - 1)"
    using d f by (auto simp: main_def ClientFramework_init_def n ClientFramework_getInstance_def runCF_def connectToServer_def
        Let_def ClientFramework_destroy_def ClientFramework_delete_def)
qed

text \<open>A complete command line, and a server that refuses the connection.\<close>

theorem main_returns_failure_witness:
  "\<exists>t. ClientFramework_new ''cf'' (concat (map opt_words sample_options)) (sample_cf [] []) = Inr t
    \<and> main (\<lambda>m. Some []) noting ''cf'' (concat (map opt_words sample_options)) Refused [] (sample_cf [] []) = Inr ([Close_socket], - 1)"
proof -
  have "distinct (map slot sample_options)" "{..<6} \<subseteq> slot ` set sample_options"
    by (auto simp: sample_options_def)
  then obtain t where "ClientFramework_new ''cf'' (concat (map opt_words sample_options)) (sample_cf [] []) = Inr t"
    using options_result [OF sample_options_ok, of "[]"] by (auto simp: ClientFramework_new_def)
  then show ?thesis
    using main_returns_failure [where t = t and d = Refused and h = noting and ini = "\<lambda>m. Some []" and ds = "[]"] by auto
qed

end
