(* ===== verification/Overlay.thy ===== *)
theory Overlay
  imports Node
begin

text \<open>
  Two nodes together. A probe that one node (sm.cpp: \<open>send_udp_packet\<close>) sends through a peer, its
  processing at the peer (\<open>processFrame\<close>, which forwards it to the Internet), and the way back of the
  answer: through the peer's port table to the node, which prints the time. The frames are valid
  except where the checksum routine loses a carry.
\<close>

section \<open>UDP packets with any payload\<close>

lemma htons_be16: "bytes16 (htons w) = be16 w"
  by (simp add: be16_def bytes16_def wire_simps)

lemma htonl_be32: "bytes32 (htonl w) = be32 w"
  by (simp add: be32_def bytes32_def wire_simps)

definition udp_packet :: "u8 list \<Rightarrow> u8 list \<Rightarrow> u32 \<Rightarrow> u32 \<Rightarrow> u16 \<Rightarrow> u16 \<Rightarrow> u8 list \<Rightarrow> u8 list" where
  "udp_packet dhost shost src dst sport dport pay = eth_bytes dhost shost
     @ ip_packet (of_nat (28 + length pay)) IPPROTO_UDP src dst @ udp_bytes sport dport (of_nat (8 + length pay)) @ pay"

lemma length_udp_packet:
  "length dh = 6 \<Longrightarrow> length sh = 6 \<Longrightarrow> length (udp_packet dh sh src dst sp dp pay) = 42 + length pay"
  by (simp add: udp_packet_def)

lemma udp_packet_bytes:
  assumes "length dh = 6" "length sh = 6"
  shows "udp_packet dh sh src dst sp dp pay = (dh @ sh) @ [8, 0, 0x45, 0] @ be16 (of_nat (28 + length pay)) @ [0, 0, 0, 0, 64, 17]
    @ bytes16 (ip_csum (of_nat (28 + length pay)) 17 src dst) @ be32 src @ be32 dst @ be16 sp @ be16 dp
    @ be16 (of_nat (8 + length pay)) @ [0, 0] @ pay"
proof -
  have "be16 ETHERTYPE_IP = [8, 0]" by code_simp
  then show ?thesis by (simp add: udp_packet_def eth_bytes_def ip_packet_def ip_bytes_def udp_bytes_def)
qed

lemma be_at_be16:
  assumes "m ! i = be16 w ! 0" "m ! (i + 1) = be16 w ! 1"
  shows "be_at m i = unat w"
  using assms unat_u16_less [of w] by (simp add: be_at_def be16_def unat_byte_of)

lemma udp_packet_valid:
  assumes "length dh = 6" "length sh = 6" "length pay < 65508"
  shows "is_valid_packet (Frame_new (of_nat (42 + length pay)) (udp_packet dh sh src dst sp dp pay))
      = Some (\<not> double_carry (ip_sum_words (of_nat (28 + length pay)) 17 src dst))"
    and "udp_packet dh sh src dst sp dp pay ! 23 = 17"
proof -
  let ?m = "udp_packet dh sh src dst sp dp pay" and ?n = "of_nat (28 + length pay) :: u16"
  let ?u = "of_nat (8 + length pay) :: u16"
  note len = length_udp_packet [OF assms(1,2), of src dst sp dp pay]
  have b: "?m ! (12 + k) = ([8, 0, 0x45, 0] @ be16 ?n @ [0, 0, 0, 0, 64, 17]
    @ bytes16 (ip_csum ?n 17 src dst) @ be32 src @ be32 dst @ be16 sp @ be16 dp
    @ be16 ?u @ [0, 0] @ pay) ! k" for k
    using assms(1,2) unfolding udp_packet_bytes [OF assms(1,2)] by (subst nth_append) simp
  note at = b [of 0] b [of 1] b [of 2] b [of 11]
  have "be_at ?m 16 = unat ?n" "be_at ?m 38 = unat ?u"
    using b [of 4] b [of 5] b [of 26] b [of 27]
    by (intro be_at_be16; simp add: bytes16_def be32_def be16_def)+
  moreover have "unat ?n = 28 + length pay" "unat ?u = 8 + length pay"
    using assms(3) by (intro unat_of_nat_less; simp)+
  ultimately have f: "framed_ipv4 ?m" "valid_udp ?m" "ip_hl (?m ! 14) = 5"
    using at len by (simp_all add: framed_ipv4_def valid_udp_def be_at_def ip_v_def ip_hl_def be16_def)
  have "header_words ?m 14 20 = words_of (ip_packet ?n 17 src dst)"
    using assms(1,2) by (simp add: header_words_def udp_packet_def)
  then have s: "sum_list (header_words ?m 14 20) = ip_sum_words ?n 17 src dst + unat (ip_csum ?n 17 src dst)"
    by (simp add: ip_packet_def words_of_ip_bytes)
  have "unat (of_nat (ip_sum_words ?n 17 src dst) :: u32) = ip_sum_words ?n 17 src dst"
    using ip_sum_words_bound [of ?n 17 src dst] by (intro unat_of_nat_less) simp
  then have "rfc1071_valid (header_words ?m 14 20) \<longleftrightarrow> \<not> double_carry (ip_sum_words ?n 17 src dst)"
    unfolding rfc1071_valid_def ones_sum_header s ip_csum_def by (metis fold_once_self_valid)
  moreover have "unat (of_nat (42 + length pay) :: u32) = 42 + length pay"
    using assms(3) by (intro unat_of_nat_less) simp
  ultimately show "is_valid_packet (Frame_new (of_nat (42 + length pay)) ?m)
      = Some (\<not> double_carry (ip_sum_words ?n 17 src dst))"
    using is_valid_packet_eq [of "Frame_new (of_nat (42 + length pay)) ?m"] len f assms(3)
    by (simp add: Frame_new_def Let_def)
  show "?m ! 23 = 17" using at(4) by (simp add: be16_def)
qed

lemma udp_packet_loads:
  assumes "length dh = 6" "length sh = 6"
  shows "load32 (udp_packet dh sh src dst sp dp pay) 26 = Some (htonl src)"
    "load32 (udp_packet dh sh src dst sp dp pay) 30 = Some (htonl dst)"
    "load16 (udp_packet dh sh src dst sp dp pay) 34 = Some (htons sp)"
    "load16 (udp_packet dh sh src dst sp dp pay) 36 = Some (htons dp)"
    "drop 42 (udp_packet dh sh src dst sp dp pay) = pay"
    "take 6 (drop 6 (udp_packet dh sh src dst sp dp pay)) = sh"
  using assms unfolding udp_packet_bytes [OF assms] htons_be16 [symmetric] htonl_be32 [symmetric]
  by (simp_all add: load32_def load16_def load_bytes_def)

lemma udp_packet_udp:
  assumes "length dh = 6" "length sh = 6" "length pay < 65508"
    and "\<not> double_carry (ip_sum_words (of_nat (28 + length pay)) 17 src dst)"
  shows "udp_frame (of_nat (42 + length pay)) (udp_packet dh sh src dst sp dp pay)"
proof -
  have "unat (of_nat (42 + length pay) :: u32) = 42 + length pay"
    using assms(3) by (intro unat_of_nat_less) simp
  then show ?thesis
    using udp_packet_valid [OF assms(1-3)] assms(3,4) length_udp_packet [OF assms(1,2)] by (simp add: udp_frame_def)
qed

section \<open>The probe at the peer\<close>

definition probe_frame :: "u8 list \<Rightarrow> u8 list \<Rightarrow> u32 \<Rightarrow> u32 \<Rightarrow> u16 \<Rightarrow> u16 \<Rightarrow> u8 list" where
  "probe_frame dhost shost src dst sport dport = eth_bytes dhost shost @ ip_packet 32 IPPROTO_UDP src dst
     @ udp_bytes sport dport 12 @ probe_payload"

lemma probe_bytes_frame:
  "probe_bytes s ip_dst next_hop peer sport is_dsa = probe_frame peer (if_mac (iface s ! hop_iface s next_hop))
     (if_ip (iface s ! hop_iface s next_hop)) ip_dst sport (probe_port is_dsa)"
  by (simp add: probe_bytes_def probe_frame_def Let_def)

lemma length_probe_frame:
  "length dh = 6 \<Longrightarrow> length sh = 6 \<Longrightarrow> length (probe_frame dh sh src dst sp dp) = 46"
  by (simp add: probe_frame_def probe_payload_def)

text \<open>Its bytes one by one.\<close>

lemma probe_frame_bytes:
  assumes "length dh = 6" "length sh = 6"
  shows "probe_frame dh sh src dst sp dp = (dh @ sh) @ [8, 0, 0x45, 0, 0, 32, 0, 0, 0, 0, 64, 17]
    @ bytes16 (ip_csum 32 17 src dst) @ be32 src @ be32 dst @ be16 sp @ be16 dp @ [0, 12, 0, 0, 0x12, 0x34, 0x56, 0x78]"
proof -
  have "be16 ETHERTYPE_IP = [8, 0]" "be16 32 = [0, 32]" "be16 12 = [0, 12]" by code_simp+
  then show ?thesis by (simp add: probe_frame_def eth_bytes_def ip_packet_def ip_bytes_def udp_bytes_def probe_payload_def)
qed

lemma probe_frame_packet: "probe_frame dh sh src dst sp dp = udp_packet dh sh src dst sp dp probe_payload"
  by (simp add: probe_frame_def udp_packet_def probe_payload_def)

lemma probe_frame_valid:
  assumes "length dh = 6" "length sh = 6"
  shows "is_valid_packet (Frame_new 46 (probe_frame dh sh src dst sp dp))
    = Some (\<not> double_carry (ip_sum_words 32 17 src dst))"
  using udp_packet_valid(1) [OF assms, of probe_payload src dst sp dp]
  by (simp add: probe_frame_packet) (simp add: probe_payload_def)

lemma probe_frame_loads:
  assumes "length dh = 6" "length sh = 6"
  shows "load32 (probe_frame dh sh src dst sp dp) 26 = Some (htonl src)"
    "load32 (probe_frame dh sh src dst sp dp) 30 = Some (htonl dst)"
    "load16 (probe_frame dh sh src dst sp dp) 34 = Some (htons sp)"
    "load16 (probe_frame dh sh src dst sp dp) 36 = Some (htons dp)"
  unfolding probe_frame_packet by (rule udp_packet_loads [OF assms])+

text \<open>
  Rewriting the source of a probe gives the probe of the new source: same payload, same destination,
  a checksum of its own.
\<close>

lemma rewrite_probe:
  assumes "length dh = 6" "length sh = 6" "length dh' = 6" "length sh' = 6"
  shows "do { m \<leftarrow> set_eth_addresses sh' dh' (probe_frame dh sh src dst sp dp);
      m \<leftarrow> store16 m (offset_of Udp_src) (htons q); m \<leftarrow> store32 m (offset_of Ip_src) (htonl src'); set_ip_checksum m }
    = Some (probe_frame dh' sh' src' dst q dp)"
proof -
  have eth: "set_eth_addresses sh' dh' (probe_frame dh sh src dst sp dp) = Some (probe_frame dh' sh' src dst sp dp)"
    using set_eth_addresses_eq [OF assms(3,4), of "dh @ sh"] assms by (simp add: probe_frame_bytes)
  let ?p = "(dh' @ sh') @ [8, 0]" and ?r = "\<lambda>q. be16 q @ be16 dp @ [0, 12, 0, 0, 0x12, 0x34, 0x56, 0x78]"
  have f: "probe_frame dh' sh' a dst q dp = ?p @ ip_bytes 32 17 a dst (ip_csum 32 17 a dst) @ ?r q" for a q
  proof -
    have "be16 (32 :: u16) = [0, 32]" by code_simp
    then show ?thesis using assms by (simp add: probe_frame_bytes ip_bytes_def)
  qed
  have s16: "store16 (?p @ ip_bytes 32 17 a dst c @ ?r sp) 34 (htons q) = Some (?p @ ip_bytes 32 17 a dst c @ ?r q)" for a c
    using assms by (simp add: struct_ops store_bytes_def ip_bytes_def be16_def be32_def bytes16_def bytes32_def wire_simps)
  have s32: "store32 (?p @ ip_bytes 32 17 a dst c @ ?r q) 26 (htonl b) = Some (?p @ ip_bytes 32 17 b dst c @ ?r q)" for a b c
    using assms by (simp add: struct_ops store_bytes_def ip_bytes_def be16_def be32_def bytes16_def bytes32_def wire_simps)
  have sum: "set_ip_checksum (?p @ ip_bytes 32 17 b dst c @ ?r q) = Some (?p @ ip_bytes 32 17 b dst (ip_csum 32 17 b dst) @ ?r q)" for b c
    using assms by (intro set_ip_checksum_eq) simp
  show ?thesis by (simp only: eth Option.bind.simps f offset_of.simps s16 s32 sum)
qed

lemma forward_out_probe:
  assumes "wf_node s" "length dh = 6" "length sh = 6" "src_port s < 2147483647"
  obtains s' where "forward_out 46 (probe_frame dh sh src dst sp dp) port s = Some s'"
    "sent_frames s' = sent_frames s @ [(probe_frame (gateway_mac s) (if_mac (iface s ! 1)) (if_ip (iface s ! 1)) dst
       (word_of_int (src_port s)) dp, 1)]"
    "src_port s' = src_port s + 1"
proof -
  let ?m = "probe_frame dh sh src dst sp dp" and ?q = "word_of_int (src_port s) :: u16"
  let ?m' = "probe_frame (gateway_mac s) (if_mac (iface s ! 1)) (if_ip (iface s ! 1)) dst ?q dp"
  note if1 = wf_node_iface [OF assms(1), of 1]
  note ld = probe_frame_loads [OF assms(2,3)]
  have gw: "length (gateway_mac s) = 6" by (rule length_gateway_mac [OF assms(1)])
  have "set_eth_addresses (if_mac (iface s ! 1)) (mac_gateway s) = set_eth_addresses (if_mac (iface s ! 1)) (gateway_mac s)"
    using assms(1) by (intro ext) (simp add: set_eth_addresses_def memcpy_def load_bytes_def gateway_mac_def wf_node_def)
  then obtain m1 m2 m3 where st: "set_eth_addresses (if_mac (iface s ! 1)) (mac_gateway s) ?m = Some m1"
    "store16 m1 34 (htons ?q) = Some m2" "store32 m2 26 (htonl (if_ip (iface s ! 1))) = Some m3"
    "set_ip_checksum m3 = Some ?m'"
    using rewrite_probe [OF assms(2,3) gw if1(2), of src dst sp dp ?q "if_ip (iface s ! 1)"]
    by (auto simp: Option.bind_eq_Some_conv)
  have l: "load32 m1 26 = Some (htonl src)" "load16 m1 34 = Some (htons sp)"
  proof -
    have "same_outside {0..<12} ?m m1"
      using set_eth_addresses_same [of ?m "if_mac (iface s ! 1)" "mac_gateway s"] st(1) if1(2) assms
        length_probe_frame [OF assms(2,3)] by (auto simp: wf_node_def)
    then show "load32 m1 26 = Some (htonl src)" "load16 m1 34 = Some (htons sp)"
      using ld same_outside_load [of "{0..<12}" ?m m1 26 4] same_outside_load [of "{0..<12}" ?m m1 34 2]
      by (simp_all add: load32_def load16_def)
  qed
  obtain t where t: "alloc_port (Some (htonl src, htons sp)) s = Some (?q, t)"
    using alloc_port_eq [OF assms(4)] by blast
  note a = alloc_port_owner(2) [OF t]
  have "length ?m' = 46" using length_probe_frame gw if1 by simp
  then have "send_frame (Frame_new 46 ?m') 1 t = Some (t\<lparr>sent_frames := sent_frames t @ [(?m', 1)]\<rparr>)"
    by (intro send_frame_n) simp
  then have "forward_out 46 ?m port s = Some (put_line (Cout (protocol_name port @ '' packet forwarded to '' @ ip_text dst))
      (t\<lparr>sent_frames := sent_frames t @ [(?m', 1)]\<rparr>))"
    using st l t ld(2) if1(1) by (simp add: forward_out_def getIp_def ipUint_into_str_text del: One_nat_def)
  then show thesis by (rule that) (simp_all add: a put_line_def)
qed

lemma probe_at_peer:
  assumes "wf_node s" "length dh = 6" "length sh = 6" "src_port s < 2147483647"
  shows "\<exists>s'. processFrame (Frame_new 46 (probe_frame dh sh src dst sp (probe_port is_dsa))) i s = Some s'
    \<and> (if double_carry (ip_sum_words 32 17 src dst) then sent_frames s' = sent_frames s
       else sent_frames s' = sent_frames s @ [(probe_frame (gateway_mac s) (if_mac (iface s ! 1)) (if_ip (iface s ! 1)) dst
          (word_of_int (src_port s)) (probe_port is_dsa), 1)])
    \<and> src_port s' \<le> src_port s + 1"
proof (cases "double_carry (ip_sum_words 32 17 src dst)")
  case True
  then show ?thesis using probe_frame_valid [OF assms(2,3)] by (simp add: processFrame_def Let_def)
next
  case False
  let ?m = "probe_frame dh sh src dst sp (probe_port is_dsa)"
  let ?l = "frame_logged (Frame_new 46 ?m) i s"
  have "?m ! (12 + 11) = 17" unfolding probe_frame_bytes [OF assms(2,3)] using assms by (subst nth_append) simp
  then have "udp_frame 46 ?m"
    using False probe_frame_valid [OF assms(2,3)] length_probe_frame [OF assms(2,3)] by (simp add: udp_frame_def)
  then have "processFrame (Frame_new 46 ?m) i s = forward_out 46 ?m (probe_port is_dsa) ?l"
    using processFrame_udp process_forward [OF probe_frame_loads(4) [OF assms(2,3)]] by (simp add: probe_port_def)
  moreover obtain s' where "forward_out 46 ?m (probe_port is_dsa) ?l = Some s'"
    "sent_frames s' = sent_frames ?l @ [(probe_frame (gateway_mac ?l) (if_mac (iface ?l ! 1)) (if_ip (iface ?l ! 1)) dst
       (word_of_int (src_port ?l)) (probe_port is_dsa), 1)]" "src_port s' = src_port ?l + 1"
    by (rule forward_out_probe [of ?l dh sh src dst sp "probe_port is_dsa" "probe_port is_dsa"]) (use assms in simp_all)
  ultimately show ?thesis using False by (simp add: gateway_mac_def)
qed

text \<open>The probe as its sender puts it on the overlay link.\<close>

lemma probe_to_peer:
  assumes "wf_node s" "src_port s < 2147483647" "ip_to_mac s hop = Some peer" "hop \<noteq> ii_uint (ip_gateway s)"
  shows "send_udp_packet dst hop is_dsa s = Some (probe_sent s dst hop peer is_dsa)"
    and "sent_frames (probe_sent s dst hop peer is_dsa) = sent_frames s @
      [(probe_frame peer (if_mac (iface s ! 0)) (if_ip (iface s ! 0)) dst (word_of_int (src_port s)) (probe_port is_dsa), 0)]"
    and "length peer = 6" "length (if_mac (iface s ! 0)) = 6"
  using send_udp_packet_eq [OF assms(1) _ assms(2), of hop peer dst is_dsa] assms wf_node_peer wf_node_iface(2) [OF assms(1), of 0]
  by (simp_all add: hop_mac_def probe_sent_def probe_bytes_frame hop_iface_def tick_def)

section \<open>The answer at the peer and at the node\<close>

lemma be_at_same: "same_outside S d m \<Longrightarrow> i + 1 < length d \<Longrightarrow> i \<notin> S \<Longrightarrow> i + 1 \<notin> S \<Longrightarrow> be_at m i = be_at d i"
  by (simp add: same_outside_def be_at_def)

lemma forwarded_valid:
  assumes "udp_frame n d" "3 \<le> ip_hl (d ! 14)" "same_outside (nat_bytes 30 36) d m" "checksummed m"
  shows "is_valid_packet (Frame_new n m) = Some (\<not> double_carry (header_sum m))" "m ! 23 = 17" "unat n = length m"
    "length m < 2147483648"
proof -
  have d: "framed_ipv4 d" "valid_udp d" "header_inside d" "42 \<le> length d" "unat n = length d" "length d < 2147483648"
    using is_valid_packet_eq [of "Frame_new n d"] assms(1) udp_frame_inside [OF assms(1)]
    by (auto simp: udp_frame_def Frame_new_def Let_def valid_echo_reply_def split: if_splits)
  note len = same_outside_length [OF assms(3)]
  have "m ! 14 = d ! 14" "m ! 23 = d ! 23"
    using assms(3) d(4) by (auto simp: same_outside_def nat_bytes_def)
  moreover have "be_at m 12 = be_at d 12" "be_at m 16 = be_at d 16" "be_at m 38 = be_at d 38"
    using d(4) by (auto intro!: be_at_same [OF assms(3)] simp: nat_bytes_def)
  ultimately have m: "framed_ipv4 m" "valid_udp m" "m ! 14 = d ! 14" "m ! 23 = 17"
    using d len by (simp_all add: framed_ipv4_def valid_udp_def)
  have hl: "14 + 4 * ip_hl (m ! 14) \<le> length m" using d(3) m(3) len by (simp add: header_inside_def)
  then have "rfc1071_valid (header_words m 14 (4 * ip_hl (m ! 14))) \<longleftrightarrow> \<not> double_carry (header_sum m)"
    using check_sum_ip_zero_iff(1) [OF hl ip_hl_le] assms(2,4) m(3) by (simp add: checksummed_def)
  then show "is_valid_packet (Frame_new n m) = Some (\<not> double_carry (header_sum m))"
    using is_valid_packet_eq [of "Frame_new n m"] m hl len d(5,6) by (simp add: Frame_new_def Let_def)
  show "m ! 23 = 17" "unat n = length m" "length m < 2147483648" using m len d by simp_all
qed

text \<open>
  The answer as the peer hands it on: another destination address and port. The code takes the UDP
  header to start at byte 34, so for a header with options these bytes are part of the sum.
\<close>

definition readdressed :: "u8 list \<Rightarrow> u32 \<Rightarrow> u16 \<Rightarrow> u8 list" where
  "readdressed d ip port = take 30 d @ be32 ip @ take 2 (drop 34 d) @ be16 port @ drop 38 d"

lemma header_sum_readdressed:
  assumes "same_outside (nat_bytes 30 36) d m" "42 \<le> length d"
    and "load32 m 30 = Some (htonl ip)" "load16 m 36 = Some (htons port)"
  shows "header_sum m = header_sum (readdressed d ip port)"
proof -
  let ?r = "readdressed d ip port"
  note len = same_outside_length [OF assms(1)]
  have lr: "length ?r = length d" using assms(2) by (simp add: readdressed_def)
  have b: "take 4 (drop 30 m) = be32 ip" "take 2 (drop 36 m) = be16 port"
    using assms(2-4) len
    by (auto simp: load32_def load16_def load_bytes_def htonl_be32 [symmetric] htons_be16 [symmetric]
        bytes32_dec32 bytes16_dec16 dest: arg_cong [where f = bytes32] arg_cong [where f = bytes16])
  have n: "m ! j = ?r ! j" if j: "12 \<le> j" "j < length d" "j \<noteq> 24" "j \<noteq> 25" for j
  proof -
    consider "30 \<le> j" "j < 34" | "36 \<le> j" "j < 38" | "j \<notin> nat_bytes 30 36"
      using j by (auto simp: nat_bytes_def)
    then show ?thesis
    proof cases
      case 1
      then have "m ! j = take 4 (drop 30 m) ! (j - 30)" using len assms(2) by simp
      moreover have "j - 30 < 4" using 1 by linarith
      ultimately show ?thesis using 1 assms(2) by (simp add: b readdressed_def nth_append)
    next
      case 2
      then have "m ! j = take 2 (drop 36 m) ! (j - 36)" using len assms(2) by simp
      moreover have "j - 36 < 2" "\<not> j - 34 < 2" "\<not> j - 30 < 4" using 2 by linarith+
      ultimately show ?thesis using 2 assms(2) by (simp add: b readdressed_def nth_append)
    next
      case 3
      then have "?r ! j = d ! j" using j assms(2) by (auto simp: readdressed_def nth_append nat_bytes_def)
      then show ?thesis using 3 j(2) assms(1) by (simp add: same_outside_def)
    qed
  qed
  have "drop 14 (m[24 := 0, 25 := 0]) = drop 14 (?r[24 := 0, 25 := 0])"
    by (rule nth_equalityI) (use len lr n assms(2) in \<open>auto simp: nth_list_update\<close>)
  then show ?thesis using n [of 14] assms(2) by (simp add: header_sum_def header_words_def)
qed

lemma answer_at_node:
  assumes "is_valid_packet (Frame_new n m) = Some True" "m ! 23 = 17" "unat n = length m" "length m < 2147483648"
    and "load16 m 34 = Some (htons (probe_port is_dsa))" "load16 m 36 = Some (htons q)"
    and "8000 \<le> q" "uint q < src_port s" "port_to_ip s q = None" "sent_times s q = Some t"
  shows "\<exists>s'. processFrame (Frame_new n m) i s = Some s' \<and> console s' = console s @
    [Cerr (''Frame received at iface '' @ show_int i @ '' with length '' @ show_nat (length m)),
     Cout ((if is_dsa then ''DSA'' else ''LSA'') @ '' packet '' @ show_nat (unat q)
       @ '' reply received in '' @ show_nat (unat (millis (now (tick s) - t))) @ ''ms'')]"
proof -
  let ?l = "frame_logged (Frame_new n m) i s"
  have u: "udp_frame n m" using assms(1-4) by (simp add: udp_frame_def)
  have "q \<noteq> 5000" "q \<noteq> 1000" "q \<noteq> 2000" using assms(7) by auto
  then have "processFrame (Frame_new n m) i s = probe_answered m q ?l"
    using assms processFrame_udp [OF u] by (simp add: process_udp_def Let_def)
  then show ?thesis
    using assms(3,5,10) by (simp add: probe_answered_def Let_def frame_logged_def put_line_def tick_def now_def
        probe_port_def protocol_name_def Frame_new_def)
qed

text \<open>A node keeps the time of a probe under its port, which is in nobody's name.\<close>

lemma probe_remembered:
  assumes "ports_ok a" "src_port a < 65536" "evolves a (probe_sent a dst hop peer is_dsa)"
    and "node_steps (probe_sent a dst hop peer is_dsa) a2" "src_port a2 \<le> 65536"
  shows "src_port a < src_port a2" "port_to_ip a2 (word_of_int (src_port a)) = None"
    "sent_times a2 (word_of_int (src_port a)) = Some (now a)"
proof -
  let ?q = "word_of_int (src_port a) :: u16" and ?a1 = "probe_sent a dst hop peer is_dsa"
  have r: "8000 \<le> src_port a" "src_port a \<le> 65535" using assms(1,2) by (simp_all add: ports_ok_def)
  then have q: "uint ?q = src_port a" by (intro uint_port) simp_all
  have a1: "src_port ?a1 = src_port a + 1" "sent_times ?a1 ?q = Some (now a)" "port_to_ip ?a1 = port_to_ip a"
    by (simp_all add: probe_sent_def tick_def)
  have ev: "evolves ?a1 a2" by (rule node_steps_evolves [OF assms(4)])
  then have "ports_ok ?a1" using assms(1,3) r a1(1) by (simp add: evolves_def)
  then have k: "ports_kept ?a1 a2" using ev assms(5) by (simp add: evolves_def)
  have used: "?q \<in> used_ports ?a1" "?q \<notin> used_ports a" using q r a1(1) by (simp_all add: used_ports_def)
  then have "port_to_ip ?a1 ?q = None" using assms(1) a1(3) by (auto simp: ports_ok_def)
  then have "owner_of a2 ?q = None" using k used(1) by (simp add: ports_kept_def owner_of_def)
  then show "port_to_ip a2 ?q = None" by (auto simp: owner_of_def split: option.splits)
  show "sent_times a2 ?q = Some (now a)" using k used(1) a1(2) by (simp add: ports_kept_def)
  show "src_port a < src_port a2" using ev a1(1) by (simp add: evolves_def)
qed

lemma probe_frame_udp:
  assumes "length dh = 6" "length sh = 6" "\<not> double_carry (ip_sum_words 32 17 src dst)"
  shows "udp_frame 46 (probe_frame dh sh src dst sp dp)"
  using udp_packet_udp [OF assms(1,2), of probe_payload src dst sp dp] assms(3)
  by (simp add: probe_frame_packet) (simp add: probe_payload_def)

section \<open>Properties\<close>

text \<open>
  C12: A probe through a peer. A node that sends a probe through a peer, and the peer that receives the
  frame: if the checksum of the probe's header loses no carry, the peer sends on exactly the frame it
  would send for a probe of its own to the same server through its gateway. If it does lose one, the
  peer drops the probe.
\<close>

theorem probe_forwarded_by_peer:
  assumes "wf_node a" "src_port a < 65536" "ip_to_mac a hop = Some peer" "hop \<noteq> ii_uint (ip_gateway a)"
    and "wf_node b" "src_port b < 65536"
  shows "\<exists>a' m b'. send_udp_packet dst hop is_dsa a = Some a' \<and> sent_frames a' = sent_frames a @ [(m, 0)]
    \<and> processFrame (Frame_new 46 m) i b = Some b'
    \<and> (if double_carry (ip_sum_words 32 17 (if_ip (iface a ! 0)) dst) then sent_frames b' = sent_frames b
       else map_option sent_frames (send_udp_packet dst (ii_uint (ip_gateway b)) is_dsa b) = Some (sent_frames b'))"
proof -
  have s: "src_port a < 2147483647" using assms(2) by simp
  note p = probe_to_peer [OF assms(1) s assms(3,4)]
  have "send_udp_packet dst (ii_uint (ip_gateway b)) is_dsa b = Some (probe_sent b dst (ii_uint (ip_gateway b)) (gateway_mac b) is_dsa)"
    using assms(5,6) by (intro send_udp_packet_eq) (simp_all add: hop_mac_def)
  then show ?thesis
    using p probe_at_peer [OF assms(5) p(3,4), of "if_ip (iface a ! 0)" dst "word_of_int (src_port a)" is_dsa i] assms(2,6)
    by (fastforce simp: probe_sent_def probe_bytes_frame hop_iface_def tick_def)
qed

text \<open>The sample node and, as its peer, a node with the addresses the other way round.\<close>

definition sample_peer :: sm where
  "sample_peer = sample_node\<lparr>iface := [(sample_ifaces ! 0)\<lparr>if_mac := [2, 0, 0, 0, 0, 3], if_ip := 0x0A000002\<rparr>, sample_ifaces ! 1],
     ip_to_mac := [0x0A000001 \<mapsto> [2, 0, 0, 0, 0, 1]]\<rparr>"

lemma wf_sample_peer: "wf_node sample_peer"
  using wf_sample_node
  by (simp add: sample_peer_def wf_node_def wf_servers_def sample_node_def sm_start_def sample_ifaces_def wf_interface_def)

lemma sample_nodes:
  "ip_to_mac sample_node 0x0A000002 = Some [2, 0, 0, 0, 0, 3]" "ip_to_mac sample_peer 0x0A000001 = Some [2, 0, 0, 0, 0, 1]"
  "ii_uint (ip_gateway sample_node) = 0xC0A80101" "src_port sample_peer = 8000" "sent_frames sample_peer = []"
  "if_ip (iface sample_node ! 0) = 0x0A000001" "ports_ok sample_node" "ports_ok sample_peer" "console sample_node = []"
  by (simp_all add: sample_peer_def sample_node_def sm_start_def sample_ifaces_def ports_ok_def)

lemma sample_no_carry: "\<not> double_carry (ip_sum_words 32 17 0x0A000001 0x08080404)"
  by code_simp

text \<open>The probe to 8.8.4.4 passes; one to 63.225.49.236 is dropped.\<close>

theorem probe_forwarded_by_peer_witness:
  "(\<exists>a' m b'. send_udp_packet 0x08080404 0x0A000002 True sample_node = Some a' \<and> sent_frames a' = [(m, 0)]
    \<and> processFrame (Frame_new 46 m) 0 sample_peer = Some b' \<and> sent_frames b' \<noteq> [])
   \<and> (\<exists>a' m b'. send_udp_packet 0x3FE131EC 0x0A000002 True sample_node = Some a' \<and> sent_frames a' = [(m, 0)]
    \<and> processFrame (Frame_new 46 m) 0 sample_peer = Some b' \<and> sent_frames b' = [])"
proof
  note forwarded = probe_forwarded_by_peer [OF wf_sample_node _ sample_nodes(1) _ wf_sample_peer, where is_dsa = True and i = 0]
  have own: "send_udp_packet 0x08080404 (ii_uint (ip_gateway sample_peer)) True sample_peer
      = Some (probe_sent sample_peer 0x08080404 (ii_uint (ip_gateway sample_peer)) (gateway_mac sample_peer) True)"
    using wf_sample_peer by (intro send_udp_packet_eq) (simp_all add: hop_mac_def sample_nodes)
  obtain a' m b' where p: "send_udp_packet 0x08080404 0x0A000002 True sample_node = Some a'" "sent_frames a' = [(m, 0)]"
    "processFrame (Frame_new 46 m) 0 sample_peer = Some b'"
    "map_option sent_frames (send_udp_packet 0x08080404 (ii_uint (ip_gateway sample_peer)) True sample_peer) = Some (sent_frames b')"
    using forwarded [of "0x08080404"] sample_no_carry by (auto simp: sample_nodes)
  then have "sent_frames b' \<noteq> []" using own by (auto simp: probe_sent_def tick_def)
  then show "\<exists>a' m b'. send_udp_packet 0x08080404 0x0A000002 True sample_node = Some a' \<and> sent_frames a' = [(m, 0)]
    \<and> processFrame (Frame_new 46 m) 0 sample_peer = Some b' \<and> sent_frames b' \<noteq> []"
    using p(1-3) by blast
  have "double_carry (ip_sum_words 32 17 0x0A000001 0x3FE131EC)" by code_simp
  then show "\<exists>a' m b'. send_udp_packet 0x3FE131EC 0x0A000002 True sample_node = Some a' \<and> sent_frames a' = [(m, 0)]
    \<and> processFrame (Frame_new 46 m) 0 sample_peer = Some b' \<and> sent_frames b' = []"
    using forwarded [of "0x3FE131EC"] by (auto simp: sample_nodes)
qed

text \<open>
  C5: The answer to a probe comes back. After the peer has forwarded the probe both nodes run on, with
  any commands and frames, while their port counters stay below 65536. When the server's answer then
  arrives at the peer, it sends it to the node; and if the checksum of the readdressed header loses no
  carry, the node reports the reply to that probe, under the probe's own port and with the time
  since it was sent.
\<close>

theorem probe_reply_delivered:
  assumes "wf_node a" "ports_ok a" "src_port a < 65536" "ip_to_mac a hop = Some peer" "hop \<noteq> ii_uint (ip_gateway a)"
    and "wf_node b" "ports_ok b" "src_port b < 65536"
    and "\<not> double_carry (ip_sum_words 32 17 (if_ip (iface a ! 0)) dst)"
    and "send_udp_packet dst hop is_dsa a = Some a1" "sent_frames a1 = sent_frames a @ [(m1, 0)]"
    and "processFrame (Frame_new 46 m1) i b = Some b1"
    and "node_steps a1 a2" "src_port a2 \<le> 65536" "node_steps b1 b2" "src_port b2 \<le> 65536"
    and "udp_frame n d" "5 \<le> ip_hl (d ! 14)" "load16 d 34 = Some (htons (if is_dsa then 1000 else 2000))"
    and "load16 d 36 = Some (htons (word_of_int (src_port b)))" "ip_to_mac b2 (if_ip (iface a ! 0)) = Some mac"
    and "\<not> double_carry (header_sum (readdressed d (if_ip (iface a ! 0)) (word_of_int (src_port a))))"
  shows "\<exists>b3 m. processFrame (Frame_new n d) j b2 = Some b3 \<and> sent_frames b3 = sent_frames b2 @ [(m, 0)]
    \<and> load_bytes m 0 12 = Some (mac @ if_mac (iface b ! 0)) 
    \<and> (\<exists>a3. processFrame (Frame_new n m) k a2 = Some a3 \<and> console a3 = console a2 @
        [Cerr (''Frame received at iface '' @ show_int k @ '' with length '' @ show_nat (length d)),
         Cout ((if is_dsa then ''DSA'' else ''LSA'') @ '' packet '' @ show_nat (nat (src_port a))
           @ '' reply received in '' @ show_nat (unat (millis (now (tick a2) - now a))) @ ''ms'')])"
proof -
  let ?q = "word_of_int (src_port a) :: u16"
  have r: "8000 \<le> src_port a" "src_port a \<le> 65535" using assms(2,3) by (simp_all add: ports_ok_def)
  then have q: "uint ?q = src_port a" by (intro uint_port) simp_all
  have s: "src_port a < 2147483647" using r by simp
  note p = probe_to_peer [OF assms(1) s assms(4,5)]
  have a1: "a1 = probe_sent a dst hop peer is_dsa"
    and m1: "m1 = probe_frame peer (if_mac (iface a ! 0)) (if_ip (iface a ! 0)) dst ?q (probe_port is_dsa)"
    using p(1,2) assms(10,11) by auto
  note ld = probe_frame_loads [OF p(3,4), of "if_ip (iface a ! 0)" dst ?q "probe_port is_dsa", folded m1]
  have u1: "udp_frame 46 m1" unfolding m1 by (rule probe_frame_udp [OF p(3,4) assms(9)])
  have pp: "probe_port is_dsa = 1000 \<or> probe_port is_dsa = 2000" by (simp add: probe_port_def)
  obtain b3 m where b3: "processFrame (Frame_new n d) j b2 = Some b3" "sent_frames b3 = sent_frames b2 @ [(m, 0)]"
    "load16 m 36 = Some (htons ?q)" "load_bytes m 0 12 = Some (mac @ if_mac (iface b ! 0))"
    "same_outside (nat_bytes 30 36) d m" "checksummed m" "load32 m 30 = Some (htonl (if_ip (iface a ! 0)))"
    using nat_return [OF assms(6-8) u1 ld(4) pp assms(12,15,16,17,20), of mac j] ld(1,3) assms(21) by auto
  have "\<exists>a3. processFrame (Frame_new n m) k a2 = Some a3 \<and> console a3 = console a2 @
        [Cerr (''Frame received at iface '' @ show_int k @ '' with length '' @ show_nat (length d)),
         Cout ((if is_dsa then ''DSA'' else ''LSA'') @ '' packet '' @ show_nat (nat (src_port a))
           @ '' reply received in '' @ show_nat (unat (millis (now (tick a2) - now a))) @ ''ms'')]"
  proof -
    have "42 \<le> length d" using udp_frame_inside [OF assms(17)] by simp
    then have c: "\<not> double_carry (header_sum m)"
      using header_sum_readdressed [OF b3(5) _ b3(7,3)] assms(22) by simp
    have hl: "3 \<le> ip_hl (d ! 14)" using assms(18) by simp
    note v = forwarded_valid [OF assms(17) hl b3(5,6)]
    have "{34..<34 + 2} \<inter> nat_bytes 30 36 = {}" by (auto simp: nat_bytes_def)
    then have l: "load16 m 34 = Some (htons (probe_port is_dsa))"
      using same_outside_load [OF b3(5), of 34 2] assms(19) by (simp add: load16_def probe_port_def)
    have ev: "evolves a (probe_sent a dst hop peer is_dsa)" using assms(10) a1 by (auto intro: evolve)
    note rem = probe_remembered [OF assms(2,3) ev assms(13) [unfolded a1] assms(14)]
    have u: "unat ?q = nat (src_port a)" "8000 \<le> ?q" using q r by (simp_all add: unat_eq_nat_uint word_le_def)
    show ?thesis
      using answer_at_node [OF _ v(2-4) l b3(3) u(2) _ rem(2,3), of k] v(1) c q rem(1) u(1) same_outside_length [OF b3(5)]
      by simp
  qed
  then show ?thesis using b3(1,2,4) by blast
qed

theorem probe_reply_delivered_witness:
  "\<exists>a1 b1 b3 m a3 t. send_udp_packet 0x08080404 0x0A000002 True sample_node = Some a1
    \<and> processFrame (Frame_new 46 sample_answer) 1 b1 = Some b3 \<and> sent_frames b3 = sent_frames b1 @ [(m, 0)]
    \<and> processFrame (Frame_new 46 m) 0 a1 = Some a3
    \<and> console a3 = [Cerr ''Frame received at iface 0 with length 46'', Cout (''DSA packet '' @ show_nat 8000 @ '' reply received in '' @ t @ ''ms'')]"
proof -
  have s: "src_port sample_node < 2147483647" "0x0A000002 \<noteq> ii_uint (ip_gateway sample_node)"
    by (simp_all add: sample_nodes)
  note p = probe_to_peer [OF wf_sample_node s(1) sample_nodes(1) s(2)]
  let ?a1 = "probe_sent sample_node 0x08080404 0x0A000002 [2, 0, 0, 0, 0, 3] True"
  let ?m1 = "probe_frame [2, 0, 0, 0, 0, 3] (if_mac (iface sample_node ! 0)) (if_ip (iface sample_node ! 0)) 0x08080404
    (word_of_int (src_port sample_node)) (probe_port True)"
  obtain b1 where b1: "processFrame (Frame_new 46 ?m1) 0 sample_peer = Some b1" "src_port b1 \<le> 8001"
    using probe_at_peer [OF wf_sample_peer p(3,4), of "if_ip (iface sample_node ! 0)" "0x08080404" "word_of_int 8000" True 0]
    by (auto simp: sample_nodes)
  have "0x0A000001 \<in> dom (ip_to_mac b1)"
    using evolves_processFrame [OF b1(1)] sample_nodes(2) by (auto simp: evolves_def)
  then obtain mac where mac: "ip_to_mac b1 (if_ip (iface sample_node ! 0)) = Some mac" by (auto simp: sample_nodes)
  note u = sample_udp_frames(2)
  have d: "5 \<le> ip_hl (sample_answer ! 14)" "load16 sample_answer 34 = Some (htons (if True then 1000 else 2000))"
    "load16 sample_answer 36 = Some (htons (word_of_int 8000))" "length sample_answer = 46"
    "\<not> double_carry (header_sum (readdressed sample_answer 0x0A000001 (word_of_int 8000)))" by code_simp+
  have "src_port ?a1 \<le> 65536" "console ?a1 = []" by (simp_all add: probe_sent_def tick_def sample_nodes)
  moreover have "show_nat 46 = ''46''" "show_int 0 = ''0''" by code_simp+
  ultimately obtain b3 m a3 where "processFrame (Frame_new 46 sample_answer) 1 b1 = Some b3"
    "sent_frames b3 = sent_frames b1 @ [(m, 0)]" "processFrame (Frame_new 46 m) 0 ?a1 = Some a3"
    "console a3 = [Cerr ''Frame received at iface 0 with length 46'', Cout (''DSA packet '' @ show_nat 8000 @ '' reply received in ''
      @ show_nat (unat (millis (now (tick ?a1) - now sample_node))) @ ''ms'')]"
    using probe_reply_delivered [OF wf_sample_node sample_nodes(7) _ sample_nodes(1) s(2) wf_sample_peer sample_nodes(8) _ _
        p(1,2) b1(1) node_steps.refl _ node_steps.refl _ u d(1,2) _ mac, of 1 0] b1(2) d sample_no_carry
    by (auto simp: sample_nodes)
  then show ?thesis using p(1) by blast
qed

end
