(* ===== verification/Frames.thy ===== *)
theory Frames
  imports Overlay
begin

text \<open>
  What the node puts on its links (every \<open>sendFrame\<close> of sm.cpp). Each frame is an IPv4 frame whose length
  fields agree with its length, with the MAC address of the link it leaves through; what leaves
  through the public link goes to the gateway and bears the node's public address, so that the
  addresses of the overlay do not leave it.
\<close>

section \<open>Frames to send\<close>

definition frame_ok :: "sm \<Rightarrow> u8 list \<times> int \<Rightarrow> bool" where
  "frame_ok s f \<longleftrightarrow> (let (d, i) = f in framed_ipv4 d \<and> checksummed d \<and> (i = 0 \<or> i = 1)
     \<and> (\<exists>dhost. length dhost = 6 \<and> load_bytes d 0 12 = Some (dhost @ if_mac (iface s ! nat i))
         \<and> (i = 1 \<longrightarrow> dhost = gateway_mac s))
     \<and> (i = 1 \<longrightarrow> load32 d 26 = Some (htonl (if_ip (iface s ! 1)))))"

definition emits :: "sm \<Rightarrow> sm \<Rightarrow> bool" where
  "emits s s' \<longleftrightarrow> evolves s s' \<and> (wf_node s \<longrightarrow> 3 \<le> pad s \<longrightarrow>
     (\<exists>fs. sent_frames s' = sent_frames s @ fs \<and> (\<forall>f\<in>set fs. frame_ok s f)))"

named_theorems emit \<open>operations that only send frames to send\<close>

lemma frame_ok_config: "node_config s' = node_config s \<Longrightarrow> frame_ok s' = frame_ok s"
  by (rule ext) (simp add: frame_ok_def node_config_def gateway_mac_def)

lemma emits_trans:
  assumes "emits s t" "emits t u"
  shows "emits s u"
proof -
  have ev: "evolves s t" "evolves s u" using assms evolves_trans by (auto simp: emits_def)
  then have cfg: "node_config t = node_config s" and wf: "wf_node s \<Longrightarrow> wf_node t" by (simp_all add: evolves_def)
  then have c: "wf_node s \<Longrightarrow> wf_node t" "pad t = pad s" "frame_ok t = frame_ok s"
    using frame_ok_config [OF cfg] by (simp_all add: node_config_def)
  have "\<exists>fs. sent_frames u = sent_frames s @ fs \<and> (\<forall>f\<in>set fs. frame_ok s f)"
    if w: "wf_node s" "3 \<le> pad s"
  proof -
    obtain fs where fs: "sent_frames t = sent_frames s @ fs" "\<forall>f\<in>set fs. frame_ok s f"
      using assms(1) w by (auto simp: emits_def)
    have "wf_node t" "3 \<le> pad t" using c(1,2) w by simp_all
    then obtain gs where gs: "sent_frames u = sent_frames t @ gs" "\<forall>f\<in>set gs. frame_ok t f"
      using assms(2) by (auto simp: emits_def)
    show ?thesis
      by (rule exI [of _ "fs @ gs"]) (use fs gs c(3) in auto)
  qed
  then show ?thesis using ev(2) by (simp add: emits_def)
qed

lemma emits_silent: "evolves s s' \<Longrightarrow> sent_frames s' = sent_frames s \<Longrightarrow> emits s s'"
  by (simp add: emits_def)

lemma emits_refl: "emits s s"
  by (simp add: emits_silent evolves_refl)

lemma emits_one:
  assumes "evolves s s'" "wf_node s \<Longrightarrow> 3 \<le> pad s \<Longrightarrow> \<exists>f. sent_frames s' = sent_frames s @ [f] \<and> frame_ok s f"
  shows "emits s s'"
  using assms by (fastforce simp: emits_def)

lemma emits_foldM:
  assumes "\<And>x s s'. f x s = Some s' \<Longrightarrow> emits s s'" "foldM f xs s = Some s'"
  shows "emits s s'"
proof (rule foldM_inv [of xs "emits s" f s s'])
  fix x t t' assume "emits s t" "f x t = Some t'"
  then show "emits s t'" using assms(1) emits_trans by blast
qed (use assms(2) emits_refl in simp_all)

section \<open>Serialised frames\<close>

lemma serialised_frame_ok:
  assumes "length dh = 6" "length sh = 6" "sh = if_mac (iface s ! nat i)" "i = 0 \<or> i = 1 \<and> dh = gateway_mac s \<and> src = if_ip (iface s ! 1)"
    and "unat len = 20 + length r" "8 \<le> length r"
  shows "frame_ok s (eth_bytes dh sh @ ip_packet len proto src dst @ r, i)"
proof -
  let ?m = "eth_bytes dh sh @ ip_packet len proto src dst @ r"
  have be: "be16 ETHERTYPE_IP = [8, 0]" by code_simp
  have m: "?m = (dh @ sh) @ [8, 0, 0x45, 0] @ be16 len @ [0, 0, 0, 0, 64, proto] @ bytes16 (ip_csum len proto src dst)
      @ be32 src @ be32 dst @ r"
    by (simp add: eth_bytes_def be ip_packet_def ip_bytes_def)
  have b: "?m ! (12 + k) = ([8, 0, 0x45, 0] @ be16 len @ [0, 0, 0, 0, 64, proto] @ bytes16 (ip_csum len proto src dst)
      @ be32 src @ be32 dst @ r) ! k" for k
    using assms(1,2) unfolding m by (subst nth_append) simp
  have "be_at ?m 16 = unat len"
    using b [of 4] b [of 5] unat_u16_less [of len] by (simp add: be_at_def be16_def unat_byte_of)
  moreover have at: "?m ! 12 = 8" "?m ! 13 = 0" "?m ! 14 = 0x45" using b [of 0] b [of 1] b [of 2] by simp_all
  ultimately have "framed_ipv4 ?m" using assms by (simp add: framed_ipv4_def be_at_def ip_v_def)
  moreover have "checksummed ?m"
  proof -
    have hs: "header_sum ?m = ip_sum_words len proto src dst"
    proof -
      have "?m[24 := 0, 25 := 0] = (dh @ sh @ [8, 0]) @ ip_bytes len proto src dst 0 @ r"
        using assms(1,2) unfolding m by (simp add: ip_bytes_def bytes16_def be16_def list_update_append byte_of_def)
      then show ?thesis
        using assms(1,2) at by (simp add: header_sum_def header_words_def ip_hl_def ip_sum_words_def)
    qed
    have "unat (of_nat (ip_sum_words len proto src dst) :: u32) = ip_sum_words len proto src dst"
      using ip_sum_words_bound [of len proto src dst] by (intro unat_of_nat_less) simp
    then have "fold_nat (ip_sum_words len proto src dst + unat (ip_csum len proto src dst)) = 65535
        \<longleftrightarrow> \<not> double_carry (ip_sum_words len proto src dst)"
      unfolding ip_csum_def by (metis fold_once_self_valid)
    moreover have "header_words ?m 14 20 = words_of (ip_packet len proto src dst)"
      using assms(1,2) by (simp add: header_words_def)
    moreover have "ip_hl (?m ! 14) = 5" by (simp add: at ip_hl_def)
    ultimately have hl: "ip_hl (?m ! 14) = 5"
      and "rfc1071_valid (header_words ?m 14 20) \<longleftrightarrow> \<not> double_carry (ip_sum_words len proto src dst)"
      by (simp_all add: rfc1071_valid_def ones_sum_words_of ip_packet_def words_of_ip_bytes)
    then have "check_sum_ip ?m 14 5 = Some 0 \<longleftrightarrow> \<not> double_carry (ip_sum_words len proto src dst)"
      using check_sum_ip_zero_iff(1) [of 14 5 ?m] assms(1,2) by simp
    then show ?thesis by (simp add: checksummed_def hs hl del: append_assoc)
  qed
  moreover have "load_bytes ?m 0 12 = Some (dh @ sh)" using assms(1,2) by (simp add: load_bytes_def m)
  moreover have "load32 ?m 26 = Some (htonl src)"
    using assms(1,2) unfolding m htonl_be32 [symmetric] by (simp add: load32_def load_bytes_def)
  ultimately show ?thesis using assms(1-4) by (auto simp: frame_ok_def)
qed

section \<open>Operations that send nothing\<close>

lemma silent:
  "insert_into_server_infoes info s = Some t \<Longrightarrow> sent_frames t = sent_frames s"
  "update_learning_table info ip s = Some t \<Longrightarrow> sent_frames t = sent_frames s"
  "store_mac_addr_to_map a mac s = Some t \<Longrightarrow> sent_frames t = sent_frames s"
  "probe_answered d port s = Some t \<Longrightarrow> sent_frames t = sent_frames s"
  "id_of a s = (j, t) \<Longrightarrow> sent_frames t = sent_frames s"
  "same_but_console s t \<Longrightarrow> sent_frames t = sent_frames s"
proof -
  show ins: "insert_into_server_infoes info s = Some t \<Longrightarrow> sent_frames t = sent_frames s" for info t
    by (auto simp: insert_into_server_infoes_def upd_server_def split: if_splits)
  show "update_learning_table info ip s = Some t \<Longrightarrow> sent_frames t = sent_frames s"
    using ins by (auto simp: update_learning_table_def Let_def Option.bind_eq_Some_conv upd_server_def split: if_splits)
  show "store_mac_addr_to_map a mac s = Some t \<Longrightarrow> sent_frames t = sent_frames s"
    by (auto simp: store_mac_addr_to_map_def Option.bind_eq_Some_conv)
  show "sent_frames t = sent_frames s" if "probe_answered d port s = Some t"
  proof -
    define v where "v = (tick s)\<lparr>sent_times := (sent_times s)(port \<mapsto> case sent_times s port of Some x \<Rightarrow> x | None \<Rightarrow> 0)\<rparr>"
    have "t = v \<or> (\<exists>l. t = put_line l v)"
      using that by (auto simp: probe_answered_def Let_def Option.bind_eq_Some_conv tick_def v_def split: if_splits)
    moreover have "sent_frames v = sent_frames s" by (simp add: v_def tick_def)
    ultimately show ?thesis by (auto simp: put_line_def)
  qed
  show "id_of a s = (j, t) \<Longrightarrow> sent_frames t = sent_frames s"
    by (auto simp: id_of_def split: option.splits)
  show "same_but_console s t \<Longrightarrow> sent_frames t = sent_frames s"
    by (auto simp: same_but_console_def)
qed

lemma emits_put_line [emit]: "emits s (put_line l s)"
  by (rule emits_silent [OF evolves_fields(1)]) (simp add: put_line_def)

lemma emits_frame_logged [emit]: "emits s (frame_logged fr i s)"
  unfolding frame_logged_def
  by (rule emits_trans [OF emits_silent [OF evolves_fields(2)] emits_put_line]) (simp add: tick_def)

lemma emits_for_servers [emit]: "(\<And>si. si_ip (f si) = si_ip si) \<Longrightarrow> emits s (for_servers n f s)"
  by (rule emits_silent [OF evolves_for_servers]) (simp_all add: for_servers_eq)

lemma emits_report [emit]: "same_but_console s t \<Longrightarrow> emits s t"
  using evolves_report silent(6) emits_silent by blast

lemma emits_update_learning [emit]: "update_learning_table info ip s = Some t \<Longrightarrow> emits s t"
  using evolves_update_learning silent(2) emits_silent by blast

lemma emits_store_mac [emit]: "store_mac_addr_to_map a mac s = Some t \<Longrightarrow> emits s t"
  using evolves_store_mac silent(3) emits_silent by blast

lemma emits_probe_answered [emit]: "probe_answered d port s = Some t \<Longrightarrow> emits s t"
  using evolves_probe_answered silent(4) emits_silent by blast

lemma emits_id_of [emit]: "id_of a s = (j, t) \<Longrightarrow> emits s t"
  using evolves_id_of silent(5) emits_silent by blast

lemma emits_receive_loop [emit]: "receive_loop m n ip_src i s = Some s' \<Longrightarrow> emits s s'"
proof (induction m n ip_src i s rule: receive_loop.induct)
  case (1 m n ip_src i s)
  show ?case
  proof (cases "int i < n - 4")
    case True
    then obtain t where t: "take_offer m ip_src i s = Some t" "receive_loop m n ip_src (i + 12) t = Some s'"
      using "1.prems" by (auto simp: receive_loop.simps [of m n ip_src i] Option.bind_eq_Some_conv)
    have "emits s t" using t(1) by (auto simp: take_offer_def Option.bind_eq_Some_conv intro: emit)
    then show ?thesis using "1.IH" [OF True t] emits_trans by blast
  next
    case False
    then show ?thesis using "1.prems" emits_refl by (simp add: receive_loop.simps [of m n ip_src i])
  qed
qed

lemma emits_receive_advertise [emit]: "receive_advertise_data m n ip_src mac s = Some s' \<Longrightarrow> emits s s'"
  by (auto simp: receive_advertise_data_def Option.bind_eq_Some_conv intro: emits_trans emit)

lemma emits_receive_ping [emit]:
  assumes "receive_ping_packet ip t seq s = Some s'"
  shows "emits s s'"
proof (rule emits_foldM)
  show "foldM (receive_ping_entry ip t seq) [0..number_of_servers s - 1] s = Some s'"
    using assms by (simp add: receive_ping_packet_def)
  fix i s s' assume e: "receive_ping_entry ip t seq i s = Some s'"
  have "emits s (upd_server i (ping_answered t) s)"
    by (rule emits_silent [OF evolves_upd_server [OF ping_answered_fields(1)]]) (simp add: upd_server_def)
  then show "emits s s'"
    using e emits_trans [OF _ emits_update_learning] emits_refl
    by (auto simp: receive_ping_entry_def Let_def split: if_splits)
qed

section \<open>Operations that send\<close>

lemma emits_send_icmp [emit]:
  assumes "send_icmp_packet i s = Some s'"
  shows "emits s s'"
proof (rule emits_one [OF evolves_send_icmp [OF assms]])
  assume wf: "wf_node s"
  have "frame_ok s (ping_bytes s (server_infoes s i), 1)"
    unfolding ping_bytes_def
    by (rule serialised_frame_ok) (use wf_node_iface(2) [OF wf, of 1] length_gateway_mac [OF wf] in simp_all)
  then show "\<exists>f. sent_frames s' = sent_frames s @ [f] \<and> frame_ok s f"
    using send_icmp_packet_eq [OF wf, of i] assms by auto
qed

lemma emits_send_udp [emit]:
  assumes "send_udp_packet ip_dst hop is_dsa s = Some s'"
  shows "emits s s'"
proof (rule emits_one [OF evolves_send_udp [OF assms]])
  assume wf: "wf_node s"
  have "\<exists>peer. hop_mac s hop = Some peer" "src_port s < 2147483647"
    using assms by (auto simp: send_udp_packet_def take_port_def alloc_port_def incr_int_def probe_finish_def hop_mac_def Let_def
        Option.bind_eq_Some_conv split: if_splits)
  then obtain peer where p: "hop_mac s hop = Some peer" "src_port s < 2147483647" by blast
  let ?k = "hop_iface s hop"
  have k: "?k < 2" by (simp add: hop_iface_def)
  have peer: "length peer = 6" "?k = 1 \<Longrightarrow> peer = gateway_mac s"
    using p(1) wf_node_peer [OF wf] length_gateway_mac [OF wf] by (auto simp: hop_mac_def hop_iface_def split: if_splits)
  have "frame_ok s (probe_bytes s ip_dst hop peer sport is_dsa, int ?k)" for sport
    unfolding probe_bytes_def Let_def
    by (rule serialised_frame_ok)
      (use k peer wf_node_iface(2) [OF wf k] in \<open>auto simp: probe_payload_def hop_iface_def split: if_splits\<close>)
  then show "\<exists>f. sent_frames s' = sent_frames s @ [f] \<and> frame_ok s f"
    using send_udp_packet_eq [OF wf p, of ip_dst is_dsa] assms by (auto simp: probe_sent_def tick_def)
qed

lemma emits_advertise [emit]:
  assumes "advertise_data s = Some s'"
  shows "emits s s'"
proof (rule emits_one [OF evolves_advertise [OF assms]])
  assume wf: "wf_node s" and pad: "3 \<le> pad s"
  let ?pay = "message_bytes (up_servers s)"
  have "length ?pay \<le> 12004" using up_servers_bound [of s] wf by (simp add: wf_node_def length_message)
  then have u: "unat (of_nat (28 + length ?pay) :: u16) = 28 + length ?pay" by (intro unat_of_nat_less) simp
  have "frame_ok s (announcement_bytes s 0xFFFFFFFF (replicate 6 255) ?pay, 0)"
    unfolding announcement_bytes_def
  proof (rule serialised_frame_ok)
    show "unat (of_nat (28 + length ?pay) :: u16) = 20 + length (udp_bytes 5000 5000 (of_nat (8 + length ?pay)) @ ?pay)"
      unfolding u by simp
  qed (use wf_node_iface(2) [OF wf, of 0] in simp_all)
  then show "\<exists>f. sent_frames s' = sent_frames s @ [f] \<and> frame_ok s f"
    using advertise_data_eq [OF wf pad] assms by auto
qed

lemma emits_send_probe [emit]:
  "send_dsa_packet ip_dst s = Some s' \<Longrightarrow> emits s s'" "send_lsa_packet ip_dst s = Some s' \<Longrightarrow> emits s s'"
proof -
  have *: "emits s s'" if "id_of a s = (i, t)" "send_udp_packet b h d t = Some u" "s' = sent_line k b' h' u"
    for i t u a b h d k b' h'
    using emits_trans [OF emits_trans [OF emits_id_of [OF that(1)] emits_send_udp [OF that(2)]]]
      emits_put_line that(3) by (simp add: sent_line_def)
  show "emits s s'" if "send_dsa_packet ip_dst s = Some s'"
    using that * by (fastforce simp: send_dsa_packet_def Let_def Option.bind_eq_Some_conv split: prod.splits)
  show "emits s s'" if "send_lsa_packet ip_dst s = Some s'"
    using that * by (fastforce simp: send_lsa_packet_def Let_def Option.bind_eq_Some_conv split: prod.splits)
qed

section \<open>Forwarding\<close>

text \<open>A checksum that could be computed covers a header inside the frame.\<close>

lemma set_ip_checksum_inside:
  assumes "set_ip_checksum m = Some m'" "34 \<le> length m"
  shows "header_inside m"
proof -
  obtain m1 vhl s where m1: "store16 m 24 0 = Some m1" "load8 m1 14 = Some vhl" "sum_words m1 14 (ip_hl vhl * 2) 0 = Some s"
    using assms(1) by (auto simp: set_ip_checksum_def sizes check_sum_ip_def Option.bind_eq_Some_conv)
  have l: "length m1 = length m" "m1 ! 14 = m ! 14"
    using store16_upd [OF m1(1)] by simp_all
  then have "vhl = m ! 14" using m1(2) load8_nth [of 14 m1] assms(2) by simp
  then show ?thesis
    using sum_words_defined [of m1 14 "ip_hl vhl * 2" 0] m1(3) l assms(2) by (auto simp: header_inside_def)
qed

lemma rewritten_inside:
  assumes "set_eth_addresses sh dh d = Some m1" "store16 m1 p q = Some m2" "store32 m2 a v = Some m3"
    and "set_ip_checksum m3 = Some m" "6 \<le> length sh" "6 \<le> length dh" "34 \<le> length d" "26 \<le> p" "26 \<le> a"
  shows "header_inside d"
proof -
  have m1: "same_outside {0..<12} d m1" using set_eth_addresses_same [of d sh dh] assms(1,5-7) by auto
  have m2: "same_outside {p..<p + 2} m1 m2" using assms(2) by (auto simp: store16_def intro: same_outside_store)
  have m3: "same_outside {a..<a + 4} m2 m3" using assms(3) by (auto simp: store32_def intro: same_outside_store)
  have "header_inside m3"
    using set_ip_checksum_inside [OF assms(4)] m1 m2 m3 assms(7) by (simp add: same_outside_length)
  then show ?thesis
    using header_inside_same [OF m3] header_inside_same [OF m2] header_inside_same [OF m1] assms(8,9) by auto
qed

lemma framed_same:
  assumes "same_outside S d m" "framed_ipv4 d" "{12, 13, 14, 16, 17} \<inter> S = {}"
  shows "framed_ipv4 m"
proof -
  have l: "length m = length d" "28 \<le> length d" using assms by (simp_all add: same_outside_def framed_ipv4_def)
  have n: "j \<in> {12, 13, 14, 16, 17} \<Longrightarrow> m ! j = d ! j" for j
    using assms(1,3) l(2) by (auto simp: same_outside_def)
  show ?thesis using assms(2) l n by (simp add: framed_ipv4_def be_at_def)
qed

lemma emits_forward_out:
  assumes "forward_out n d port s = Some s'" "framed_ipv4 d" "42 \<le> length d" "unat n = length d"
  shows "emits s s'"
proof (rule emits_one [OF evolves_forward_out [OF assms(1)]])
  assume wf: "wf_node s"
  note own = wf_node_iface [OF wf, of 1]
  have gw: "6 \<le> length (mac_gateway s)" using wf by (simp add: wf_node_def)
  obtain e q t m1 m2 m3 m4 where st: "alloc_port e s = Some (q, t)"
    "set_eth_addresses (if_mac (iface s ! 1)) (mac_gateway s) d = Some m1" "store16 m1 34 (htons q) = Some m2"
    "store32 m2 26 (htonl (if_ip (iface s ! 1))) = Some m3" "set_ip_checksum m3 = Some m4"
    using assms(1) own by (auto simp: forward_out_def getIp_def Option.bind_eq_Some_conv)
  have inside: "header_inside d" by (rule rewritten_inside [OF st(2-5)]) (use own gw assms(3) in simp_all)
  have b: "src_port s < 2147483647"
    using st(1) by (auto simp: alloc_port_def incr_int_def Let_def split: if_splits option.splits)
  obtain m where m: "sent_frames s' = sent_frames s @ [(m, 1)]" "same_outside (nat_bytes 26 34) d m"
    "load_bytes m 0 12 = Some (gateway_mac s @ if_mac (iface s ! 1))" "load32 m 26 = Some (htonl (if_ip (iface s ! 1)))"
    "checksummed m"
    using forward_out_eq [OF wf inside assms(3,4) b HOL.refl, of port] assms(1) by auto
  have "framed_ipv4 m" using framed_same [OF m(2) assms(2)] by (simp add: nat_bytes_def)
  then have "frame_ok s (m, 1)" using m(3-5) length_gateway_mac [OF wf] by (simp add: frame_ok_def)
  then show "\<exists>f. sent_frames s' = sent_frames s @ [f] \<and> frame_ok s f" using m(1) by blast
qed

lemma emits_forward_back:
  assumes "forward_back n d port ip s = Some s'" "framed_ipv4 d" "42 \<le> length d" "unat n = length d"
    and "port_to_ip s port = Some ip"
  shows "emits s s'"
proof (rule emits_one [OF evolves_forward_back [OF assms(1)]])
  assume wf: "wf_node s"
  note own = wf_node_iface [OF wf, of 0]
  obtain peer p m1 m2 m3 m4 where st: "ip_to_mac s (ntohl ip) = Some peer"
    "set_eth_addresses (if_mac (iface s ! 0)) peer d = Some m1" "store16 m1 36 p = Some m2"
    "store32 m2 30 ip = Some m3" "set_ip_checksum m3 = Some m4"
    using assms(1) own by (auto simp: forward_back_def Let_def Option.bind_eq_Some_conv)
  have peer: "length peer = 6" by (rule wf_node_peer [OF wf st(1)])
  have inside: "header_inside d" by (rule rewritten_inside [OF st(2-5)]) (use own peer assms(3) in simp_all)
  obtain r where "owner_of s port = Some (ip, r)" using assms(5) by (simp add: owner_of_def)
  then obtain m where m: "sent_frames s' = sent_frames s @ [(m, 0)]" "same_outside (nat_bytes 30 36) d m"
    "load_bytes m 0 12 = Some (peer @ if_mac (iface s ! 0))" "checksummed m"
    using forward_back_eq [OF wf inside assms(3,4) _ st(1)] assms(1) by fastforce
  have "framed_ipv4 m" using framed_same [OF m(2) assms(2)] by (simp add: nat_bytes_def)
  then have "frame_ok s (m, 0)" using m(3,4) peer by (auto simp: frame_ok_def)
  then show "\<exists>f. sent_frames s' = sent_frames s @ [f] \<and> frame_ok s f" using m(1) by blast
qed

lemma emits_process_udp:
  assumes "process_udp n d s = Some s'" "framed_ipv4 d" "42 \<le> length d" "unat n = length d"
  shows "emits s s'"
  using assms emits_forward_out [OF _ assms(2-4)] emits_forward_back [OF _ assms(2-4)]
  by (auto simp: process_udp_def Let_def Option.bind_eq_Some_conv split: if_splits option.splits
      intro: emit emits_refl)

text \<open>What the copy of a valid frame contains; the memory of the frame may be longer than the frame.\<close>

lemma valid_copy:
  assumes "is_valid_packet fr = Some True" "load_bytes (fdata fr) 0 (unat (flength fr)) = Some d"
  shows "framed_ipv4 d \<and> length d = unat (flength fr) \<and> (load8 d 23 = Some 17 \<longrightarrow> 42 \<le> length d)"
proof -
  let ?m = "fdata fr" and ?n = "flength fr"
  have d: "d = take (unat ?n) ?m" "unat ?n \<le> length ?m" using assms(2) by (auto simp: load_bytes_def split: if_splits)
  obtain et ipl vhl c p where v: "load16 ?m 12 = Some et" "ntohs et = ETHERTYPE_IP" "load16 ?m 16 = Some ipl"
    "size_of_int (sint ?n) = uint (ntohs ipl) + 14" "load8 ?m 14 = Some vhl" "ip_v vhl = 4"
    "\<not> size_of_int (sint ?n) < 28"
    "load8 ?m 23 = Some p" "p = 17 \<longrightarrow> udp_ok ?m (sint ?n) ipl vhl = Some True"
    using assms(1) by (auto simp: is_valid_packet_def Let_def sizes Option.bind_eq_Some_conv split: if_splits)
  have r: "- 2147483648 \<le> sint ?n" "sint ?n < 2147483648"
    using sint_greater_eq [of ?n] sint_less [of ?n] by simp_all
  have small: "size_of_int (sint ?n) < 65550" using v(4) unsigned_less [of "ntohs ipl"] by simp
  have "0 \<le> sint ?n"
  proof (rule ccontr)
    assume "\<not> 0 \<le> sint ?n"
    then have "size_of_int (sint ?n) = sint ?n + 18446744073709551616"
      unfolding size_of_int_def using r(1) by (intro int_mod_pos_eq [where q = "- 1"]) simp_all
    then show False using small r(1) by simp
  qed
  then have n: "sint ?n = int (unat ?n)" "size_of_int (sint ?n) = int (unat ?n)"
    using r(2) by (simp_all add: size_of_int_def of_nat_unat uint_sint take_bit_int_eq_self)
  have l: "28 \<le> length d" "28 \<le> length ?m" "length d = unat ?n" using v(7) n d by simp_all
  have at: "d ! j = ?m ! j" if "j < length d" for j using that d l(3) by simp
  have "et = le16 (d ! 12) (d ! 13)" "ipl = le16 (d ! 16) (d ! 17)" "vhl = d ! 14"
    using v(1,3,5) load16_nth [of 12 ?m] load16_nth [of 16 ?m] load8_nth [of 14 ?m] l by (simp_all add: at)
  moreover have "be_at d 12 = 0x0800" "uint (ntohs (le16 (d ! 16) (d ! 17))) = int (be_at d 16)"
    using v(2) \<open>et = _\<close> ntohs_at_eq [of d 12 "0x0800"] uint_ntohs_at [of d 16] by simp_all
  ultimately have "framed_ipv4 d" using v(4,6) n l by (simp add: framed_ipv4_def)
  moreover have "42 \<le> length d" if "load8 d 23 = Some 17"
  proof -
    have "p = 17" using that v(8) load8_nth [of 23 d] load8_nth [of 23 ?m] l at [of 23] by simp
    then show ?thesis using v(9) n l by (auto simp: udp_ok_def sizes split: if_splits)
  qed
  ultimately show ?thesis using l by blast
qed

lemma emits_processFrame [emit]:
  assumes "processFrame fr i s = Some s'"
  shows "emits s s'"
proof -
  let ?l = "frame_logged fr i s"
  consider "s' = ?l"
    | ip t seq where "receive_ping_packet ip t seq ?l = Some s'"
    | d where "is_valid_packet fr = Some True" "load_bytes (fdata fr) 0 (unat (flength fr)) = Some d"
        "load8 d 23 = Some 17" "process_udp (flength fr) d ?l = Some s'"
    using assms by (auto simp: processFrame_def Let_def Option.bind_eq_Some_conv split: if_splits)
  then have "emits ?l s'"
  proof cases
    case 3
    then show ?thesis using valid_copy [OF 3(1,2)] emits_process_udp by simp
  qed (auto intro: emits_refl emit)
  then show ?thesis using emits_trans [OF emits_frame_logged] by blast
qed

lemma emits_run_command [emit]:
  assumes "run_command command input s = Some (input', s')"
  shows "emits s s'"
proof -
  have check: "si_ip (connection_checked si) = si_ip si" for si
    by (simp add: connection_checked_def Let_def)
  have ping: "emits s s'"
    if "foldM send_icmp_packet [0..number_of_servers s - 1] (check_connections_is_alive s) = Some s'"
    using emits_trans [OF emits_for_servers [OF check] emits_foldM [OF emits_send_icmp that [unfolded check_connections_is_alive_def]]] .
  have fill: "emits t (reset_learning_table (fill_forwarding_table t))" for t
    unfolding reset_learning_table_def fill_forwarding_table_def
    by (rule emits_trans; rule emits_for_servers; simp add: forwarded_def reset_entry_def)
  have stats: "emits s (fold print_server_information xs s)" for xs
    by (rule emits_report, rule same_but_console_fold, rule lines_same)
  show ?thesis
    using assms ping emits_trans [OF emits_advertise fill] stats
      emits_report [OF tables_same(1)] emits_report [OF tables_same(2)] emits_send_probe emits_refl
    by (auto simp: run_command_def Let_def Option.bind_eq_Some_conv split: if_splits prod.splits)
qed

lemma node_steps_emits: "node_steps s s' \<Longrightarrow> emits s s'"
proof (induction rule: node_steps.induct)
  case (step s s' s'')
  have "emits s' s''" using step.hyps(2) by (cases rule: node_step.cases) (auto intro: emit)
  then show ?case using step.IH emits_trans by blast
qed (rule emits_refl)

section \<open>Properties\<close>

text \<open>
  C7: What leaves the node. Whatever commands a well-formed node executes and whatever frames it
  receives, in any order, every frame it sends is an IPv4 frame with consistent lengths, on one of its two
  links, with that link's MAC address as source, and with a header checksum that is right unless the
  fold loses a carry. On the public link every frame goes to the gateway and has the node's own
  public address as source: the addresses of the overlay never leave it.
\<close>

theorem sent_frames_well_formed:
  assumes "wf_node s" "3 \<le> pad s" "node_steps s s'"
  shows "\<exists>fs. sent_frames s' = sent_frames s @ fs \<and> (\<forall>(d, i)\<in>set fs. framed_ipv4 d \<and> checksummed d \<and>
    (i = 0 \<or> i = 1) \<and>
    (\<exists>dhost. load_bytes d 0 12 = Some (dhost @ if_mac (iface s ! nat i)) \<and> length dhost = 6 \<and>
      (i = 1 \<longrightarrow> dhost = take 6 (mac_gateway s) \<and> load32 d 26 = Some (htonl (if_ip (iface s ! 1))))))"
proof -
  obtain fs where fs: "sent_frames s' = sent_frames s @ fs" "\<forall>f\<in>set fs. frame_ok s f"
    using node_steps_emits [OF assms(3)] assms(1,2) by (auto simp: emits_def)
  then show ?thesis
    by (intro exI [of _ fs]) (auto simp: frame_ok_def gateway_mac_def)
qed

theorem sent_frames_well_formed_witness:
  "\<exists>s' d. node_steps sample_node s' \<and> sent_frames s' = [(d, 1)] \<and> load32 d 26 = Some (htonl 0xC0A80102)
    \<and> load_bytes d 0 12 = Some [2, 0, 0, 0, 0, 9, 2, 0, 0, 0, 0, 2]"
proof -
  obtain s' d where s': "run_command ''ping'' [] sample_node = Some ([], s')" "sent_frames s' = [(d, 1)]"
    using ping_command [OF wf_sample_node, of "[]"] by auto
  then have st: "node_steps sample_node s'"
    by (meson node_step.command node_steps.refl node_steps.step)
  have c: "if_ip (iface sample_node ! 1) = 0xC0A80102" "if_mac (iface sample_node ! 1) = [2, 0, 0, 0, 0, 2]"
    "take 6 (mac_gateway sample_node) = [2, 0, 0, 0, 0, 9]"
    by (simp_all add: sample_node_def sample_ifaces_def sm_start_def)
  show ?thesis
    using sent_frames_well_formed [OF wf_sample_node _ st] s'(2) st c by auto
qed

end
