(* ===== verification/Delivery.thy ===== *)
theory Delivery
  imports Simulation Frames
begin

text \<open>
  Nodes on top of the client framework: what becomes of the frames a node sends (sm.cpp) on the way over
  the server to the event loop of another node (cf.cpp) and to the node that runs there.
\<close>

lemma announcement_length:
  assumes "wf_node s"
  shows "length (announcement_bytes s 0xFFFFFFFF (replicate 6 255) (message_bytes (up_servers s)))
    = 46 + 12 * length (up_servers s)"
  using wf_node_iface(2) [OF assms, of 0] by (simp add: announcement_bytes_def)

text \<open>
  The next round of the event loop of \<open>b\<close> hands the frame \<open>d\<close> to the machine as received at the interface
  \<open>j\<close> and leaves \<open>ys\<close> to be read; or the loop ends with the error 28.
\<close>

definition arrives :: "'m handler \<Rightarrow> 'm \<Rightarrow> cf \<Rightarrow> int \<Rightarrow> u8 list \<Rightarrow> u8 list \<Rightarrow> bool" where
  "arrives h um b j d ys \<longleftrightarrow> (\<exists>c mem. event_round h um b
     = and_then (run_of (h um (Frame_new (of_nat (length d)) mem) j)) (\<lambda>(um', fs).
         and_then (send_frames fs c) (\<lambda>t. Inr (True, um', t)))
     \<and> take (length d) mem = d \<and> pending (rx c) = ys)"

definition stopped :: "'m handler \<Rightarrow> 'm \<Rightarrow> cf \<Rightarrow> bool" where
  "stopped h um b \<longleftrightarrow> (\<exists>t. event_loop h um b = Inr (um, t)
     \<and> out t = out b @ ''An IO exception occurred (error code 28). Aborting simulation...'' @ endl)"

text \<open>The receiver \<open>b\<close> runs its event loop and gets the message \<open>msg\<close> for its interface \<open>j\<close>.\<close>

definition gets :: "cf \<Rightarrow> int \<Rightarrow> u8 list \<Rightarrow> u8 list \<Rightarrow> bool" where
  "gets b j msg ys \<longleftrightarrow> pending (rx b) = relayed j msg @ ys \<and> length (buffer b) = 1524
     \<and> (\<exists>m. cf_machine b = Some m \<and> 0 \<le> j \<and> j < countOfInterfaces m \<and> j < 2147483648)"

lemma relayed_frame:
  assumes "can_send a" "14 \<le> length d" "length d < 65532"
  obtains a' msg where "sendFrame (Frame_new (of_nat (length d)) d) i a = Inr (True, a')" "wire a' = wire a @ msg"
    and "\<And>b j ys h um. gets b j msg ys \<Longrightarrow> if length d \<le> 1520 then arrives h um b j d ys else stopped h um b"
proof -
  obtain a' where a': "sendFrame (Frame_new (of_nat (length d)) d) i a = Inr (True, a')"
    "wire a' = wire a @ frame_header (of_nat (length d)) i @ d"
    by (rule sendFrame_message [OF assms, of i])
  show thesis
  proof (rule that [OF a'])
    fix b j ys h um assume "gets b j (frame_header (of_nat (length d)) i @ d) ys"
    then obtain m where b: "pending (rx b) = relayed j (frame_header (of_nat (length d)) i @ d) @ ys" "length (buffer b) = 1524"
      "cf_machine b = Some m" "0 \<le> j" "j < countOfInterfaces m" "j < 2147483648"
      by (auto simp: gets_def)
    show "if length d \<le> 1520 then arrives h um b j d ys else stopped h um b"
    proof (cases "length d \<le> 1520")
      case True
      have "pending (rx b) = frame_notice j d @ ys" using b(1) relayed_message [OF assms(3), of j i] by simp
      then show ?thesis using event_round_frame [OF _ b(2) True b(3-6), of ys h um] True by (auto simp: arrives_def)
    next
      case False
      then show ?thesis using long_frame_stops [OF a' assms(1) _ assms(3) b(1,2), of h um] by (auto simp: stopped_def)
    qed
  qed
qed

text \<open>
  C11: Announcements and the receive buffer. What \<open>advertise_data\<close> broadcasts is sent whatever its length.
  With at most 122 reachable servers it arrives: the event loop of a node it is passed on to hands it to
  the machine byte for byte. With 123 or more it does not fit in the receiver's buffer, and it
  ends the event loop of every node that receives it.
\<close>

theorem announcement_delivery:
  assumes "wf_node s" "3 \<le> pad s" "can_send a"
  shows "\<exists>d a' msg. advertise_data s = Some (s\<lparr>sent_frames := sent_frames s @ [(d, 0)]\<rparr>)
    \<and> sendFrame (Frame_new (of_nat (length d)) d) 0 a = Inr (True, a') \<and> wire a' = wire a @ msg
    \<and> (\<forall>b j ys (h :: 'm handler) um. gets b j msg ys \<longrightarrow>
         (if length (up_servers s) \<le> 122 then arrives h um b j d ys else stopped h um b))"
proof -
  let ?d = "announcement_bytes s 0xFFFFFFFF (replicate 6 255) (message_bytes (up_servers s))"
  have len: "length ?d = 46 + 12 * length (up_servers s)" "length (up_servers s) \<le> 1000"
    using announcement_length [OF assms(1)] up_servers_bound [of s] assms(1) by (simp_all add: wf_node_def)
  then have le: "14 \<le> length ?d" "length ?d < 65532" "length ?d \<le> 1520 \<longleftrightarrow> length (up_servers s) \<le> 122"
    by linarith+
  obtain a' msg where a': "sendFrame (Frame_new (of_nat (length ?d)) ?d) 0 a = Inr (True, a')" "wire a' = wire a @ msg"
    "\<And>b j ys (h :: 'm handler) um. gets b j msg ys \<Longrightarrow> if length ?d \<le> 1520 then arrives h um b j ?d ys else stopped h um b"
    by (rule relayed_frame [OF assms(3) le(1,2), of 0]) blast
  show ?thesis
    using advertise_data_eq [OF assms(1,2)] a'(1,2) a'(3) [unfolded le(3)] by blast
qed

text \<open>A node with 123 servers.\<close>

definition crowded_node :: sm where
  "crowded_node = sample_node\<lparr>number_of_servers := 123, number_of_all_servers := 123\<rparr>"

lemma crowded_node:
  "wf_node crowded_node" "3 \<le> pad crowded_node" "length (up_servers crowded_node) = 123"
proof -
  show "wf_node crowded_node" "3 \<le> pad crowded_node"
    using wf_sample_node by (simp_all add: crowded_node_def wf_node_def wf_servers_def)
  have "si_rtt_time sample_server \<noteq> u16_max" by code_simp
  then have "filter (\<lambda>si. si_rtt_time si \<noteq> u16_max) (map (\<lambda>_. sample_server) xs) = map (\<lambda>_. sample_server) xs"
    for xs :: "int list" by (induction xs) simp_all
  moreover have "server_infoes crowded_node = (\<lambda>_. sample_server)" by (rule ext) (simp add: crowded_node_def)
  ultimately show "length (up_servers crowded_node) = 123" by (simp add: up_servers_def crowded_node_def)
qed

theorem announcement_delivery_witness:
  "\<exists>d a' msg. advertise_data crowded_node = Some (crowded_node\<lparr>sent_frames := sent_frames crowded_node @ [(d, 0)]\<rparr>)
    \<and> sendFrame (Frame_new (of_nat (length d)) d) 0 (sample_running []) = Inr (True, a')
    \<and> wire a' = wire (sample_running []) @ msg
    \<and> stopped noting [] (sample_running [Data (relayed 1 msg)])"
proof -
  have c: "can_send (sample_running [])" by (simp add: sample_running_def can_send_def)
  obtain d a' msg where d: "advertise_data crowded_node = Some (crowded_node\<lparr>sent_frames := sent_frames crowded_node @ [(d, 0)]\<rparr>)"
    "sendFrame (Frame_new (of_nat (length d)) d) 0 (sample_running []) = Inr (True, a')"
    "wire a' = wire (sample_running []) @ msg"
    and stop: "\<forall>b j ys (h :: (u8 list \<times> int) list handler) um. gets b j msg ys \<longrightarrow>
      (if length (up_servers crowded_node) \<le> 122 then arrives h um b j d ys else stopped h um b)"
    using announcement_delivery [OF crowded_node(1,2) c] by blast
  have "gets (sample_running [Data (relayed 1 msg)]) 1 msg []"
    by (simp add: gets_def sample_running_def described_machine_def sample_descriptions_def)
  then have "stopped noting [] (sample_running [Data (relayed 1 msg)])"
    using stop crowded_node(3) by fastforce
  then show ?thesis using d by blast
qed

section \<open>A frame in the receive buffer\<close>

text \<open>
  The event loop hands \<open>processFrame\<close> the frame inside its buffer, with the rest of the buffer behind it.
  What is defined on the frame alone is the same on the buffer.
\<close>

definition defined_alike :: "'a option \<Rightarrow> 'a option \<Rightarrow> bool" where
  "defined_alike x y \<longleftrightarrow> (\<forall>v. x = Some v \<longrightarrow> y = Some v)"

named_theorems longer_rules

lemma longer_refl [longer_rules]: "defined_alike x x"
  by (simp add: defined_alike_def)

lemma longer_bind [longer_rules]:
  "defined_alike x y \<Longrightarrow> (\<And>v. defined_alike (f v) (g v)) \<Longrightarrow> defined_alike (Option.bind x f) (Option.bind y g)"
  by (auto simp: defined_alike_def Option.bind_eq_Some_conv)

lemma longer_if [longer_rules]:
  "defined_alike a c \<Longrightarrow> defined_alike b d \<Longrightarrow> defined_alike (if p then a else b) (if p then c else d)"
  by simp

lemma longer_loads [longer_rules]:
  "defined_alike (load_bytes m i n) (load_bytes (m @ r) i n)" "defined_alike (load8 m i) (load8 (m @ r) i)"
  "defined_alike (load16 m i) (load16 (m @ r) i)" "defined_alike (load32 m i) (load32 (m @ r) i)"
proof -
  have *: "load_bytes m i n = Some v \<Longrightarrow> load_bytes (m @ r) i n = Some v" for i n v
    by (cases "i + n \<le> length m") (simp_all add: load_bytes_front, simp add: load_bytes_def)
  show "defined_alike (load_bytes m i n) (load_bytes (m @ r) i n)" "defined_alike (load8 m i) (load8 (m @ r) i)"
    "defined_alike (load16 m i) (load16 (m @ r) i)" "defined_alike (load32 m i) (load32 (m @ r) i)"
    using * by (auto simp: defined_alike_def load8_def load16_def load32_def)
qed

lemma longer_sum_words [longer_rules]: "defined_alike (sum_words m i n acc) (sum_words (m @ r) i n acc)"
  by (induction n arbitrary: i acc) (simp_all add: longer_rules)

lemma longer_is_valid: "defined_alike (is_valid_packet (Frame_new n m)) (is_valid_packet (Frame_new n (m @ r)))"
  by (simp only: is_valid_packet_def udp_ok_def icmp_ok_def check_sum_ip_def Let_def Frame_new_def frame.select_convs)
    (intro longer_rules)

lemma processFrame_buffer:
  assumes "is_valid_packet (Frame_new n m) \<noteq> None" "unat n = length m"
  shows "processFrame (Frame_new n (m @ r)) i s = processFrame (Frame_new n m) i s"
proof -
  obtain v where "is_valid_packet (Frame_new n m) = Some v" using assms(1) by auto
  moreover from this have "is_valid_packet (Frame_new n (m @ r)) = Some v"
    using longer_is_valid [of n m r] by (simp add: defined_alike_def)
  moreover have "load_bytes (m @ r) 0 (unat n) = load_bytes m 0 (unat n)"
    using assms(2) by (simp add: load_bytes_front)
  moreover have "frame_logged (Frame_new n (m @ r)) i s = frame_logged (Frame_new n m) i s"
    by (simp add: frame_logged_def Frame_new_def)
  moreover have "flength (Frame_new n x) = n" "fdata (Frame_new n x) = x" for x by (simp_all add: Frame_new_def)
  ultimately show ?thesis by (simp only: processFrame_def Let_def)
qed

section \<open>A probe over the framework\<close>

text \<open>One round in which no command of the user falls before the frame.\<close>

lemma quiet_round:
  assumes "gets b j msg ys" "can_send b" "msg = frame_header (of_nat (length d)) i @ d" "length d \<le> 1520"
    and "is_valid_packet (Frame_new (of_nat (length d)) d) \<noteq> None"
    and "processFrame (Frame_new (of_nat (length d)) d) j s = Some s'" "sent_frames s' = sent_frames s @ [(e, k)]"
    and "14 \<le> length e" "length e < 65532"
  shows "\<exists>b'. event_round node_handler (0 # sched, command, input, s) b = Inr (True, (sched, command, input, s'), b')
    \<and> wire b' = wire b @ frame_header (of_nat (length e)) k @ e \<and> pending (rx b') = ys"
proof -
  have le: "length d < 65532" using assms(4) by simp
  obtain m where b: "pending (rx b) = relayed j msg @ ys" "length (buffer b) = 1524"
    "cf_machine b = Some m" "0 \<le> j" "j < countOfInterfaces m" "j < 2147483648"
    using assms(1) by (auto simp: gets_def)
  have "pending (rx b) = frame_notice j d @ ys" using b(1) relayed_message [OF le, of j i] assms(3) by simp
  from event_round_frame [OF this b(2) assms(4) b(3-6), of node_handler "(0 # sched, command, input, s)"]
  obtain c mem where c: "event_round node_handler (0 # sched, command, input, s) b
      = and_then (run_of (node_handler (0 # sched, command, input, s) (Frame_new (of_nat (length d)) mem) j)) (\<lambda>(um', fs).
          and_then (send_frames fs c) (\<lambda>t. Inr (True, um', t)))"
    "take (length d) mem = d" "pending (rx c) = ys" "wire c = wire b" "tx c = tx b" by auto
  have "unat (of_nat (length d) :: u32) = length d" using le by (intro unat_of_nat_less) simp
  then have "processFrame (Frame_new (of_nat (length d)) mem) j s = Some s'"
    using processFrame_buffer [OF assms(5), of "drop (length d) mem"] c(2) assms(6) by (metis append_take_drop_id)
  then have h: "node_handler (0 # sched, command, input, s) (Frame_new (of_nat (length d)) mem) j
      = Some ((sched, command, input, s'), [(e, k)])"
    using assms(7) by (simp add: node_handler_def)
  have "can_send c" using assms(2) c(5) by (simp add: can_send_def)
  from sendFrame_message [OF this assms(8,9), of k]
  obtain t where t: "sendFrame (Frame_new (of_nat (length e)) e) k c = Inr (True, t)"
    "wire t = wire c @ frame_header (of_nat (length e)) k @ e" by metis
  moreover have "send_frames [(e, k)] c = Inr t" using t(1) by (simp add: Machine_sendFrame_def)
  moreover have "only_sent c t" using send_frames_only calculation(3) by blast
  ultimately show ?thesis using c h by (auto simp: only_sent_def)
qed

text \<open>
  C4: A probe over the framework. A node puts a probe on the overlay; the server passes the message on to
  the node that is its next hop. If the header's checksum loses no carry, one round of that node's event
  loop takes the frame, with the rest of the stream unread, and sends to the server one message: the
  probe to the same destination that this node would send itself, through its public interface.
\<close>

theorem probe_over_framework:
  assumes "wf_node s" "src_port s < 65536" "ip_to_mac s hop = Some peer" "hop \<noteq> ii_uint (ip_gateway s)"
    and "wf_node u" "src_port u < 65536" "\<not> double_carry (ip_sum_words 32 17 (if_ip (iface s ! 0)) dst)" "can_send a"
  shows "\<exists>s' d a' msg. send_udp_packet dst hop is_dsa s = Some s' \<and> sent_frames s' = sent_frames s @ [(d, 0)]
    \<and> sendFrame (Frame_new (of_nat (length d)) d) 0 a = Inr (True, a') \<and> wire a' = wire a @ msg
    \<and> (\<forall>b j ys. gets b j msg ys \<and> can_send b \<longrightarrow> (\<exists>u' b' e.
        event_round node_handler (0 # sched, command, input, u) b = Inr (True, (sched, command, input, u'), b')
        \<and> map_option sent_frames (send_udp_packet dst (ii_uint (ip_gateway u)) is_dsa u) = Some (sent_frames u @ [(e, 1)])
        \<and> sent_frames u' = sent_frames u @ [(e, 1)]
        \<and> wire b' = wire b @ frame_header 46 1 @ e \<and> pending (rx b') = ys))"
proof -
  have sp: "src_port s < 2147483647" "src_port u < 2147483647" using assms(2,6) by simp_all
  note p = probe_to_peer [OF assms(1) sp(1) assms(3,4)]
  let ?d = "probe_frame peer (if_mac (iface s ! 0)) (if_ip (iface s ! 0)) dst (word_of_int (src_port s)) (probe_port is_dsa)"
  let ?e = "probe_frame (gateway_mac u) (if_mac (iface u ! 1)) (if_ip (iface u ! 1)) dst (word_of_int (src_port u)) (probe_port is_dsa)"
  have len: "length ?d = 46" "length ?e = 46"
    using length_probe_frame p(3,4) length_gateway_mac [OF assms(5)] wf_node_iface(2) [OF assms(5), of 1] by simp_all
  obtain a' where a': "sendFrame (Frame_new (of_nat (length ?d)) ?d) 0 a = Inr (True, a')"
    "wire a' = wire a @ frame_header (of_nat (length ?d)) 0 @ ?d"
    by (rule sendFrame_message [OF assms(8), of ?d 0]) (simp_all add: len)
  have own: "send_udp_packet dst (ii_uint (ip_gateway u)) is_dsa u
      = Some (probe_sent u dst (ii_uint (ip_gateway u)) (gateway_mac u) is_dsa)"
    using assms(5) sp(2) by (intro send_udp_packet_eq) (simp_all add: hop_mac_def)
  have v: "is_valid_packet (Frame_new (of_nat (length ?d)) ?d) \<noteq> None"
    using probe_frame_valid [OF p(3,4)] by (simp add: len)
  have step: "\<exists>u' b'. event_round node_handler (0 # sched, command, input, u) b = Inr (True, (sched, command, input, u'), b')
      \<and> sent_frames u' = sent_frames u @ [(?e, 1)] \<and> wire b' = wire b @ frame_header 46 1 @ ?e \<and> pending (rx b') = ys"
    if "gets b j (frame_header (of_nat (length ?d)) 0 @ ?d) ys" "can_send b" for b j ys
  proof -
    obtain u' where u': "processFrame (Frame_new (of_nat (length ?d)) ?d) j u = Some u'" "sent_frames u' = sent_frames u @ [(?e, 1)]"
      using probe_at_peer [OF assms(5) p(3,4) sp(2), of "if_ip (iface s ! 0)" dst "word_of_int (src_port s)" is_dsa j] assms(7)
      by (auto simp: len)
    from quiet_round [OF that HOL.refl _ v u'(1,2)] len u'(2) show ?thesis by fastforce
  qed
  have own': "map_option sent_frames (send_udp_packet dst (ii_uint (ip_gateway u)) is_dsa u) = Some (sent_frames u @ [(?e, 1)])"
    using own by (simp add: probe_sent_def probe_bytes_frame hop_iface_def tick_def)
  show ?thesis
    by (rule exI [of _ "probe_sent s dst hop peer is_dsa"], rule exI [of _ ?d], rule exI [of _ a'],
        rule exI [of _ "frame_header (of_nat (length ?d)) 0 @ ?d"], intro conjI allI impI)
      (use p(1,2) a' step own' in blast)+
qed

theorem probe_over_framework_witness:
  "\<exists>d a' msg u' b' e. sendFrame (Frame_new (of_nat (length d)) d) 0 (sample_running []) = Inr (True, a')
    \<and> wire a' = wire (sample_running []) @ msg
    \<and> event_round node_handler ([0], ''ping'', [], sample_peer) (sample_running [Data (relayed 0 msg)])
        = Inr (True, ([], ''ping'', [], u'), b')
    \<and> sent_frames u' = [(e, 1)] \<and> wire b' = wire (sample_running []) @ frame_header 46 1 @ e"
proof -
  have c: "can_send (sample_running cs)" for cs by (simp add: sample_running_def can_send_def)
  have h: "src_port sample_node < 65536" "0x0A000002 \<noteq> ii_uint (ip_gateway sample_node)" "src_port sample_peer < 65536"
    "\<not> double_carry (ip_sum_words 32 17 (if_ip (iface sample_node ! 0)) 0x08080404)"
    using sample_no_carry by (simp_all add: sample_nodes)
  obtain s' d a' msg where d: "sendFrame (Frame_new (of_nat (length d)) d) 0 (sample_running []) = Inr (True, a')"
    "wire a' = wire (sample_running []) @ msg"
    and r: "\<forall>b j ys. gets b j msg ys \<and> can_send b \<longrightarrow> (\<exists>u' b' e.
        event_round node_handler ([0], ''ping'', [], sample_peer) b = Inr (True, ([], ''ping'', [], u'), b')
        \<and> map_option sent_frames (send_udp_packet 0x08080404 (ii_uint (ip_gateway sample_peer)) True sample_peer)
            = Some (sent_frames sample_peer @ [(e, 1)])
        \<and> sent_frames u' = sent_frames sample_peer @ [(e, 1)]
        \<and> wire b' = wire b @ frame_header 46 1 @ e \<and> pending (rx b') = ys)"
    using probe_over_framework [OF wf_sample_node h(1) sample_nodes(1) h(2) wf_sample_peer h(3,4) c [of "[]"], where is_dsa = True and sched = "[]" and command = "''ping''" and input = "[]"]
    by (elim exE conjE) (rule that; assumption)
  have g: "gets (sample_running [Data (relayed 0 msg)]) 0 msg []"
    by (simp add: gets_def sample_running_def described_machine_def sample_descriptions_def)
  have "wire (sample_running [Data (relayed 0 msg)]) = wire (sample_running [])"
    by (simp add: sample_running_def sample_cf_def)
  then obtain u' b' e where "event_round node_handler ([0], ''ping'', [], sample_peer) (sample_running [Data (relayed 0 msg)])
      = Inr (True, ([], ''ping'', [], u'), b')" "sent_frames u' = [(e, 1)]"
    "wire b' = wire (sample_running []) @ frame_header 46 1 @ e"
    using r [rule_format, OF conjI, OF g c] by (auto simp: sample_nodes)
  with d show ?thesis by blast
qed

end
