(* ===== verification/Paths.thy ===== *)
theory Paths
  imports Overlay
begin

text \<open>
  How announcements steer probes. A node announces the servers it reaches (sm.cpp: \<open>advertise_data\<close>);
  a peer takes the announcement (\<open>processFrame\<close>), learns the routes that are better than its own, puts
  them into force with its own \<open>advertise\<close> command, and from then on sends its \<open>dsa\<close> probes to those
  servers over the announcing node, which forwards them.
\<close>

section \<open>Learning from one peer\<close>

text \<open>Offers of one peer move a route to it exactly if one of them is better than the route.\<close>

context route_metric
begin

lemma fold_one_peer:
  assumes "\<forall>x\<in>set offers. ii_uint (fst x) = p"
  shows "ii_uint (fst (fold (route_step better) offers cur))
    = (if \<exists>x\<in>set offers. better (snd x) (snd cur) then p else ii_uint (fst cur))"
  using assms
proof (induction offers arbitrary: cur)
  case (Cons x offers)
  then show ?case by (cases "better (snd x) (snd cur)") (auto simp: route_step_def)
qed simp

end

lemma update_all_keeps:
  assumes "update_all rs s = Some s'"
  shows "ip_to_id s' = ip_to_id s \<and> src_port s' = src_port s \<and> ip_to_mac s' = ip_to_mac s \<and> sent_frames s' = sent_frames s"
  using assms
proof (induction rs arbitrary: s)
  case (Cons r rs)
  then obtain t where t: "update_learning_table (fst r) (snd r) s = Some t" "update_all rs t = Some s'"
    by (auto simp: update_all_def Option.bind_eq_Some_conv)
  have "ip_to_id t = ip_to_id s \<and> src_port t = src_port s \<and> ip_to_mac t = ip_to_mac s \<and> sent_frames t = sent_frames s"
    using t(1) by (auto simp: update_learning_table_def Let_def insert_into_server_infoes_def upd_server_def
        Option.bind_eq_Some_conv split: if_splits)
  then show ?case using Cons.IH [OF t(2)] by simp
qed (simp add: update_all_def)

lemma evolves_update_all [evolve]: "update_all rs s = Some s' \<Longrightarrow> evolves s s'"
  unfolding update_all_def by (rule evolves_foldM [of "\<lambda>r. update_learning_table (fst r) (snd r)"]) (simp_all add: evolves_update_learning)

lemma update_all_total:
  assumes "wf_servers s" "number_of_all_servers s + int (length rs) \<le> 1000"
  shows "\<exists>s'. update_all rs s = Some s'"
  using assms
proof (induction rs arbitrary: s)
  case (Cons r rs)
  obtain t where t: "update_learning_table (fst r) (snd r) s = Some t"
    using update_learning_table_defined [OF Cons.prems(1), of "fst r" "snd r"] Cons.prems(2) by auto
  moreover have "number_of_all_servers t \<le> number_of_all_servers s + 1"
    using t by (auto simp: update_learning_table_def Let_def insert_into_server_infoes_def
        Option.bind_eq_Some_conv split: if_splits)
  ultimately show ?case
    using Cons.IH [of t] Cons.prems wf_update_learning_table [OF t] by (simp add: update_all_def)
qed (simp add: update_all_def)

lemma learned_hop:
  assumes "update_all (map (received_offer p) sis) s = Some s'" "get_index_by_ip s a = i" "i \<noteq> - 1"
  shows "get_index_by_ip s' a = i"
    "ii_uint (ip_next_hop_rtt (learning_table (server_infoes s' i)))
      = (if \<exists>si\<in>set sis. ii_uint (si_ip si) = a \<and> si_rtt_time si < ri_rtt_time (learning_table (server_infoes s i))
         then p else ii_uint (ip_next_hop_rtt (learning_table (server_infoes s i))))"
proof -
  let ?rs = "offers_for a (map (received_offer p) sis)"
  note e = update_all_entry [OF assms]
  then show "get_index_by_ip s' a = i" ..
  have "map rtt_offer ?rs = map (\<lambda>si. (\<lparr>ii_uint = p, ii_str = ip_text p\<rparr>, si_rtt_time si)) (filter (\<lambda>si. ii_uint (si_ip si) = a) sis)"
    by (induction sis) (simp_all add: offers_for_def received_offer_def rtt_offer_def)
  then have o: "set (map rtt_offer ?rs)
      = (\<lambda>si. (\<lparr>ii_uint = p, ii_str = ip_text p\<rparr>, si_rtt_time si)) ` {si \<in> set sis. ii_uint (si_ip si) = a}"
    by simp
  have "\<forall>x\<in>set (map rtt_offer ?rs). ii_uint (fst x) = p" unfolding o by auto
  note h = rtt.fold_one_peer [OF this, of "rtt_route (learning_table (server_infoes s i))"]
  have "ii_uint (fst (rtt_route (learning_table (server_infoes s' i))))
      = (if \<exists>x\<in>set (map rtt_offer ?rs). snd x < snd (rtt_route (learning_table (server_infoes s i)))
         then p else ii_uint (fst (rtt_route (learning_table (server_infoes s i)))))"
    using e h by (simp only: fold_learn_routes)
  then show "ii_uint (ip_next_hop_rtt (learning_table (server_infoes s' i)))
      = (if \<exists>si\<in>set sis. ii_uint (si_ip si) = a \<and> si_rtt_time si < ri_rtt_time (learning_table (server_infoes s i))
         then p else ii_uint (ip_next_hop_rtt (learning_table (server_infoes s i))))"
    unfolding o by (auto simp: rtt_route_def)
qed

section \<open>The announcement at a peer\<close>

lemma announcement_udp_packet:
  "announcement_bytes s dst mac pay = udp_packet mac (if_mac (iface s ! 0)) (if_ip (iface s ! 0)) dst 5000 5000 pay"
  by (simp add: announcement_bytes_def udp_packet_def)

lemma announcement_processed:
  fixes a :: sm and b :: sm
  defines "src \<equiv> if_ip (iface a ! 0)" and "d \<equiv> announcement_bytes a 0xFFFFFFFF (replicate 6 255) (message_bytes (up_servers a))"
  assumes "wf_node a" "wf_node b" "number_of_all_servers b + int (length (up_servers a)) \<le> 1000"
    and "\<not> double_carry (ip_sum_words (of_nat (32 + 12 * length (up_servers a))) 17 src 0xFFFFFFFF)"
  obtains s where "update_all (map (received_offer src) (up_servers a)) (frame_logged (Frame_new (of_nat (length d)) d) i b) = Some s"
    "processFrame (Frame_new (of_nat (length d)) d) i b = Some (s\<lparr>ip_to_mac := (ip_to_mac s)(src \<mapsto> if_mac (iface a ! 0))\<rparr>)"
proof -
  let ?pay = "message_bytes (up_servers a)" and ?sh = "if_mac (iface a ! 0)" and ?dh = "replicate 6 255 :: u8 list"
  let ?fr = "Frame_new (of_nat (length d)) d" and ?rs = "map (received_offer src) (up_servers a)"
  have sh: "length ?sh = 6" using wf_node_iface(2) [OF assms(3), of 0] by simp
  have dh: "length ?dh = 6" by simp
  have d: "d = udp_packet ?dh ?sh src 0xFFFFFFFF 5000 5000 ?pay" by (simp add: d_def src_def announcement_udp_packet)
  have lp: "length ?pay \<le> 12004" using up_servers_bound [of a] assms(3) by (simp add: wf_node_def)
  have len: "length d = 42 + length ?pay" unfolding d by (rule length_udp_packet [OF dh sh])
  have u: "udp_frame (of_nat (length d)) d"
    unfolding len unfolding d by (rule udp_packet_udp [OF dh sh]) (use lp assms(6) in simp_all)
  note ld = udp_packet_loads [OF dh sh, of src "0xFFFFFFFF" 5000 5000 ?pay, folded d]
  have n: "sint (of_nat (length d) - of_nat UDP_SIZE :: u32) = int (length ?pay)"
  proof -
    have "(of_nat (length d) - of_nat UDP_SIZE :: u32) = of_nat (length ?pay)" unfolding len by (simp add: sizes)
    moreover have "sint (of_nat (length ?pay) :: u32) = int (length ?pay)"
      using lp unat_of_nat_less [of "length ?pay", where 'a = 32] by (intro sint_length) (simp_all del: length_message)
    ultimately show ?thesis by simp
  qed
  have w: "wf_servers (frame_logged ?fr i b)" "number_of_all_servers (frame_logged ?fr i b) = number_of_all_servers b"
    using assms(4) by (simp_all add: wf_node_def wf_servers_def frame_logged_def put_line_def tick_def)
  then obtain s where s: "update_all ?rs (frame_logged ?fr i b) = Some s"
    using update_all_total [OF w(1), of ?rs] assms(5) by auto
  have "processFrame ?fr i b = receive_advertise_data ?pay (int (length ?pay)) src (drop 6 d) (frame_logged ?fr i b)"
    using processFrame_udp [OF u, of i b] ld n by (simp add: process_udp_def Let_def sizes)
  also have "\<dots> = Some (s\<lparr>ip_to_mac := (ip_to_mac s)(src \<mapsto> take 6 (drop 6 d))\<rparr>)"
    using receive_loop_message [of "[]" 0 "int (length ?pay)" "up_servers a" src] s store_mac_eq [of "drop 6 d"] len
    by (simp add: receive_advertise_data_def)
  finally show thesis using that s ld(6) by simp
qed

section \<open>The route in force\<close>

definition better_offered :: "server_information list \<Rightarrow> u32 \<Rightarrow> sm \<Rightarrow> int \<Rightarrow> bool" where
  "better_offered sis a s i \<longleftrightarrow> (\<exists>si\<in>set sis. ii_uint (si_ip si) = a
     \<and> si_rtt_time si < ri_rtt_time (learning_table (server_infoes s i)))"

lemma advertise_command_eq:
  assumes "wf_node s" "3 \<le> pad s"
  obtains t where "run_command ''advertise'' input s = Some (input, t)"
    "ip_to_id t = ip_to_id s" "ip_to_mac t = ip_to_mac s" "src_port t = src_port s"
    "\<And>i. 0 \<le> i \<Longrightarrow> i < number_of_all_servers s \<Longrightarrow>
      ip_next_hop_rtt (forwarding_table (server_infoes t i)) = ip_next_hop_rtt (learning_table (server_infoes s i))"
proof (rule that)
  show "run_command ''advertise'' input s = Some (input, reset_learning_table (fill_forwarding_table (s\<lparr>sent_frames := sent_frames s @
      [(announcement_bytes s 0xFFFFFFFF (replicate 6 255) (message_bytes (up_servers s)), 0)]\<rparr>)))"
    using advertise_data_eq [OF assms] by (simp add: run_command_def)
qed (simp_all add: reset_learning_table_def fill_forwarding_table_def for_servers_eq forwarded_def reset_entry_def)

text \<open>A \<open>dsa\<close> command to a configured server whose route leads to a known peer.\<close>

lemma dsa_to_peer:
  assumes "wf_node s" "src_port s < 2147483647" "0 \<le> k" "k < number_of_all_servers s"
    and "ii_str (si_ip (server_infoes s k)) = x" "ip_to_id s (ip_into_uint x) = Some k"
    and "ii_uint (ip_next_hop_rtt (forwarding_table (server_infoes s k))) = p" "p \<noteq> ii_uint (ip_gateway s)"
    and "ip_to_mac s p = Some mac"
  obtains t where "run_command ''dsa'' (x # input) s = Some (input, t)"
    "sent_frames t = sent_frames s @ [(probe_frame mac (if_mac (iface s ! 0)) (if_ip (iface s ! 0)) (ip_into_uint x)
       (word_of_int (src_port s)) 1000, 0)]"
proof -
  let ?hop = "ip_next_hop_rtt (forwarding_table (server_infoes s k))"
  have "is_server_valid s x" using assms(3-5) by (auto simp: is_server_valid_def list_ex_iff)
  moreover have "send_dsa_packet x s = Some (sent_line ''DSA'' x (ii_str ?hop) (probe_sent s (ip_into_uint x) p mac True))"
    using probe_to_peer(1) [OF assms(1,2,9,8)] assms(6,7) by (simp add: send_dsa_packet_def id_of_def)
  ultimately have "run_command ''dsa'' (x # input) s
      = Some (input, sent_line ''DSA'' x (ii_str ?hop) (probe_sent s (ip_into_uint x) p mac True))"
    by (simp add: run_command_def)
  then show thesis
    by (rule that) (simp add: sent_line_def put_line_def probe_to_peer(2) [OF assms(1,2,9,8)] probe_port_def)
qed

section \<open>Properties\<close>

text \<open>
  C2: The overlay finds the faster way. A node \<open>a\<close> announces the servers it reaches; a node \<open>b\<close> takes the
  announcement and then executes \<open>advertise\<close>. From then on the route of \<open>b\<close> to a configured server \<open>x\<close>
  leads over \<open>a\<close> if \<open>a\<close> announced a shorter round-trip time to \<open>x\<close> than \<open>b\<close> had learned, and is the learned
  one otherwise. In the first case the next \<open>dsa\<close> command for \<open>x\<close> sends the probe to \<open>a\<close>, and \<open>a\<close>, whatever
  it has done since, sends it on to \<open>x\<close> from its public address through its gateway. The two checksums
  must lose no carry, and the server table of \<open>b\<close> must have room for what it learns.
\<close>

theorem announced_route_used:
  assumes "wf_node a" "3 \<le> pad a" "advertise_data a = Some a1" "sent_frames a1 = sent_frames a @ [(d, 0)]"
    and "\<not> double_carry (ip_sum_words (of_nat (32 + 12 * length (up_servers a))) 17 (if_ip (iface a ! 0)) 0xFFFFFFFF)"
    and "wf_node b" "3 \<le> pad b" "src_port b < 65536" "number_of_all_servers b + int (length (up_servers a)) \<le> 1000"
    and "if_ip (iface a ! 0) \<noteq> ii_uint (ip_gateway b)"
    and "get_index_by_ip b (ip_into_uint x) = k" "k \<noteq> - 1" "ip_to_id b (ip_into_uint x) = Some k" "ii_str (si_ip (server_infoes b k)) = x"
  shows "\<exists>b1 b2. processFrame (Frame_new (of_nat (length d)) d) i b = Some b1
    \<and> run_command ''advertise'' input b1 = Some (input, b2)
    \<and> ii_uint (ip_next_hop_rtt (forwarding_table (server_infoes b2 k)))
        = (if better_offered (up_servers a) (ip_into_uint x) b k then if_ip (iface a ! 0)
           else ii_uint (ip_next_hop_rtt (learning_table (server_infoes b k))))
    \<and> (better_offered (up_servers a) (ip_into_uint x) b k \<longrightarrow>
        (\<exists>b3 m. run_command ''dsa'' (x # input) b2 = Some (input, b3) \<and> sent_frames b3 = sent_frames b2 @ [(m, 0)]
          \<and> load_bytes m 0 12 = Some (if_mac (iface a ! 0) @ if_mac (iface b ! 0))
          \<and> (\<forall>a2 j. node_steps a1 a2 \<longrightarrow> src_port a2 < 65536 \<longrightarrow>
               \<not> double_carry (ip_sum_words 32 17 (if_ip (iface b ! 0)) (ip_into_uint x)) \<longrightarrow>
               (\<exists>a3. processFrame (Frame_new 46 m) j a2 = Some a3 \<and> sent_frames a3 = sent_frames a2 @
                  [(eth_bytes (gateway_mac a) (if_mac (iface a ! 1)) @ ip_packet 32 17 (if_ip (iface a ! 1)) (ip_into_uint x)
                    @ udp_bytes (word_of_int (src_port a2)) 1000 12 @ [0x12, 0x34, 0x56, 0x78], 1)]))))"
proof -
  let ?p = "if_ip (iface a ! 0)" and ?mac = "if_mac (iface a ! 0)" and ?x = "ip_into_uint x"
  let ?better = "better_offered (up_servers a) ?x b k"
  let ?d = "announcement_bytes a 0xFFFFFFFF (replicate 6 255) (message_bytes (up_servers a))"
  have d: "d = ?d" using advertise_data_eq [OF assms(1,2)] assms(3,4) by auto
  let ?l = "frame_logged (Frame_new (of_nat (length ?d)) ?d) i b"
  obtain s where s: "update_all (map (received_offer ?p) (up_servers a)) ?l = Some s"
    "processFrame (Frame_new (of_nat (length ?d)) ?d) i b = Some (s\<lparr>ip_to_mac := (ip_to_mac s)(?p \<mapsto> ?mac)\<rparr>)"
    by (rule announcement_processed [OF assms(1,6,9,5), of i])
  let ?b1 = "s\<lparr>ip_to_mac := (ip_to_mac s)(?p \<mapsto> ?mac)\<rparr>"
  have si: "server_infoes ?l = server_infoes b" "get_index_by_ip ?l ?x = k" "ip_to_id ?l = ip_to_id b"
    using assms(11) by (simp_all add: frame_logged_def put_line_def tick_def get_index_by_ip_def)
  have hop: "ii_uint (ip_next_hop_rtt (learning_table (server_infoes ?b1 k)))
      = (if ?better then ?p else ii_uint (ip_next_hop_rtt (learning_table (server_infoes b k))))"
    using learned_hop(2) [OF s(1) si(2) assms(12)] unfolding si(1) better_offered_def by simp
  have keep: "ip_to_id ?b1 = ip_to_id b" "src_port ?b1 = src_port b"
    using update_all_keeps [OF s(1)] by (simp_all add: si(3))
  have ev1: "evolves b ?b1" by (rule evolves_processFrame [OF s(2)])
  then have b1: "wf_node ?b1" "3 \<le> pad ?b1" using assms(6,7) by (simp_all add: evolves_def node_config_def)
  have k: "0 \<le> k \<and> k < number_of_all_servers b"
    by (rule get_index_cases [of b ?x]) (use assms(11,12) in auto)
  then have k: "0 \<le> k" "k < number_of_all_servers b" by simp_all
  then have k1: "k < number_of_all_servers ?b1" using ev1 by (simp add: evolves_def)
  obtain b2 where b2: "run_command ''advertise'' input ?b1 = Some (input, b2)" "ip_to_id b2 = ip_to_id ?b1"
    "ip_to_mac b2 = ip_to_mac ?b1" "src_port b2 = src_port ?b1"
    "ip_next_hop_rtt (forwarding_table (server_infoes b2 k)) = ip_next_hop_rtt (learning_table (server_infoes ?b1 k))"
    using advertise_command_eq [OF b1, of input] k(1) k1 by metis
  have ev: "evolves b b2" using ev1 b2(1) by (blast intro: evolves_trans evolve)
  then have cfg: "wf_node b2" "iface b2 = iface b" "ip_gateway b2 = ip_gateway b" "k < number_of_all_servers b2"
    "ii_str (si_ip (server_infoes b2 k)) = x"
    using assms(6,14) k by (auto simp: evolves_def node_config_def server_addr_def)
  have "\<exists>b3 m. run_command ''dsa'' (x # input) b2 = Some (input, b3) \<and> sent_frames b3 = sent_frames b2 @ [(m, 0)]
      \<and> m = probe_frame ?mac (if_mac (iface b ! 0)) (if_ip (iface b ! 0)) ?x (word_of_int (src_port b2)) (probe_port True)"
    if ?better
  proof -
    have p: "src_port b2 < 2147483647" "ip_to_id b2 ?x = Some k" "ip_to_mac b2 ?p = Some ?mac"
      "ii_uint (ip_next_hop_rtt (forwarding_table (server_infoes b2 k))) = ?p" "?p \<noteq> ii_uint (ip_gateway b2)"
      using assms(8,10,13) b2(2-5) keep hop that cfg(3) by simp_all
    show ?thesis
      using dsa_to_peer [OF cfg(1) p(1) k(1) cfg(4,5) p(2,4,5,3), of input] cfg(2) by (auto simp: probe_port_def)
  qed
  moreover have "load_bytes (probe_frame ?mac (if_mac (iface b ! 0)) (if_ip (iface b ! 0)) ?x q port) 0 12
      = Some (?mac @ if_mac (iface b ! 0))" for q port
    using wf_node_iface(2) [OF assms(1), of 0] wf_node_iface(2) [OF assms(6), of 0] by (simp add: probe_frame_bytes load_bytes_def)
  moreover have "\<exists>a3. processFrame (Frame_new 46 (probe_frame ?mac (if_mac (iface b ! 0)) (if_ip (iface b ! 0)) ?x q (probe_port True))) j a2 = Some a3
      \<and> sent_frames a3 = sent_frames a2 @ [(eth_bytes (gateway_mac a) (if_mac (iface a ! 1))
          @ ip_packet 32 17 (if_ip (iface a ! 1)) ?x @ udp_bytes (word_of_int (src_port a2)) 1000 12 @ [0x12, 0x34, 0x56, 0x78], 1)]"
    if "node_steps a1 a2" "src_port a2 < 65536" "\<not> double_carry (ip_sum_words 32 17 (if_ip (iface b ! 0)) ?x)" for a2 j q
  proof -
    have "evolves a a2" using evolves_advertise [OF assms(3)] node_steps_evolves [OF that(1)] evolves_trans by blast
    then have a2: "wf_node a2" "iface a2 = iface a" "gateway_mac a2 = gateway_mac a"
      using assms(1) by (simp_all add: evolves_def node_config_def gateway_mac_def)
    have m: "length ?mac = 6" "length (if_mac (iface b ! 0)) = 6" "src_port a2 < 2147483647"
      using wf_node_iface(2) [OF assms(1), of 0] wf_node_iface(2) [OF assms(6), of 0] that(2) by simp_all
    show ?thesis
      using probe_at_peer [OF a2(1) m, of "if_ip (iface b ! 0)" ?x q True j] that(3) a2(2,3)
      by (auto simp: probe_frame_def probe_port_def probe_payload_def)
  qed
  ultimately show ?thesis
    unfolding d using s(2) b2(1,5) hop by (intro exI [of _ ?b1] exI [of _ b2]) fastforce
qed

text \<open>The sample node announces 8.8.4.4 at 20 ms to a peer that has learned a route of 100 ms.\<close>

definition slow_peer :: sm where
  "slow_peer = upd_server 0 (\<lambda>si. si\<lparr>learning_table := (learning_table si)\<lparr>ri_rtt_time := 100\<rparr>\<rparr>) sample_peer"

theorem announced_route_used_witness:
  "\<exists>a1 d b1 b2 b3 m a3. advertise_data sample_node = Some a1 \<and> sent_frames a1 = [(d, 0)]
    \<and> processFrame (Frame_new (of_nat (length d)) d) 0 slow_peer = Some b1
    \<and> run_command ''advertise'' [] b1 = Some ([], b2) \<and> run_command ''dsa'' [''8.8.4.4''] b2 = Some ([], b3)
    \<and> sent_frames b3 = sent_frames b2 @ [(m, 0)] \<and> processFrame (Frame_new 46 m) 0 a1 = Some a3
    \<and> map snd (sent_frames a3) = [0, 1]"
proof -
  obtain a1 d where a1: "advertise_data sample_node = Some a1" "sent_frames a1 = sent_frames sample_node @ [(d, 0)]"
    "src_port a1 = 8000"
    using advertise_data_eq [OF wf_sample_node] by (auto simp: sample_nodes)
  have up: "up_servers sample_node = [sample_server]" by (simp add: up_servers_def) (simp add: sample_server_def)
  have x: "ip_into_uint ''8.8.4.4'' = 0x08080404" by code_simp
  have b: "wf_node slow_peer" "3 \<le> pad slow_peer" "src_port slow_peer < 65536"
    using wf_sample_peer by (simp_all add: slow_peer_def wf_node_def upd_server_def sample_peer_def wf_servers_def)
  have n: "number_of_all_servers slow_peer = 1" "ip_gateway slow_peer = ip_gateway sample_node"
    "ip_to_id slow_peer 0x08080404 = Some 0" "iface slow_peer ! 0 = (sample_ifaces ! 0)\<lparr>if_mac := [2, 0, 0, 0, 0, 3], if_ip := 0x0A000002\<rparr>"
    "si_ip (server_infoes slow_peer 0) = \<lparr>ii_uint = 0x08080404, ii_str = ''8.8.4.4''\<rparr>"
    "ri_rtt_time (learning_table (server_infoes slow_peer 0)) = 100"
    by (simp_all add: slow_peer_def sample_peer_def upd_server_def sample_node_def sm_start_def sample_server_def)
  have g: "get_index_by_ip slow_peer 0x08080404 = 0"
    by (rule get_index_eqI) (use n in simp_all)
  have better: "better_offered [sample_server] 0x08080404 slow_peer 0"
    by (simp add: better_offered_def n(6)) (simp add: sample_server_def)
  have c: "\<not> double_carry (ip_sum_words (of_nat (32 + 12 * length [sample_server])) 17 0x0A000001 0xFFFFFFFF)"
    "\<not> double_carry (ip_sum_words 32 17 0x0A000002 0x08080404)" by code_simp+
  have ifs: "if_ip (iface sample_node ! 0) = 0x0A000001" "if_ip (iface slow_peer ! 0) = 0x0A000002"
    by (simp_all add: sample_nodes n(4))
  have gw: "0x0A000001 \<noteq> ii_uint (ip_gateway slow_peer)" by (simp add: n(2) sample_nodes)
  have "\<exists>b1 b2 b3 m a3. processFrame (Frame_new (of_nat (length d)) d) 0 slow_peer = Some b1
    \<and> run_command ''advertise'' [] b1 = Some ([], b2) \<and> run_command ''dsa'' [''8.8.4.4''] b2 = Some ([], b3)
    \<and> sent_frames b3 = sent_frames b2 @ [(m, 0)] \<and> processFrame (Frame_new 46 m) 0 a1 = Some a3
    \<and> map snd (sent_frames a3) = [0, 1]"
    using announced_route_used [OF wf_sample_node _ a1(1,2) _ b _ _ _ _ _ _, of "''8.8.4.4''" 0 0 "[]"]
      c better gw g n(1,3,5) a1(2,3) node_steps.refl [of a1] unfolding up ifs x
    by fastforce
  then show ?thesis using a1(1,2) by auto
qed

end
