(* ===== verification/Tables.thy ===== *)
theory Tables
  imports Node
begin

text \<open>
  The server table over the life of a node (sm.cpp): no operation but a ping touches the sequence numbers
  and the sending times of its entries, and the addresses in it always agree with their texts. The
  relation \<open>tracked\<close> adds both to \<open>evolves\<close>; \<open>quiet_step\<close> are the steps of the node other than a ping.
\<close>

section \<open>Steps without a ping\<close>

inductive quiet_step :: "sm \<Rightarrow> sm \<Rightarrow> bool" where
  command: "command \<noteq> ''ping'' \<Longrightarrow> run_command command input s = Some (input', s') \<Longrightarrow> quiet_step s s'"
| frame: "processFrame fr i s = Some s' \<Longrightarrow> quiet_step s s'"

inductive quiet_steps :: "sm \<Rightarrow> sm \<Rightarrow> bool" where
  refl: "quiet_steps s s"
| step: "quiet_steps s s' \<Longrightarrow> quiet_step s' s'' \<Longrightarrow> quiet_steps s s''"

lemma quiet_steps_node_steps: "quiet_steps s s' \<Longrightarrow> node_steps s s'"
proof (induction rule: quiet_steps.induct)
  case (step s s' s'')
  from step(2) have "node_step s' s''" by (cases rule: quiet_step.cases) (auto intro: node_step.intros)
  with step(3) show ?case by (rule node_steps.step)
qed (rule node_steps.refl)

section \<open>What the operations keep of the table\<close>

definition text_ok :: "server_information \<Rightarrow> bool" where
  "text_ok si \<longleftrightarrow> ip_into_uint (ii_str (si_ip si)) = ii_uint (si_ip si)"

definition texts_ok :: "sm \<Rightarrow> bool" where
  "texts_ok s \<longleftrightarrow> (\<forall>i. 0 \<le> i \<and> i < number_of_all_servers s \<longrightarrow> text_ok (server_infoes s i))"

definition stamp :: "server_information \<Rightarrow> u16 \<times> int" where
  "stamp si = (sequence_id si, ping_send_time si)"

definition tracked :: "sm \<Rightarrow> sm \<Rightarrow> bool" where
  "tracked s s' \<longleftrightarrow> evolves s s' \<and> clock s' = clock s
     \<and> (\<forall>i. 0 \<le> i \<and> i < number_of_all_servers s \<longrightarrow> stamp (server_infoes s' i) = stamp (server_infoes s i))
     \<and> (wf_node s \<longrightarrow> texts_ok s \<longrightarrow> texts_ok s')"

lemma tracked_refl: "tracked s s"
  by (simp add: tracked_def evolves_refl)

lemma tracked_trans:
  assumes "tracked s t" "tracked t u"
  shows "tracked s u"
proof -
  have "evolves s u" using assms evolves_trans by (auto simp: tracked_def)
  moreover have "wf_node t" if "wf_node s" using assms(1) that by (simp add: tracked_def evolves_def)
  moreover have "number_of_all_servers s \<le> number_of_all_servers t" using assms(1) by (simp add: tracked_def evolves_def)
  ultimately show ?thesis using assms by (auto simp: tracked_def)
qed

lemma tracked_foldM:
  assumes "foldM f is u = Some s'" "tracked s u"
    and "\<And>i t t'. i \<in> set is \<Longrightarrow> tracked s t \<Longrightarrow> f i t = Some t' \<Longrightarrow> tracked t t'"
  shows "tracked s s'"
  using assms
proof (induction "is" arbitrary: u)
  case (Cons i "is")
  then obtain t where t: "f i u = Some t" "foldM f is t = Some s'" by (auto simp: Option.bind_eq_Some_conv)
  have "tracked s t" using Cons.prems(3) [OF _ Cons.prems(2) t(1)] tracked_trans [OF Cons.prems(2)] by simp
  moreover have "tracked v v'" if "j \<in> set is" "tracked s v" "f j v = Some v'" for j v v'
    using Cons.prems(3) [OF _ that(2,3)] that(1) by simp
  ultimately show ?case by (rule Cons.IH [OF t(2)])
qed simp

definition same_table :: "sm \<Rightarrow> sm \<Rightarrow> bool" where
  "same_table s t \<longleftrightarrow> server_infoes t = server_infoes s \<and> number_of_all_servers t = number_of_all_servers s
     \<and> clock t = clock s"

lemma same_table_refl: "same_table s s"
  by (simp add: same_table_def)

lemma same_table_trans: "same_table s t \<Longrightarrow> same_table t u \<Longrightarrow> same_table s u"
  by (simp add: same_table_def)

lemma tracked_same: "evolves s t \<Longrightarrow> same_table s t \<Longrightarrow> tracked s t"
  by (simp add: tracked_def same_table_def texts_ok_def)

lemma same_table_fields:
  "same_table s (put_line l s)" "same_table s (tick s)" "same_table s (frame_logged fr i s)"
  by (simp_all add: same_table_def put_line_def tick_def frame_logged_def)

lemma same_table_send_frame: "send_frame fr i s = Some t \<Longrightarrow> same_table s t"
  by (auto simp: same_table_def send_frame_def Option.bind_eq_Some_conv)

lemma same_table_alloc: "alloc_port e s = Some (q, t) \<Longrightarrow> same_table s t"
  by (auto simp: same_table_def alloc_port_def Let_def Option.bind_eq_Some_conv split: option.splits)

lemma same_table_store_mac: "store_mac_addr_to_map a mac s = Some t \<Longrightarrow> same_table s t"
  by (auto simp: same_table_def store_mac_addr_to_map_def Option.bind_eq_Some_conv)

lemma same_table_id_of: "id_of a s = (j, t) \<Longrightarrow> same_table s t"
  by (auto simp: same_table_def id_of_def split: option.splits)

lemma same_table_report: "same_but_console s t \<Longrightarrow> same_table s t"
  by (auto simp: same_table_def same_but_console_def)

lemma same_table_probe_answered:
  assumes "probe_answered d port s = Some t"
  shows "same_table s t"
proof -
  define v where "v = (tick s)\<lparr>sent_times := (sent_times s)(port \<mapsto> case sent_times s port of Some x \<Rightarrow> x | None \<Rightarrow> 0)\<rparr>"
  have "t = v \<or> (\<exists>l. t = put_line l v)"
    using assms by (auto simp: probe_answered_def Let_def Option.bind_eq_Some_conv tick_def v_def split: if_splits)
  moreover have "same_table s v" by (simp add: v_def tick_def same_table_def)
  ultimately show ?thesis using same_table_trans same_table_fields(1) by blast
qed

lemma same_table_probe_finish:
  assumes "probe_finish hop d s = Some t"
  shows "same_table s t"
proof -
  obtain fr i u where u: "send_frame fr i s = Some u" "t = tick (u\<lparr>sent_times := (sent_times u)(word_of_int (src_port u - 1) \<mapsto> now u)\<rparr>)"
    using assms by (auto simp: probe_finish_def Option.bind_eq_Some_conv split: if_splits)
  have "same_table u t" by (simp add: u(2) same_table_def tick_def)
  then show ?thesis using same_table_send_frame [OF u(1)] same_table_trans by blast
qed

lemma same_table_send_udp:
  assumes "send_udp_packet ip_dst hop is_dsa s = Some t"
  shows "same_table s t"
proof -
  obtain d q d' u where "alloc_port None s = Some (q, u)" "probe_finish hop d' u = Some t"
    using assms by (auto simp: send_udp_packet_def take_port_def Option.bind_eq_Some_conv)
  then show ?thesis using same_table_alloc same_table_probe_finish same_table_trans by blast
qed

lemma same_table_forward_out:
  assumes "forward_out n d port s = Some s'"
  shows "same_table s s'"
proof -
  obtain e q t fr u l where "alloc_port e s = Some (q, t)" "send_frame fr 1 t = Some u" "s' = put_line l u"
    using assms by (auto simp: forward_out_def Option.bind_eq_Some_conv)
  then show ?thesis using same_table_alloc same_table_send_frame same_table_fields(1) same_table_trans by metis
qed

lemma same_table_forward_back:
  assumes "forward_back n d port owner_ip s = Some s'"
  shows "same_table s s'"
proof -
  let ?s = "s\<lparr>my_port_to_src_port := (my_port_to_src_port s)
     (port \<mapsto> case my_port_to_src_port s port of Some p \<Rightarrow> p | None \<Rightarrow> 0)\<rparr>"
  obtain fr t where t: "send_frame fr 0 ?s = Some t" "s' = t \<or> (\<exists>l. s' = put_line l t)"
    using assms by (auto simp: forward_back_def Let_def Option.bind_eq_Some_conv split: if_splits)
  have "same_table s ?s" by (simp add: same_table_def)
  from same_table_trans [OF this same_table_send_frame [OF t(1)]] have "same_table s t" .
  then show ?thesis using t(2) same_table_trans [OF _ same_table_fields(1)] by blast
qed

lemma same_table_send_probe:
  "send_dsa_packet x s = Some t \<Longrightarrow> same_table s t" "send_lsa_packet x s = Some t \<Longrightarrow> same_table s t"
proof -
  have *: "same_table s t" if "id_of a s = (i, u)" "send_udp_packet b h d u = Some v" "t = sent_line k b' h' v"
    for i u v a b h d k b' h'
    using same_table_trans [OF same_table_id_of [OF that(1)] same_table_send_udp [OF that(2)]] that(3)
    by (simp add: sent_line_def same_table_def put_line_def)
  show "same_table s t" if "send_dsa_packet x s = Some t"
    using that * by (fastforce simp: send_dsa_packet_def Let_def Option.bind_eq_Some_conv split: prod.splits)
  show "same_table s t" if "send_lsa_packet x s = Some t"
    using that * by (fastforce simp: send_lsa_packet_def Let_def Option.bind_eq_Some_conv split: prod.splits)
qed

lemma same_table_advertise: "advertise_data s = Some t \<Longrightarrow> same_table s t"
  by (auto simp: advertise_data_def send_advertise_packet_def Option.bind_eq_Some_conv dest: same_table_send_frame)

lemma tracked_update_server:
  assumes "\<And>si. si_ip (f si) = si_ip si" "\<And>si. stamp (f si) = stamp si"
  shows "tracked s (upd_server i f s)"
  using assms evolves_upd_server [of f s i] by (auto simp: tracked_def texts_ok_def text_ok_def upd_server_def)

lemma tracked_for_servers:
  assumes "\<And>si. si_ip (f si) = si_ip si" "\<And>si. stamp (f si) = stamp si"
  shows "tracked s (for_servers n f s)"
  using assms evolves_for_servers [of f s n] by (auto simp: tracked_def texts_ok_def text_ok_def for_servers_eq)

lemma stamp_learn [simp]: "stamp (learn info ip si) = stamp si"
  by (simp add: stamp_def learn_def)

lemma tracked_update_learning:
  assumes "update_learning_table info ip s = Some t" "wf_node s \<longrightarrow> texts_ok s \<longrightarrow> text_ok info"
  shows "tracked s t"
proof (cases "get_index_by_ip s (ii_uint (si_ip info)) = - 1")
  case False
  then have "t = upd_server (get_index_by_ip s (ii_uint (si_ip info))) (learn info ip) s"
    using assms(1) update_learning_table_known by simp
  then show ?thesis by (simp add: tracked_update_server)
next
  case True
  then have t: "t = upd_server (number_of_all_servers s) (learn info ip)
      ((upd_server (number_of_all_servers s) (inserted_server info) s)
        \<lparr>number_of_all_servers := number_of_all_servers s + 1\<rparr>)"
    using assms(1) by (auto simp: update_learning_table_def insert_into_server_infoes_def split: if_splits)
  have "text_ok (learn info ip (inserted_server info si)) \<longleftrightarrow> text_ok info" for si
    by (simp add: text_ok_def inserted_server_def)
  then have "texts_ok t" if "texts_ok s" "text_ok info"
    using that by (auto simp: texts_ok_def t)
  then show ?thesis using assms evolves_update_learning [OF assms(1)] by (auto simp: tracked_def t upd_server_def)
qed

section \<open>The steps\<close>

lemma tracked_receive_loop: "receive_loop m n ip_src i s = Some s' \<Longrightarrow> tracked s s'"
proof (induction m n ip_src i s rule: receive_loop.induct)
  case (1 m n ip_src i s)
  show ?case
  proof (cases "int i < n - 4")
    case True
    then obtain t where t: "take_offer m ip_src i s = Some t" "receive_loop m n ip_src (i + 12) t = Some s'"
      using "1.prems" by (auto simp: receive_loop.simps [of m n ip_src i] Option.bind_eq_Some_conv)
    then obtain r where r: "read_offer m i ip_src = Some r" "update_learning_table (fst r) (snd r) s = Some t"
      by (auto simp: take_offer_def Option.bind_eq_Some_conv)
    have "text_ok (fst r)"
      using r(1) by (auto simp: read_offer_def text_ok_def Option.bind_eq_Some_conv ipUint_into_str_eq ip_into_uint_octets [simplified])
    then have "tracked s t" using tracked_update_learning [OF r(2)] by simp
    then show ?thesis using "1.IH" [OF True t] tracked_trans by blast
  next
    case False
    then show ?thesis using "1.prems" tracked_refl by (simp add: receive_loop.simps [of m n ip_src i])
  qed
qed

lemma tracked_receive_advertise:
  "receive_advertise_data m n ip_src mac s = Some s' \<Longrightarrow> tracked s s'"
  using tracked_receive_loop tracked_same [OF evolves_store_mac same_table_store_mac]
  by (fastforce simp: receive_advertise_data_def Option.bind_eq_Some_conv intro: tracked_trans)

lemma ping_answered_stamp: "stamp (ping_answered t si) = stamp si"
  by (simp add: stamp_def ping_answered_def Let_def)

lemma tracked_receive_ping:
  assumes "receive_ping_packet ip t seq s = Some s'"
  shows "tracked s s'"
proof (rule tracked_foldM)
  show "foldM (receive_ping_entry ip t seq) [0..number_of_servers s - 1] s = Some s'"
    using assms by (simp add: receive_ping_packet_def)
  fix i u v
  assume i: "i \<in> set [0..number_of_servers s - 1]" and u: "tracked s u" and e: "receive_ping_entry ip t seq i u = Some v"
  let ?w = "upd_server i (ping_answered t) u"
  have w: "tracked u ?w" by (rule tracked_update_server) (simp_all add: ping_answered_fields ping_answered_stamp)
  have "number_of_servers u = number_of_servers s" using u by (simp add: tracked_def evolves_def node_config_def)
  then have "text_ok (server_infoes ?w i)" if "wf_node ?w" "texts_ok ?w"
    using i that by (auto simp: texts_ok_def wf_node_def wf_servers_def)
  then have "tracked ?w v" if "update_learning_table (server_infoes ?w i) (ip_gateway ?w) ?w = Some v"
    using tracked_update_learning [OF that] by blast
  then show "tracked u v" using e w tracked_trans tracked_refl by (auto simp: receive_ping_entry_def Let_def split: if_splits)
qed (rule tracked_refl)

lemma tracked_process_udp:
  assumes "process_udp n d s = Some s'"
  shows "tracked s s'"
proof -
  have "same_table s s' \<or> (\<exists>m k a mac. receive_advertise_data m k a mac s = Some s')"
    using assms by (auto simp: process_udp_def Let_def Option.bind_eq_Some_conv split: if_splits option.splits
        intro: same_table_refl same_table_forward_out same_table_forward_back same_table_probe_answered)
  then show ?thesis
    using tracked_same [OF evolves_process_udp [OF assms]] tracked_receive_advertise by blast
qed

lemma tracked_processFrame:
  assumes "processFrame fr i s = Some s'"
  shows "tracked s s'"
proof -
  let ?s = "frame_logged fr i s"
  have "s' = ?s \<or> (\<exists>ip t seq. receive_ping_packet ip t seq ?s = Some s') \<or> (\<exists>n d. process_udp n d ?s = Some s')"
    using assms by (auto simp: processFrame_def Let_def Option.bind_eq_Some_conv split: if_splits)
  moreover have "evolves s ?s"
    unfolding frame_logged_def by (rule evolves_trans [OF evolves_fields(2,1)])
  then have "tracked s ?s" by (rule tracked_same) (rule same_table_fields)
  ultimately show ?thesis
    using tracked_trans tracked_receive_ping tracked_process_udp by metis
qed

lemma tracked_run_command:
  assumes "run_command command input s = Some (input', s')" "command \<noteq> ''ping''"
  shows "tracked s s'"
proof -
  have "tracked t (fill_forwarding_table t)" "tracked t (reset_learning_table t)" for t
    unfolding fill_forwarding_table_def reset_learning_table_def
    by (rule tracked_for_servers; simp add: forwarded_def reset_entry_def stamp_def)+
  then have fill: "tracked t (reset_learning_table (fill_forwarding_table t))" for t
    using tracked_trans by blast
  have same: "same_table s s'" if "command \<noteq> ''advertise''"
    using assms that same_table_report [OF same_but_console_fold [OF lines_same(3)]]
      same_table_report [OF tables_same(1)] same_table_report [OF tables_same(2)] same_table_send_probe same_table_refl
    by (auto simp: run_command_def Let_def Option.bind_eq_Some_conv split: if_splits prod.splits)
  have "tracked s s'" if "command = ''advertise''"
  proof -
    have "run_command ''advertise'' input s = Some (input', s')" using assms(1) that by simp
    then obtain t where t: "advertise_data s = Some t" "s' = reset_learning_table (fill_forwarding_table t)"
      by (auto simp: run_command_def Option.bind_eq_Some_conv)
    then show ?thesis
      using tracked_trans [OF tracked_same [OF evolves_advertise same_table_advertise] fill] by blast
  qed
  then show ?thesis using same tracked_same [OF evolves_run_command [OF assms(1)]] by blast
qed

lemma tracked_quiet_step: "quiet_step s s' \<Longrightarrow> tracked s s'"
  by (cases rule: quiet_step.cases) (auto intro: tracked_processFrame tracked_run_command)

lemma tracked_quiet_steps: "quiet_steps s s' \<Longrightarrow> tracked s s'"
  by (induction rule: quiet_steps.induct) (auto intro: tracked_refl tracked_trans tracked_quiet_step)

text \<open>A ping changes the stamps, but no address.\<close>

lemma texts_ok_node_step:
  assumes "node_step s s'" "wf_node s" "texts_ok s"
  shows "texts_ok s'"
  using assms(1)
proof (cases rule: node_step.cases)
  case (command c input input')
  show ?thesis
  proof (cases "c = ''ping''")
    case True
    then obtain t where "run_command c input s = Some (input, t)" "evolves s t" "number_of_all_servers t = number_of_all_servers s"
      using ping_command [OF assms(2), of input] by auto
    then show ?thesis using assms(3) command by (auto simp: texts_ok_def text_ok_def evolves_def server_addr_def)
  next
    case False
    then show ?thesis using tracked_run_command [OF command] assms(2,3) by (simp add: tracked_def)
  qed
next
  case (frame fr i)
  then show ?thesis using tracked_processFrame assms(2,3) by (auto simp: tracked_def)
qed

lemma texts_ok_node_steps: "node_steps s s' \<Longrightarrow> wf_node s \<Longrightarrow> texts_ok s \<Longrightarrow> texts_ok s'"
proof (induction rule: node_steps.induct)
  case (step s s' s'')
  have "wf_node s'" using node_steps_evolves [OF step(1)] step(4) by (simp add: evolves_def)
  then show ?case using texts_ok_node_step [OF step(2)] step by blast
qed

section \<open>The table after initialize\<close>

lemma init_servers_tables:
  assumes "foldM init_server is (tmp, toks, s) = Some (tmp', toks', s')"
    and "\<forall>a i. ip_to_id s a = Some i \<longrightarrow> i \<in> A \<and> ii_uint (server_addr s i) = a" "\<forall>i\<in>A. text_ok (server_infoes s i)"
    and "distinct is" "A \<inter> set is = {}"
  shows "(\<forall>a i. ip_to_id s' a = Some i \<longrightarrow> i \<in> A \<union> set is \<and> ii_uint (server_addr s' i) = a)
    \<and> (\<forall>i\<in>A \<union> set is. text_ok (server_infoes s' i)) \<and> number_of_servers s' = number_of_servers s
    \<and> number_of_all_servers s' = number_of_all_servers s"
  using assms
proof (induction "is" arbitrary: tmp toks s A)
  case (Cons i "is")
  obtain x r where x: "next_token tmp toks = (x, r)" by fastforce
  let ?t = "(upd_server i (initial_entry (ip_gateway s) x) s)\<lparr>ip_to_id := (ip_to_id s)(ip_into_uint x \<mapsto> i)\<rparr>"
  obtain st where st: "init_server i (tmp, toks, s) = Some st" "foldM init_server is st = Some (tmp', toks', s')"
    using Cons.prems(1) by (auto simp: Option.bind_eq_Some_conv)
  have "st = (x, r, ?t)"
    using st(1) x by (auto simp: init_server_def initialize_server_information_def split: if_splits)
  then have f: "foldM init_server is (x, r, ?t) = Some (tmp', toks', s')" using st(2) by simp
  have "ip_to_id ?t a = Some j \<longrightarrow> j \<in> insert i A \<and> ii_uint (server_addr ?t j) = a" for a j
    using Cons.prems(2,5) by (auto simp: server_addr_def initial_entry_def Let_def)
  moreover have "\<forall>j\<in>insert i A. text_ok (server_infoes ?t j)"
    using Cons.prems(3) by (auto simp: text_ok_def initial_entry_def Let_def)
  ultimately show ?case using Cons.IH [OF f, of "insert i A"] Cons.prems(4,5) by simp
qed simp

lemma initialize_tables:
  assumes "initialize info (sm_start gap ifs junk clk) = Some s"
  shows "ids_ok s" "texts_ok s" "number_of_all_servers s = number_of_servers s"
proof -
  let ?s = "sm_start gap ifs junk clk"
  obtain n mac gw toks tmp' toks' where f: "foldM init_server [0..n - 1] ('''', toks, ?s\<lparr>number_of_servers := n,
      number_of_all_servers := n, ip_gateway := gw, mac_gateway := mac\<rparr>) = Some (tmp', toks', s)"
    using assms by (auto simp: initialize_def Option.bind_eq_Some_conv split: prod.splits)
  have "(\<forall>a i. ip_to_id s a = Some i \<longrightarrow> i \<in> {} \<union> set [0..n - 1] \<and> ii_uint (server_addr s i) = a)
    \<and> (\<forall>i\<in>{} \<union> set [0..n - 1]. text_ok (server_infoes s i)) \<and> number_of_servers s = n \<and> number_of_all_servers s = n"
    using init_servers_tables [OF f, of "{}"] by (simp add: sm_start_def)
  then show "ids_ok s" "texts_ok s" "number_of_all_servers s = number_of_servers s"
    by (auto simp: ids_ok_def texts_ok_def)
qed

end
