(* ===== verification/Pinging.thy ===== *)
theory Pinging
  imports Overlay Tables
begin

text \<open>
  A ping and its answer (sm.cpp: the \<open>ping\<close> command, \<open>send_icmp_packet\<close>, \<open>processFrame\<close>,
  \<open>receive_ping_packet\<close>): from the echo request the node puts on the public link to the figures it
  keeps of the server after the answer of a conforming server has come back.
\<close>

section \<open>The request and its answer\<close>

lemma ping_bytes_loads:
  assumes "wf_node s"
  shows "load32 (ping_bytes s si) 30 = Some (htonl (ii_uint (si_ip si)))"
    "load16 (ping_bytes s si) (offset_of Icmp_sequence_id) = Some (htons (sequence_id si))"
proof -
  have e: "be16 ETHERTYPE_IP = [8, 0]" by code_simp
  have b: "length (bytes32 v) = 4" "length (bytes16 w) = 2" for v w by (simp_all add: bytes32_def bytes16_def)
  show "load32 (ping_bytes s si) 30 = Some (htonl (ii_uint (si_ip si)))"
    "load16 (ping_bytes s si) (offset_of Icmp_sequence_id) = Some (htons (sequence_id si))"
    using length_gateway_mac [OF assms] wf_node_iface(2) [OF assms, of 1]
    by (simp_all add: load32_def load16_def load_bytes_def ping_bytes_def eth_bytes_def e ip_packet_def ip_bytes_def icmp_bytes_def b
        htons_be16 [symmetric] htonl_be32 [symmetric])
qed

text \<open>
  What a server answers to an echo request: a valid echo reply from the address asked, with the
  sequence number asked. Everything else is up to the server.
\<close>

definition echo_answer :: "u8 list \<Rightarrow> u8 list \<Rightarrow> bool" where
  "echo_answer m d \<longleftrightarrow> valid_frame d \<and> valid_echo_reply d \<and> 14 + 4 * ip_hl (d ! 14) \<le> length d \<and> length d < 2147483648
     \<and> load32 d (offset_of Ip_src) = load32 m (offset_of Ip_dst)
     \<and> load16 d (offset_of Icmp_sequence_id) = load16 m (offset_of Icmp_sequence_id)"

lemma processFrame_echo:
  assumes "valid_frame d" "valid_echo_reply d" "14 + 4 * ip_hl (d ! 14) \<le> length d" "length d < 2147483648"
    and "load32 d 26 = Some (htonl a)" "load16 d (offset_of Icmp_sequence_id) = Some (htons seq)"
  shows "processFrame (Frame_new (of_nat (length d)) d) j s
    = receive_ping_packet a (now s) seq (frame_logged (Frame_new (of_nat (length d)) d) j s)"
proof -
  have n: "unat (of_nat (length d) :: u32) = length d" using assms(4) by (intro unat_of_nat_less) simp
  have "is_valid_packet (Frame_new (of_nat (length d)) d) = Some True"
    using is_valid_packet_eq [of "Frame_new (of_nat (length d)) d"] assms(1-4) n
    by (simp add: Frame_new_def Let_def valid_frame_def)
  moreover have "load8 d 23 = Some 1" using assms(2) load8_nth [of 23 d] by (simp add: valid_echo_reply_def)
  ultimately show ?thesis
    using assms(5,6) n by (simp add: processFrame_def Let_def Frame_new_def load_bytes_def del: offset_of.simps(9))
qed

lemma sequence_counted:
  "sequence_id (silent_ping gw t si) = sequence_id si + 1"
  by (simp add: silent_ping_def ping_counted_def connection_checked_def Let_def)

lemma time_counted:
  "ping_send_time (silent_ping gw t si) = t"
  by (simp add: silent_ping_def ping_counted_def Let_def)

lemma index_of_first:
  assumes "wf_servers s" "0 \<le> k" "k < number_of_servers s"
    and "\<forall>i. 0 \<le> i \<and> i < number_of_servers s \<and> i \<noteq> k \<longrightarrow> ii_uint (si_ip (server_infoes s i)) \<noteq> a"
    and "ii_uint (si_ip (server_infoes s k)) = a"
  shows "get_index_by_ip s a = k"
  using assms by (intro get_index_eqI) (auto simp: wf_servers_def)

text \<open>The request for the \<open>k\<close>th server, and the reading of the clock that goes with it.\<close>

lemma ping_request:
  assumes "wf_node s" "0 \<le> k" "k < number_of_servers s"
  obtains u u' where "foldM send_icmp_packet [0..k - 1] (check_connections_is_alive s) = Some u"
    "send_icmp_packet k u = Some u'" "sent_frames u' = sent_frames u @ [(ping_bytes s (server_infoes s k), 1)]"
    "now u = clock s (ticks s + nat k)"
proof -
  let ?c = "check_connections_is_alive s"
  have ci: "si_ip (connection_checked si) = si_ip si" for si
    by (simp add: connection_checked_def Let_def)
  then have ev: "evolves s ?c" unfolding check_connections_is_alive_def by (rule evolves_for_servers)
  have c: "wf_node ?c" "iface ?c = iface s" "mac_gateway ?c = mac_gateway s" "clock ?c = clock s" "ticks ?c = ticks s"
    using ev assms(1) by (simp_all add: evolves_def check_connections_is_alive_def for_servers_eq)
  have si: "server_infoes ?c k = connection_checked (server_infoes s k)"
    using assms(2,3) by (simp add: check_connections_is_alive_def for_servers_eq)
  obtain u where u: "foldM send_icmp_packet [0..k - 1] ?c = Some u" "evolves ?c u" "clock u = clock ?c"
    "ticks u = ticks ?c + length [0..k - 1]" "server_infoes u k = server_infoes ?c k"
    using foldM_send_icmp [OF c(1), of "[0..k - 1]"] by auto
  have w: "wf_node u" "iface u = iface s" "mac_gateway u = mac_gateway s"
    using u(2) c by (simp_all add: evolves_def node_config_def)
  have "ping_bytes u (server_infoes u k) = ping_bytes s (server_infoes s k)"
    unfolding ping_bytes_cong [OF w(3,2)] u(5) si by (simp add: ping_bytes_def connection_checked_def Let_def)
  then show thesis
    using that [OF u(1) send_icmp_packet_eq [OF w(1)]] u(3,4) c(4,5) assms(2) by (simp add: now_def)
qed

section \<open>Properties\<close>

text \<open>
  C6: A ping and its answer. The \<open>ping\<close> command sends the request \<open>m\<close> to the \<open>k\<close>th server from a state \<open>u\<close>.
  After the command the node may execute any commands but \<open>ping\<close> and receive any frames. When the
  answer of the server to \<open>m\<close> then arrives, the node counts it: it is one more reply, the server is up,
  its round-trip time is the time since \<open>u\<close>, when the request was made (or the mean of this and the
  old one), its loss rate is computed from the new counters, and no other entry changes. This holds for
  every sequence number but 65535.
\<close>

theorem ping_reply_counted:
  assumes "wf_node s" "0 \<le> k" "k < number_of_servers s" "sequence_id (server_infoes s k) \<noteq> 65535"
    and "\<forall>i. 0 \<le> i \<and> i < number_of_servers s \<and> i \<noteq> k \<longrightarrow>
      ii_uint (si_ip (server_infoes s i)) \<noteq> ii_uint (si_ip (server_infoes s k))"
    and "run_command ''ping'' input s = Some (input', s1)" "quiet_steps s1 s2"
    and "sent_frames s1 ! (length (sent_frames s) + nat k) = (m, i)" "echo_answer m d"
  shows "\<exists>u u' s3. foldM send_icmp_packet [0..k - 1] (check_connections_is_alive s) = Some u
    \<and> send_icmp_packet k u = Some u' \<and> sent_frames u' = sent_frames u @ [(m, 1)] \<and> i = 1
    \<and> processFrame (Frame_new (of_nat (length d)) d) j s2 = Some s3 \<and> sent_frames s3 = sent_frames s2
    \<and> (\<forall>l. l \<noteq> k \<longrightarrow> server_infoes s3 l = server_infoes s2 l)
    \<and> (let e = server_infoes s2 k; e' = server_infoes s3 k; t = millis (now s2 - now u) in
         ping_received e' = ping_received e + 1 \<and> is_received_last_ping e' \<and> ping_lost_numbers e' = 0
         \<and> si_rtt_time e' = (if si_rtt_time e = u16_max then t else of_nat ((unat (si_rtt_time e) + unat t) div 2))
         \<and> ping_sent e' = (if si_rtt_time e = u16_max then ping_sent e + 1 else ping_sent e)
         \<and> ping_lost_rate e' = loss_rate (ping_received e') (ping_sent e'))"
proof -
  let ?a = "ii_uint (si_ip (server_infoes s k))" and ?seq = "sequence_id (server_infoes s k)"
  let ?t = "clock s (ticks s + nat k)"
  have s1: "evolves s s1" "number_of_all_servers s1 = number_of_all_servers s"
    "sent_frames s1 = sent_frames s @ map (\<lambda>i. (ping_bytes s (server_infoes s i), 1)) [0..number_of_servers s - 1]"
    "server_infoes s1 k = silent_ping (ip_gateway s) ?t (server_infoes s k)"
    using ping_command [OF assms(1), of input] assms(2,3,6) by auto
  have "[0..number_of_servers s - 1] ! nat k = k" using assms(2,3) by (simp add: nth_upto)
  then have m: "m = ping_bytes s (server_infoes s k)" "i = 1"
    using assms(2,3,8) by (simp_all add: s1(3) nth_append)
  obtain u u' where u: "foldM send_icmp_packet [0..k - 1] (check_connections_is_alive s) = Some u"
    "send_icmp_packet k u = Some u'" "sent_frames u' = sent_frames u @ [(m, 1)]" "now u = ?t"
    using ping_request [OF assms(1-3)] m(1) by metis
  have tr: "tracked s1 s2" using assms(7) by (rule tracked_quiet_steps)
  then have ev: "evolves s s2" using s1(1) evolves_trans by (auto simp: tracked_def)
  have all: "k < number_of_all_servers s" using assms(1,3) by (simp add: wf_node_def wf_servers_def)
  then have stamp: "stamp (server_infoes s2 k) = stamp (server_infoes s1 k)"
    using tr assms(2) s1(2) by (simp add: tracked_def)
  let ?l = "frame_logged (Frame_new (of_nat (length d)) d) j s2"
  have si: "server_infoes ?l = server_infoes s2" by (simp add: frame_logged_def put_line_def tick_def)
  have n: "number_of_servers ?l = number_of_servers s" "wf_servers ?l"
  proof -
    have "wf_node ?l" "node_config s2 = node_config s" using ev assms(1) by (simp_all add: evolves_def)
    then show "number_of_servers ?l = number_of_servers s" "wf_servers ?l"
      by (simp_all add: node_config_def wf_node_def frame_logged_def put_line_def tick_def)
  qed
  have ip: "si_ip (server_infoes ?l l) = si_ip (server_infoes s l)" if "0 \<le> l" "l < number_of_servers s" for l
  proof -
    have "l < number_of_all_servers s" using assms(1) that by (simp add: wf_node_def wf_servers_def)
    then have "server_addr s2 l = server_addr s l" using ev that by (simp add: evolves_def)
    then show ?thesis by (simp add: si server_addr_def)
  qed
  have others: "\<forall>l. 0 \<le> l \<and> l < number_of_servers ?l \<and> l \<noteq> k \<longrightarrow> ii_uint (si_ip (server_infoes ?l l)) \<noteq> ?a"
    using assms(5) ip n(1) by simp
  have g: "get_index_by_ip ?l ?a = k"
    by (rule index_of_first [OF n(2) assms(2) _ others]) (use assms(3) n(1) ip [OF assms(2,3)] in simp_all)
  have p: "processFrame (Frame_new (of_nat (length d)) d) j s2 = receive_ping_packet ?a (now s2) ?seq ?l"
    using processFrame_echo [of d ?a ?seq j s2] assms(9) ping_bytes_loads [OF assms(1)] by (simp add: echo_answer_def m(1))
  have seq: "sequence_id (server_infoes s2 k) = sequence_id (ping_counted ?t (ip_gateway s) (server_infoes s k))"
    using stamp by (simp add: stamp_def s1(4) sequence_counted) (simp add: ping_counted_def Let_def)
  have time: "ping_send_time (server_infoes s2 k) = now u"
    using stamp by (simp add: stamp_def s1(4) u(4) time_counted)
  have match: "ping_matches ?a ?seq (server_infoes ?l k)"
    using reply_recognised_iff [of "server_infoes s k" ?t "ip_gateway s"] assms(4) ip [OF assms(2,3)] seq
    by (simp add: ping_matches_def si)
  have none: "\<forall>l. 0 \<le> l \<and> l < number_of_servers ?l \<and> l \<noteq> k \<longrightarrow> \<not> ping_matches ?a ?seq (server_infoes ?l l)"
    using others by (auto simp: ping_matches_def)
  define f where "f e = learn (ping_answered (now s2) e) (ip_gateway ?l) (ping_answered (now s2) e)" for e
  have "processFrame (Frame_new (of_nat (length d)) d) j s2 = Some (upd_server k f ?l)"
    using receive_ping_packet_effect [OF g none, of "now s2"] p match assms(2,3) n(1) by (simp add: f_def [abs_def])
  then show ?thesis
    by (intro exI [of _ u] exI [of _ u'] exI [of _ "upd_server k f ?l"] conjI u(1-3) m(2))
      (simp_all add: upd_server_def si f_def learn_def ping_answered_def Let_def time)
qed

text \<open>The answer of 8.8.4.4 to the request with sequence number 4, which the sample node sends first.\<close>

theorem ping_reply_counted_witness:
  "\<exists>s1 s3. run_command ''ping'' [] sample_node = Some ([], s1)
    \<and> processFrame (Frame_new (of_nat (length sample_reply)) sample_reply) 1 s1 = Some s3
    \<and> ping_received (server_infoes s3 0) = ping_received (server_infoes s1 0) + 1"
proof -
  obtain s1 where s1: "run_command ''ping'' [] sample_node = Some ([], s1)"
    "sent_frames s1 = [(ping_bytes sample_node sample_server, 1)]"
    using ping_command [OF wf_sample_node, of "[]"] by auto
  have "length sample_reply = 46" "load32 sample_reply 26 = Some (htonl 0x08080404)" "ip_hl (sample_reply ! 14) = 5"
    "load16 sample_reply (offset_of Icmp_sequence_id) = Some (htons 4)" "valid_frame sample_reply" "valid_echo_reply sample_reply"
    unfolding sample_reply_bytes by code_simp+
  moreover have si: "ii_uint (si_ip sample_server) = 0x08080404" "sequence_id sample_server = 4" by (simp_all add: sample_server_def)
  ultimately have "echo_answer (ping_bytes sample_node sample_server) sample_reply"
    using ping_bytes_loads [OF wf_sample_node, of sample_server] by (simp add: echo_answer_def)
  then show ?thesis
    using ping_reply_counted [OF wf_sample_node _ _ _ _ s1(1) quiet_steps.refl, of 0 _ 1 sample_reply 1] s1 si(2)
    by (auto simp: Let_def)
qed

end
