(* ===== verification/Learned.thy ===== *)
theory Learned
  imports Paths Tables
begin

text \<open>
  Probes to servers a node has learned from announcements (sm.cpp: the \<open>dsa\<close> and \<open>lsa\<close> commands,
  \<open>send_dsa_packet\<close>, \<open>send_lsa_packet\<close>): the table of routes is indexed with \<open>ip_to_id\<close>, which only
  \<open>initialize\<close> fills.
\<close>

section \<open>The look-up\<close>

lemma learned_id:
  assumes "ids_ok s" "\<forall>k. 0 \<le> k \<and> k < number_of_servers s \<longrightarrow> ii_uint (si_ip (server_infoes s k)) \<noteq> a"
  shows "\<exists>t. id_of a s = (0, t) \<and> t = s\<lparr>ip_to_id := (ip_to_id s)(a \<mapsto> 0)\<rparr>"
proof (cases "ip_to_id s a")
  case (Some i)
  then have "i = 0" using assms by (fastforce simp: ids_ok_def server_addr_def)
  then have "(ip_to_id s)(a \<mapsto> 0) = ip_to_id s" using Some by (simp add: fun_upd_idem)
  then show ?thesis using Some \<open>i = 0\<close> by (simp add: id_of_def)
qed (simp add: id_of_def)

lemma hop_mac_ids [simp]: "hop_mac (s\<lparr>ip_to_id := f\<rparr>) p = hop_mac s p"
  by (simp add: hop_mac_def gateway_mac_def)

section \<open>Properties\<close>

text \<open>
  C37: Probing a learned server. \<open>dsa\<close> and \<open>lsa\<close> accept a server \<open>e\<close> the node has learned from
  announcements, but in no state the node reaches from its configuration do they use the route learned
  for it: unless \<open>e\<close> shares its address with a configured server, the probe goes to the next hop of server
  0 (and \<open>e\<close> is entered in \<open>ip_to_id\<close> with this index); if that hop's MAC address is known, the frame
  that leaves is the probe for \<open>e\<close> addressed to it.
\<close>

theorem learned_server_misrouted:
  assumes "initialize info (sm_start gap ifs junk clk) = Some s" "wf_node s" "node_steps s s'"
    and "number_of_servers s' \<le> j" "j < number_of_all_servers s'" "si_ip (server_infoes s' j) = e"
    and "\<forall>k. 0 \<le> k \<and> k < number_of_servers s' \<longrightarrow> ii_uint (si_ip (server_infoes s' k)) \<noteq> ii_uint e"
    and "hop = ip_next_hop_rtt (forwarding_table (server_infoes s' 0))"
    and "hop' = ip_next_hop_lost (forwarding_table (server_infoes s' 0))"
    and "s0 = s'\<lparr>ip_to_id := (ip_to_id s')(ii_uint e \<mapsto> 0)\<rparr>"
  shows "run_command ''dsa'' (ii_str e # input) s' = do {
      t \<leftarrow> send_udp_packet (ii_uint e) (ii_uint hop) True s0;
      Some (input, sent_line ''DSA'' (ii_str e) (ii_str hop) t) }
    \<and> run_command ''lsa'' (ii_str e # input) s' = do {
      t \<leftarrow> send_udp_packet (ii_uint e) (ii_uint hop') False s0;
      Some (input, sent_line ''LSA'' (ii_str e) (ii_str hop') t) }
    \<and> (\<forall>mac. hop_mac s' (ii_uint hop) = Some mac \<and> src_port s' < 2147483647 \<longrightarrow>
        (\<exists>t. run_command ''dsa'' (ii_str e # input) s' = Some (input, t)
          \<and> sent_frames t = sent_frames s' @ [(probe_bytes s' (ii_uint e) (ii_uint hop) mac (word_of_int (src_port s')) True,
              int (hop_iface s' (ii_uint hop)))]))"
proof -
  note init = initialize_tables [OF assms(1)]
  have s': "wf_node s'" "ids_ok s'" using node_steps_evolves [OF assms(3)] assms(2) init(1) by (simp_all add: evolves_def)
  have tx: "texts_ok s'" using texts_ok_node_steps [OF assms(3,2) init(2)] .
  have j: "0 \<le> j" using assms(4) s'(1) by (simp add: wf_node_def wf_servers_def)
  then have a: "ip_into_uint (ii_str e) = ii_uint e" using tx assms(5,6) by (auto simp: texts_ok_def text_ok_def)
  have v: "is_server_valid s' (ii_str e)" using j assms(5,6) by (auto simp: is_server_valid_def list_ex_iff)
  have i: "id_of (ii_uint e) s' = (0, s0)" using learned_id [OF s'(2) assms(7)] assms(10) by simp
  have si: "server_infoes s0 = server_infoes s'" by (simp add: assms(10))
  have dsa: "run_command ''dsa'' (ii_str e # input) s' = do {
      t \<leftarrow> send_udp_packet (ii_uint e) (ii_uint hop) True s0;
      Some (input, sent_line ''DSA'' (ii_str e) (ii_str hop) t) }"
    using v a i si assms(8) by (simp add: run_command_def send_dsa_packet_def Let_def)
  moreover have "run_command ''lsa'' (ii_str e # input) s' = do {
      t \<leftarrow> send_udp_packet (ii_uint e) (ii_uint hop') False s0;
      Some (input, sent_line ''LSA'' (ii_str e) (ii_str hop') t) }"
    using v a i si assms(9) by (simp add: run_command_def send_lsa_packet_def Let_def)
  moreover have "\<exists>t. run_command ''dsa'' (ii_str e # input) s' = Some (input, t)
      \<and> sent_frames t = sent_frames s' @ [(probe_bytes s' (ii_uint e) (ii_uint hop) mac (word_of_int (src_port s')) True,
          int (hop_iface s' (ii_uint hop)))]"
    if "hop_mac s' (ii_uint hop) = Some mac" "src_port s' < 2147483647" for mac
  proof -
    have s0: "wf_node s0" "hop_mac s0 (ii_uint hop) = Some mac" "src_port s0 < 2147483647"
      using s'(1) that by (simp_all add: assms(10) wf_node_def wf_servers_def)
    have "probe_bytes s0 = probe_bytes s'" "hop_iface s0 = hop_iface s'"
      by (simp_all add: assms(10) fun_eq_iff probe_bytes_def hop_iface_def)
    then show ?thesis using dsa send_udp_packet_eq [OF s0] assms(10)
      by (simp add: sent_line_def put_line_def probe_sent_def tick_def)
  qed
  ultimately show ?thesis by blast
qed

text \<open>
  A node that is configured with the server 10.0.0.1 learns 8.8.4.4 from an announcement of the sample
  node: it sends its probes to 8.8.4.4 to the next hop of 10.0.0.1, the gateway.
\<close>

lemma learned_at_end:
  assumes "update_learning_table info p s = Some t" "get_index_by_ip s (ii_uint (si_ip info)) = - 1"
  shows "number_of_all_servers t = number_of_all_servers s + 1" "number_of_servers t = number_of_servers s"
    "si_ip (server_infoes t (number_of_all_servers s)) = si_ip info"
    "i \<noteq> number_of_all_servers s \<Longrightarrow> server_infoes t i = server_infoes s i"
    "src_port t = src_port s" "sent_frames t = sent_frames s" "ip_gateway t = ip_gateway s" "mac_gateway t = mac_gateway s"
  using assms by (auto simp: update_learning_table_def insert_into_server_infoes_def upd_server_def inserted_server_def
      split: if_splits)

definition learner :: sm where
  "learner = configured ''192.168.1.1'' [10, 11, 12, 13, 14, 15] [''10.0.0.1''] (sm_start 8 sample_ifaces (\<lambda>_. 0) (\<lambda>_. 0))"

theorem learned_server_misrouted_witness:
  "\<exists>d s' t. initialize ''192.168.1.1 0A:0B:0C:0D:0E:0F 1 10.0.0.1''
      (sm_start 8 sample_ifaces (\<lambda>_. 0) (\<lambda>_. 0)) = Some learner
    \<and> processFrame (Frame_new (of_nat (length d)) d) 0 learner = Some s' \<and> number_of_all_servers s' = 2
    \<and> si_ip (server_infoes s' 1) = \<lparr>ii_uint = 0x08080404, ii_str = ''8.8.4.4''\<rparr>
    \<and> run_command ''dsa'' [''8.8.4.4''] s' = Some ([], t) \<and> map snd (sent_frames t) = [1]"
proof -
  let ?d = "announcement_bytes sample_peer 0xFFFFFFFF (replicate 6 255) (message_bytes (up_servers sample_peer))"
  let ?l = "frame_logged (Frame_new (of_nat (length ?d)) ?d) 0 learner"
  have t: "tokens ''192.168.1.1 0A:0B:0C:0D:0E:0F 1 10.0.0.1''
    = ''192.168.1.1'' # mac_str [10, 11, 12, 13, 14, 15] # ''1'' # [''10.0.0.1'']" by code_simp
  have n: "atoi ''1'' = Some (int (length [''10.0.0.1'']))" by code_simp
  have g: "9 \<le> length (mac_gateway (sm_start 8 sample_ifaces (\<lambda>_. 0) (\<lambda>_. 0)))" by (simp add: sm_start_def)
  have ini: "initialize ''192.168.1.1 0A:0B:0C:0D:0E:0F 1 10.0.0.1'' (sm_start 8 sample_ifaces (\<lambda>_. 0) (\<lambda>_. 0)) = Some learner"
    unfolding learner_def by (rule initialize_eq [OF t n _ _ g]) simp_all
  have a: "ip_into_uint ''10.0.0.1'' = 0x0A000001" "ip_into_uint ''192.168.1.1'' = 0xC0A80101" by code_simp+
  have l: "number_of_servers learner = 1" "number_of_all_servers learner = 1" "src_port learner = 8000" "sent_frames learner = []"
    "ii_uint (si_ip (server_infoes learner 0)) = 0x0A000001" "ip_gateway learner = \<lparr>ii_uint = 0xC0A80101, ii_str = ''192.168.1.1''\<rparr>"
    "ip_next_hop_rtt (forwarding_table (server_infoes learner 0)) = ip_gateway learner"
    "iface learner = sample_ifaces"
    "mac_gateway learner = [10, 11, 12, 13, 14, 15] @ [0, 0, 0] @ drop 9 (mac_gateway (sm_start 8 sample_ifaces (\<lambda>_. 0) (\<lambda>_. 0)))"
    "ip_to_mac learner = Map.empty"
    by (simp_all add: learner_def configured_def init_range_def initial_entry_def Let_def sm_start_def a)
  have wf: "wf_node learner"
    by (simp add: wf_node_def wf_servers_def l) (simp add: sample_ifaces_def wf_interface_def)
  have up: "up_servers sample_peer = [sample_server]"
    by (simp add: up_servers_def sample_peer_def) (simp add: sample_server_def)
  have ifp: "if_ip (iface sample_peer ! 0) = 0x0A000002" by (simp add: sample_peer_def sample_nodes)
  have c: "\<not> double_carry (ip_sum_words (of_nat (32 + 12 * length [sample_server])) 17 0x0A000002 0xFFFFFFFF)" by code_simp
  obtain u where u: "update_all (map (received_offer 0x0A000002) [sample_server]) ?l = Some u"
    "processFrame (Frame_new (of_nat (length ?d)) ?d) 0 learner
      = Some (u\<lparr>ip_to_mac := (ip_to_mac u)(0x0A000002 \<mapsto> if_mac (iface sample_peer ! 0))\<rparr>)"
    by (rule announcement_processed [OF wf_sample_peer wf, where i = 0, unfolded up ifp])
      (use c in \<open>simp_all only: l(2) up, simp_all\<close>)
  let ?s' = "u\<lparr>ip_to_mac := (ip_to_mac u)(0x0A000002 \<mapsto> if_mac (iface sample_peer ! 0))\<rparr>"
  have lf: "number_of_servers ?l = 1" "number_of_all_servers ?l = 1" "server_infoes ?l = server_infoes learner"
    by (simp_all add: frame_logged_def put_line_def tick_def l)
  have no: "\<not> (0 \<le> i \<and> i < 1 \<and> ii_uint (si_ip (server_infoes learner i)) = 0x08080404)" for i
    using l(5) by (cases "i = 0") auto
  have "get_index_by_ip ?l 0x08080404 = - 1"
    by (rule get_index_cases [of ?l "0x08080404"]) (use no in \<open>auto simp: lf l\<close>)
  moreover have o: "si_ip (fst (received_offer 0x0A000002 sample_server)) = \<lparr>ii_uint = 0x08080404, ii_str = ''8.8.4.4''\<rparr>"
  proof -
    have "ip_text 0x08080404 = ''8.8.4.4''" by code_simp
    then show ?thesis by (simp add: received_offer_def) (simp add: sample_server_def)
  qed
  moreover have "update_learning_table (fst (received_offer 0x0A000002 sample_server)) (snd (received_offer 0x0A000002 sample_server)) ?l
      = Some u"
    using u(1) by (auto simp: update_all_def Option.bind_eq_Some_conv)
  ultimately have le: "number_of_all_servers u = 2" "number_of_servers u = 1"
    "si_ip (server_infoes u 1) = \<lparr>ii_uint = 0x08080404, ii_str = ''8.8.4.4''\<rparr>"
    "server_infoes u 0 = server_infoes learner 0" "src_port u = 8000" "sent_frames u = []" "ip_gateway u = ip_gateway learner"
    "mac_gateway u = mac_gateway learner"
    using learned_at_end [where s = ?l and t = u] by (simp_all add: lf l)
  have st: "node_steps learner ?s'" using node_steps.step [OF node_steps.refl node_step.frame [OF u(2)]] .
  let ?e = "\<lparr>ii_uint = 0x08080404, ii_str = ''8.8.4.4''\<rparr> :: ip_info"
  have "ii_uint (si_ip (server_infoes u k)) \<noteq> 0x08080404" if "0 \<le> k" "k < 1" for k
    using that le(4) l(5) by (cases "k = 0") auto
  then have others: "\<forall>k. 0 \<le> k \<and> k < number_of_servers ?s' \<longrightarrow> ii_uint (si_ip (server_infoes ?s' k)) \<noteq> ii_uint ?e"
    by (simp add: le)
  have "number_of_servers ?s' \<le> 1" "1 < number_of_all_servers ?s'" "si_ip (server_infoes ?s' 1) = ?e"
    by (simp_all add: le)
  note sent = learned_server_misrouted [OF ini wf st this others HOL.refl HOL.refl HOL.refl, of "[]"]
  have hop: "ip_next_hop_rtt (forwarding_table (server_infoes ?s' 0)) = ip_gateway ?s'" "src_port ?s' < 2147483647"
    "sent_frames ?s' = []"
    by (simp_all add: le l(7))
  have "hop_mac ?s' (ii_uint (ip_gateway ?s')) = Some (gateway_mac ?s')" "hop_iface ?s' (ii_uint (ip_gateway ?s')) = 1"
    by (simp_all add: hop_mac_def hop_iface_def)
  with sent hop obtain t where "run_command ''dsa'' [''8.8.4.4''] ?s' = Some ([], t)" "map snd (sent_frames t) = [1]"
    by fastforce
  then show ?thesis using ini u(2) le by (intro exI [of _ ?d] exI [of _ ?s'] exI [of _ t]) simp
qed

end
