(* ===== verification/Threads.thy ===== *)
theory Threads
  imports Node
begin

text \<open>
  The two threads of the node at the grain of the mutex \<open>port_for_nat_mutex\<close> (sm.cpp). The thread of
  \<open>run\<close> sends a probe, the main thread forwards the packet of a peer, and each does so in three phases:
  before the lock, under it, after it. The phases of the two threads interleave in any order. The lock
  is enough for the ports: no two packets leave with the same one. It is not enough for the time of a
  probe, which is noted under whatever port was taken last.
\<close>

section \<open>A probe in three phases\<close>

text \<open>
  What the thread of \<open>run\<close> holds: nothing, or the kind of the probe, the destination as typed, the next
  hop and the frame built so far.
\<close>

datatype probing =
    Idle
  | Headers bool string ip_info "u8 list"
  | Taken bool string ip_info "u8 list"

text \<open>
  \<open>send_dsa_packet\<close> and \<open>send_lsa_packet\<close> up to the lock in \<open>send_udp_packet\<close>, the critical section, and
  the rest with the line they print.
\<close>

definition probe_begin :: "bool \<Rightarrow> string \<Rightarrow> sm \<Rightarrow> (probing \<times> sm) option" where
  "probe_begin is_dsa ip_dst s =
     (let (server_id, s) = id_of (ip_into_uint ip_dst) s;
          table = forwarding_table (server_infoes s server_id);
          next_hop = (if is_dsa then ip_next_hop_rtt table else ip_next_hop_lost table)
      in do {
        d \<leftarrow> probe_headers (ip_into_uint ip_dst) (ii_uint next_hop) is_dsa s;
        Some (Headers is_dsa ip_dst next_hop d, s) })"

fun probe_locked :: "probing \<Rightarrow> sm \<Rightarrow> (probing \<times> sm) option" where
  "probe_locked (Headers is_dsa ip_dst next_hop d) s = do {
     (d, s) \<leftarrow> take_port d s;
     Some (Taken is_dsa ip_dst next_hop d, s) }"
| "probe_locked _ s = None"

fun probe_end :: "probing \<Rightarrow> sm \<Rightarrow> sm option" where
  "probe_end (Taken is_dsa ip_dst next_hop d) s = do {
     s \<leftarrow> probe_finish (ii_uint next_hop) d s;
     Some (sent_line (if is_dsa then ''DSA'' else ''LSA'') ip_dst (ii_str next_hop) s) }"
| "probe_end _ s = None"

text \<open>Without interruption the phases are the command.\<close>

lemma probe_phases:
  "run_command (if is_dsa then ''dsa'' else ''lsa'') (x # input) s =
     (if is_server_valid s x
      then do { (p, s) \<leftarrow> probe_begin is_dsa x s; (p, s) \<leftarrow> probe_locked p s; s \<leftarrow> probe_end p s; Some (input, s) }
      else Some (input, s))"
  by (cases is_dsa)
    (auto simp: run_command_def send_dsa_packet_def send_lsa_packet_def send_udp_packet_def probe_begin_def Let_def
      split: prod.splits intro!: Option.bind_cong)

section \<open>Forwarding in three phases\<close>

text \<open>
  What the main thread holds: nothing, or the length and the data of the packet, its port, and the copy
  rewritten so far.
\<close>

datatype forwarding =
    Waiting
  | Copied u32 "u8 list" u16 "u8 list"
  | Ported u32 "u8 list" u16 "u8 list"

definition forward_begin :: "u32 \<Rightarrow> u8 list \<Rightarrow> u16 \<Rightarrow> sm \<Rightarrow> forwarding option" where
  "forward_begin n d port s = do {
     own \<leftarrow> iface_at (iface s) 1;
     m \<leftarrow> set_eth_addresses (if_mac own) (mac_gateway s) d;
     Some (Copied n d port m) }"

fun forward_locked :: "forwarding \<Rightarrow> sm \<Rightarrow> (forwarding \<times> sm) option" where
  "forward_locked (Copied n d port m) s = do {
     ip_src \<leftarrow> load32 m (offset_of Ip_src);
     port_src \<leftarrow> load16 m (offset_of Udp_src);
     (q, s) \<leftarrow> alloc_port (Some (ip_src, port_src)) s;
     m \<leftarrow> store16 m (offset_of Udp_src) (htons q);
     Some (Ported n d port m, s) }"
| "forward_locked _ s = None"

fun forward_end :: "forwarding \<Rightarrow> sm \<Rightarrow> sm option" where
  "forward_end (Ported n d port m) s = do {
     own \<leftarrow> iface_at (iface s) 1;
     m \<leftarrow> store32 m (offset_of Ip_src) (htonl (getIp own));
     m \<leftarrow> set_ip_checksum m;
     s \<leftarrow> send_frame (Frame_new n m) 1 s;
     ip_dst \<leftarrow> load32 d (offset_of Ip_dst);
     dst_str \<leftarrow> ipUint_into_str (ntohl ip_dst);
     Some (put_line (Cout (protocol_name port @ '' packet forwarded to '' @ dst_str)) s) }"
| "forward_end _ s = None"

lemma forward_phases:
  "forward_out n d port s = do {
     f \<leftarrow> forward_begin n d port s; (f, s) \<leftarrow> forward_locked f s; forward_end f s }"
proof (cases "iface_at (iface s) 1")
  case (Some own)
  have "iface t = iface s" if "alloc_port e s = Some (q, t)" for e q t
    using that by (auto simp: alloc_port_def Let_def Option.bind_eq_Some_conv split: option.splits)
  then show ?thesis using Some
    by (auto simp: forward_out_def forward_begin_def intro!: Option.bind_cong split: prod.splits)
qed (simp add: forward_out_def forward_begin_def)

section \<open>Interleavings\<close>

text \<open>
  Either thread makes its next phase. Commands other than probes, and frames other than packets to
  forward, are one step of their thread.
\<close>

type_synonym threads = "sm \<times> probing \<times> forwarding"

inductive thread_step :: "threads \<Rightarrow> threads \<Rightarrow> bool" where
  command: "run_command c input s = Some (input', s') \<Longrightarrow> thread_step (s, Idle, f) (s', Idle, f)"
| begins: "is_server_valid s x \<Longrightarrow> probe_begin is_dsa x s = Some (p, s') \<Longrightarrow> thread_step (s, Idle, f) (s', p, f)"
| locks: "probe_locked p s = Some (p', s') \<Longrightarrow> thread_step (s, p, f) (s', p', f)"
| ends: "probe_end p s = Some s' \<Longrightarrow> thread_step (s, p, f) (s', Idle, f)"
| frame: "processFrame fr i s = Some s' \<Longrightarrow> thread_step (s, p, Waiting) (s', p, Waiting)"
| copies: "udp_frame n d \<Longrightarrow> load16 d (offset_of Udp_dst) = Some (htons port) \<Longrightarrow> port = 1000 \<or> port = 2000
    \<Longrightarrow> s' = frame_logged (Frame_new n d) i s \<Longrightarrow> forward_begin n d port s' = Some f
    \<Longrightarrow> thread_step (s, p, Waiting) (s', p, f)"
| ports: "forward_locked f s = Some (f', s') \<Longrightarrow> thread_step (s, p, f) (s', p, f')"
| sends: "forward_end f s = Some s' \<Longrightarrow> thread_step (s, p, f) (s', p, Waiting)"

inductive_cases thread_stepE: "thread_step t (s', p', f')"

inductive thread_steps :: "threads \<Rightarrow> threads \<Rightarrow> bool" where
  start: "thread_steps t t"
| more: "thread_steps t u \<Longrightarrow> thread_step u v \<Longrightarrow> thread_steps t v"

text \<open>What every phase keeps: \<open>evolves\<close> without the times.\<close>

definition keeps :: "sm \<Rightarrow> sm \<Rightarrow> bool" where
  "keeps s s' \<longleftrightarrow> node_config s' = node_config s \<and> (wf_node s \<longrightarrow> wf_node s') \<and> src_port s \<le> src_port s'
     \<and> (ports_ok s \<longrightarrow> src_port s' \<le> 65536 \<longrightarrow> ports_ok s' \<and> (\<forall>q\<in>used_ports s. owner_of s' q = owner_of s q))"

lemma evolves_keeps: "evolves s s' \<Longrightarrow> keeps s s'"
  by (simp add: evolves_def keeps_def ports_kept_def)

lemma keeps_trans:
  assumes "keeps s t" "keeps t u"
  shows "keeps s u"
proof -
  note st = assms(1) [unfolded keeps_def] and tu = assms(2) [unfolded keeps_def]
  have "ports_ok u \<and> (\<forall>q\<in>used_ports s. owner_of u q = owner_of s q)" if "ports_ok s" "src_port u \<le> 65536"
    using st tu that used_ports_mono [of s t] by (metis order_trans subsetD)
  then show ?thesis using st tu unfolding keeps_def by (metis order_trans)
qed

lemma probe_end_keeps:
  assumes "probe_end p s = Some s'"
  shows "keeps s s'"
proof -
  obtain is_dsa x hop d u where p: "p = Taken is_dsa x hop d" "probe_finish (ii_uint hop) d s = Some u"
    "s' = sent_line (if is_dsa then ''DSA'' else ''LSA'') x (ii_str hop) u"
    using assms by (cases p) (auto simp: Option.bind_eq_Some_conv)
  obtain t where t: "evolves s t" "src_port t = src_port s"
    "u = t\<lparr>sent_times := (sent_times s)(word_of_int (src_port s - 1) \<mapsto> now s)\<rparr>"
    by (rule probe_finish_effect [OF p(2)])
  have "owner_of u = owner_of t" by (rule owner_of_cong) (simp_all add: t(3))
  then have "keeps t u"
    by (simp add: keeps_def t(3) node_config_def wf_node_def wf_servers_def ports_ok_def used_ports_def)
  moreover have "keeps u s'" unfolding p(3) sent_line_def by (rule evolves_keeps [OF evolves_fields(1)])
  ultimately show ?thesis using evolves_keeps [OF t(1)] keeps_trans by blast
qed

lemma forward_end_keeps:
  assumes "forward_end f s = Some s'"
  shows "keeps s s'"
proof -
  obtain fr u l where "send_frame fr 1 s = Some u" "s' = put_line l u"
    using assms by (cases f) (auto simp: Option.bind_eq_Some_conv)
  then show ?thesis using evolves_trans [OF evolves_send_frame evolves_fields(1)] evolves_keeps by metis
qed

lemma thread_step_keeps:
  assumes "thread_step (s, p, f) (s', p', f')"
  shows "keeps s s'"
  using assms
proof (cases rule: thread_step.cases)
  case (begins x is_dsa)
  then show ?thesis
    by (auto simp: probe_begin_def Let_def Option.bind_eq_Some_conv split: prod.splits intro: evolves_keeps evolve)
next
  case locks
  then show ?thesis
    by (cases p) (auto simp: Option.bind_eq_Some_conv intro: evolves_keeps evolve)
next
  case ports
  then show ?thesis
    by (cases f) (auto simp: Option.bind_eq_Some_conv intro: evolves_keeps evolve)
next
  case (copies n d port i)
  then show ?thesis
    using evolves_trans [OF evolves_fields(2) evolves_fields(1)] by (simp add: frame_logged_def evolves_keeps)
qed (auto intro: evolves_keeps evolve probe_end_keeps forward_end_keeps)

section \<open>What the threads hold\<close>

text \<open>
  Between its phases a thread holds the frame as far as it is built; after the lock the frame bears a
  port that is in use and stands for nobody (a probe) or for the sender of the packet.
\<close>

fun probing_ok :: "sm \<Rightarrow> probing \<Rightarrow> bool" where
  "probing_ok s Idle \<longleftrightarrow> True"
| "probing_ok s (Headers is_dsa x hop d) \<longleftrightarrow> (\<exists>e u0 u1 u6 u7 y. length e = 12 \<and> length y = 4 \<and>
     d = e @ be16 ETHERTYPE_IP @ ip_packet 32 IPPROTO_UDP (if_ip (iface s ! hop_iface s (ii_uint hop))) (ip_into_uint x)
       @ [u0, u1] @ be16 (probe_port is_dsa) @ be16 12 @ [u6, u7] @ y)"
| "probing_ok s (Taken is_dsa x hop d) \<longleftrightarrow> (\<exists>e y q. length e = 12 \<and> length y = 4 \<and> q \<in> used_ports s \<and> owner_of s q = None \<and>
     d = e @ be16 ETHERTYPE_IP @ ip_packet 32 IPPROTO_UDP (if_ip (iface s ! hop_iface s (ii_uint hop))) (ip_into_uint x)
       @ udp_bytes q (probe_port is_dsa) 12 @ y)"

definition copied_ok :: "sm \<Rightarrow> u32 \<Rightarrow> u8 list \<Rightarrow> u8 list \<Rightarrow> bool" where
  "copied_ok s n d m \<longleftrightarrow> header_inside d \<and> 42 \<le> length d \<and> unat n = length d \<and> same_outside {0..<12} d m
     \<and> load_bytes m 0 12 = Some (gateway_mac s @ if_mac (iface s ! 1))"

definition sender_of :: "u8 list \<Rightarrow> (u32 \<times> u16) option" where
  "sender_of d = Some (the (load32 d 26), the (load16 d 34))"

fun forwarding_ok :: "sm \<Rightarrow> forwarding \<Rightarrow> bool" where
  "forwarding_ok s Waiting \<longleftrightarrow> True"
| "forwarding_ok s (Copied n d port m) \<longleftrightarrow> copied_ok s n d m"
| "forwarding_ok s (Ported n d port m) \<longleftrightarrow> (\<exists>m0 q. copied_ok s n d m0 \<and> store16 m0 34 (htons q) = Some m
     \<and> q \<in> used_ports s \<and> owner_of s q = sender_of d)"

fun good :: "threads \<Rightarrow> bool" where
  "good (s, p, f) \<longleftrightarrow> wf_node s \<and> ports_ok s \<and> probing_ok s p \<and> forwarding_ok s f"

text \<open>Whatever the other thread does, it stays so.\<close>

lemma held_keeps:
  assumes "keeps s s'" "ports_ok s" "src_port s' \<le> 65536"
  shows "probing_ok s p \<Longrightarrow> probing_ok s' p" "forwarding_ok s f \<Longrightarrow> forwarding_ok s' f"
proof -
  have k: "used_ports s \<subseteq> used_ports s'" "\<And>q. q \<in> used_ports s \<Longrightarrow> owner_of s' q = owner_of s q"
    "node_config s' = node_config s"
    using assms used_ports_mono [of s s'] by (simp_all add: keeps_def)
  have c: "iface s' = iface s" "hop_iface s' = hop_iface s" "gateway_mac s' = gateway_mac s"
    using k(3) by (simp_all add: node_config_def hop_iface_def [abs_def] gateway_mac_def)
  show "probing_ok s p \<Longrightarrow> probing_ok s' p"
  proof (cases p)
    case (Taken is_dsa x hop d)
    assume "probing_ok s p"
    then obtain e y q where "length e = 12" "length y = 4" "q \<in> used_ports s" "owner_of s q = None"
      "d = e @ be16 ETHERTYPE_IP @ ip_packet 32 IPPROTO_UDP (if_ip (iface s ! hop_iface s (ii_uint hop))) (ip_into_uint x)
       @ udp_bytes q (probe_port is_dsa) 12 @ y" using Taken by auto
    then show ?thesis using k(1) k(2) [of q] Taken by (auto simp: c)
  qed (simp_all add: c)
  show "forwarding_ok s f \<Longrightarrow> forwarding_ok s' f"
  proof (cases f)
    case (Ported n d port m)
    assume "forwarding_ok s f"
    then obtain m0 q where "copied_ok s n d m0" "store16 m0 34 (htons q) = Some m" "q \<in> used_ports s" "owner_of s q = sender_of d"
      using Ported by auto
    then show ?thesis using k(1) k(2) [of q] Ported by (auto simp: c copied_ok_def)
  qed (simp_all add: c copied_ok_def)
qed

lemma new_port:
  assumes "ports_ok s" "alloc_port e s = Some (q, s')" "src_port s' \<le> 65536"
  shows "q \<in> used_ports s'" "owner_of s' q = e"
proof -
  have "src_port s' = src_port s + 1"
    using assms(2) by (auto simp: alloc_port_def incr_int_def Let_def split: if_splits option.splits)
  then have a: "alloc_port_16 e s = Some (q, s')" using assms(2,3) by (simp add: alloc_port_16_def)
  show "q \<in> used_ports s'" "owner_of s' q = e"
    using nat_table.alloc_fresh [OF assms(1) a] nat_table.alloc_new [OF assms(1) a] by simp_all
qed

lemma probe_begin_ok:
  assumes "probe_begin is_dsa x s = Some (p, s')" "wf_node s"
  shows "probing_ok s' p"
proof -
  obtain k hop d where b: "id_of (ip_into_uint x) s = (k, s')" "probe_headers (ip_into_uint x) (ii_uint hop) is_dsa s' = Some d"
    "p = Headers is_dsa x hop d"
    using assms(1) by (auto simp: probe_begin_def Let_def Option.bind_eq_Some_conv split: prod.splits)
  have "wf_node s'" using evolves_id_of [OF b(1)] assms(2) by (simp add: evolves_def)
  from probe_headers_eq [OF this, of "ip_into_uint x" "ii_uint hop" is_dsa] show ?thesis
    using b(2,3) by auto
qed

lemma probe_locked_ok:
  assumes "probe_locked p s = Some (p', s')" "wf_node s" "ports_ok s" "src_port s' \<le> 65536" "probing_ok s p"
  shows "probing_ok s' p'"
proof -
  obtain is_dsa x hop d d' where p: "p = Headers is_dsa x hop d" "take_port d s = Some (d', s')" "p' = Taken is_dsa x hop d'"
    using assms(1) by (cases p) (auto simp: Option.bind_eq_Some_conv)
  let ?ip = "ip_packet 32 IPPROTO_UDP (if_ip (iface s ! hop_iface s (ii_uint hop))) (ip_into_uint x)"
  obtain e u0 u1 u6 u7 y where d: "length e = 12" "length y = 4"
    "d = e @ be16 ETHERTYPE_IP @ ?ip @ [u0, u1] @ be16 (probe_port is_dsa) @ be16 12 @ [u6, u7] @ y"
    using assms(5) p(1) by auto
  obtain q where q: "alloc_port None s = Some (q, s')" "set_udp_src_sum q d = Some d'"
    using p(2) by (auto simp: take_port_def Option.bind_eq_Some_conv)
  have "length (e @ be16 ETHERTYPE_IP @ ?ip) = 34" using d(1) by simp
  from set_udp_src_sum_eq [OF this, of q u0 u1 "probe_port is_dsa" 12 u6 u7 y]
  have "d' = e @ be16 ETHERTYPE_IP @ ?ip @ udp_bytes q (probe_port is_dsa) 12 @ y" using q(2) d(3) by simp
  moreover have "iface s' = iface s" "hop_iface s' = hop_iface s"
    using evolves_alloc_port [OF q(1)] by (auto simp: evolves_def node_config_def hop_iface_def)
  ultimately show ?thesis using new_port [OF assms(3) q(1) assms(4)] d(1,2) p(3) by auto
qed

lemma forward_begin_ok:
  assumes "forward_begin n d port s = Some f" "wf_node s" "udp_frame n d"
  shows "forwarding_ok s f"
proof -
  have d: "header_inside d" "42 \<le> length d" "unat n = length d"
    using udp_frame_inside [OF assms(3)] assms(3) by (simp_all add: udp_frame_def)
  then show ?thesis
    using wf_node_eth(1) [OF assms(2), of d] wf_node_iface(1) [OF assms(2), of 1] assms(1)
    by (auto simp: forward_begin_def copied_ok_def)
qed

lemma forward_locked_ok:
  assumes "forward_locked f s = Some (f', s')" "ports_ok s" "src_port s' \<le> 65536" "forwarding_ok s f"
  shows "forwarding_ok s' f'"
proof -
  obtain n d port m ip p q m' where f: "f = Copied n d port m" "load32 m 26 = Some ip" "load16 m 34 = Some p"
    "alloc_port (Some (ip, p)) s = Some (q, s')" "store16 m 34 (htons q) = Some m'" "f' = Ported n d port m'"
    using assms(1) by (cases f) (auto simp: Option.bind_eq_Some_conv)
  have c: "copied_ok s n d m" using assms(4) f(1) by simp
  have "iface s' = iface s" "gateway_mac s' = gateway_mac s"
    using evolves_alloc_port [OF f(4)] by (simp_all add: evolves_def node_config_def gateway_mac_def)
  then have "copied_ok s' n d m" using c by (simp add: copied_ok_def)
  moreover have "load32 d 26 = Some ip" "load16 d 34 = Some p"
    using c f(2,3) same_outside_load [of "{0..<12}" d m 26 4] same_outside_load [of "{0..<12}" d m 34 2]
    by (simp_all add: copied_ok_def load32_def load16_def)
  ultimately show ?thesis using new_port [OF assms(2) f(4) assms(3)] f(5,6) by (auto simp: sender_of_def)
qed

lemma thread_step_good:
  assumes "thread_step (s, p, f) (s', p', f')" "good (s, p, f)" "src_port s' \<le> 65536"
  shows "good (s', p', f')"
proof -
  note k = thread_step_keeps [OF assms(1)]
  have g: "wf_node s" "ports_ok s" "probing_ok s p" "forwarding_ok s f" using assms(2) by simp_all
  then have w: "wf_node s'" "ports_ok s'" using k assms(3) by (simp_all add: keeps_def)
  note held = held_keeps [OF k g(2) assms(3)]
  have "probing_ok s' p' \<and> forwarding_ok s' f'"
    using assms(1)
  proof (cases rule: thread_step.cases)
    case (begins x is_dsa)
    then show ?thesis using probe_begin_ok g(1) held g(3,4) by auto
  next
    case locks
    then show ?thesis using probe_locked_ok [OF _ g(1,2) assms(3) g(3)] held(2) g(4) by auto
  next
    case (copies n d port i)
    then show ?thesis using forward_begin_ok [of n d port s' f'] w(1) held(1) g(3) by auto
  next
    case ports
    then show ?thesis using forward_locked_ok [OF _ g(2) assms(3) g(4)] held(1) g(3) by auto
  qed (use held g(3,4) in auto)
  then show ?thesis using w by simp
qed

lemma thread_steps_good:
  assumes "thread_steps t u" "good t" "src_port (fst u) \<le> 65536"
  shows "good u \<and> keeps (fst t) (fst u)"
  using assms
proof (induction rule: thread_steps.induct)
  case (start t)
  then show ?case using evolves_keeps [OF evolves_refl] by simp
next
  case (more t u v)
  obtain s p f where u: "u = (s, p, f)" by (cases u)
  obtain s' p' f' where v: "v = (s', p', f')" by (cases v)
  have st: "thread_step (s, p, f) (s', p', f')" using more.hyps(2) u v by simp
  note k = thread_step_keeps [OF st]
  have "src_port s \<le> 65536" using k more.prems(2) v by (simp add: keeps_def)
  then have "good (s, p, f)" "keeps (fst t) s" using more.IH more.prems(1) u by simp_all
  then show ?case using thread_step_good [OF st] more.prems(2) k keeps_trans v by auto
qed

lemma probe_end_eq:
  assumes "wf_node s" "probing_ok s (Taken is_dsa x hop d)" "hop_mac s (ii_uint hop) = Some peer"
  obtains q s' where "q \<in> used_ports s" "owner_of s q = None" "probe_end (Taken is_dsa x hop d) s = Some s'"
    "sent_frames s' = sent_frames s @
      [(probe_bytes s (ip_into_uint x) (ii_uint hop) peer q is_dsa, int (hop_iface s (ii_uint hop)))]"
    "sent_times s' = (sent_times s)(word_of_int (src_port s - 1) \<mapsto> now s)"
proof -
  let ?ip = "ip_packet 32 IPPROTO_UDP (if_ip (iface s ! hop_iface s (ii_uint hop))) (ip_into_uint x)"
  obtain e y q where d: "length e = 12" "length y = 4" "q \<in> used_ports s" "owner_of s q = None"
    "d = e @ (be16 ETHERTYPE_IP @ ?ip @ udp_bytes q (probe_port is_dsa) 12) @ y"
    using assms(2) by auto
  have "length (be16 ETHERTYPE_IP @ ?ip @ udp_bytes q (probe_port is_dsa) 12) = 30" by simp
  note fin = probe_finish_eq [OF assms(1,3) d(1,2) this, folded d(5)]
  then have e: "probe_end (Taken is_dsa x hop d) s = Some (sent_line (if is_dsa then ''DSA'' else ''LSA'') x (ii_str hop)
      (tick (s\<lparr>sent_frames := sent_frames s @ [(probe_bytes s (ip_into_uint x) (ii_uint hop) peer q is_dsa, int (hop_iface s (ii_uint hop)))],
        sent_times := (sent_times s)(word_of_int (src_port s - 1) \<mapsto> now s)\<rparr>)))"
    by (simp add: probe_bytes_def Let_def eth_bytes_def)
  show thesis
    by (rule that [OF d(3,4) e]) (simp_all add: sent_line_def put_line_def tick_def)
qed

lemma forward_end_eq:
  assumes "wf_node s" "forwarding_ok s (Ported n d port m)"
  obtains q s' m' where "q \<in> used_ports s" "owner_of s q = sender_of d" "forward_end (Ported n d port m) s = Some s'"
    "sent_frames s' = sent_frames s @ [(m', 1)]" "load16 m' 34 = Some (htons q)"
    "load32 m' 26 = Some (htonl (if_ip (iface s ! 1)))" "same_outside (nat_bytes 26 34) d m'"
proof -
  obtain m0 q where q: "copied_ok s n d m0" "store16 m0 34 (htons q) = Some m" "q \<in> used_ports s" "owner_of s q = sender_of d"
    using assms(2) by auto
  have c: "same_outside {0..<12} d m0" "load_bytes m0 0 12 = Some (gateway_mac s @ if_mac (iface s ! 1))"
    "header_inside d" "42 \<le> length d" "unat n = length d" using q(1) by (simp_all add: copied_ok_def)
  obtain m1 m' where m: "store32 m 26 (htonl (if_ip (iface s ! 1))) = Some m1" "set_ip_checksum m1 = Some m'"
    "same_outside (nat_bytes 26 34) d m'" "load16 m' 34 = Some (htons q)"
    "load32 m' 26 = Some (htonl (if_ip (iface s ! 1)))"
    using rewrite_frame [OF c(1-4), of 26 34 "htons q" "htonl (if_ip (iface s ! 1))"] q(2)
    by (auto simp: Option.bind_eq_Some_conv)
  have n: "unat n = length m'" using c(5) same_outside_length [OF m(3)] by simp
  obtain dst where dst: "load32 d 30 = Some dst" using load_defined(1) [of 30 d] c(4) by auto
  have "iface_at (iface s) 1 = Some (iface s ! 1)" using wf_node_iface(1) [OF assms(1), of 1] by simp
  then have e: "forward_end (Ported n d port m) s = Some (put_line (Cout (protocol_name port @ '' packet forwarded to ''
      @ ip_text (ntohl dst))) (s\<lparr>sent_frames := sent_frames s @ [(m', 1)]\<rparr>))"
    by (simp add: getIp_def m(1,2) send_frame_n [OF n] dst ipUint_into_str_text del: One_nat_def)
  show thesis
    by (rule that [OF q(3,4) e _ m(4,5,3)]) (simp add: put_line_def)
qed

lemma last_port:
  assumes "ports_ok s" "q \<in> used_ports s"
  shows "word_of_int (src_port s - 1) = q \<longleftrightarrow> src_port s = uint q + 1"
proof -
  have "0 \<le> src_port s - 1" "src_port s - 1 \<le> 65535" using assms(1) by (simp_all add: ports_ok_def)
  from word_of_uint_port [OF this, of q] show ?thesis by auto
qed

section \<open>Properties\<close>

text \<open>
  C13: Two threads. However the phases of the two threads interleave, while the port counter stays within
  16 bits the node stays well-formed and the ports in use keep their owners. A probe whose port has been
  taken leaves as exactly the probe of that port, which is nobody's; a packet whose port has been taken
  leaves with that port, which is its sender's: so the two ports differ. But the time of the probe is
  noted under its own port exactly if no port has been taken since its own.
\<close>

theorem threads_share_ports:
  assumes "wf_node s0" "ports_ok s0" "thread_steps (s0, Idle, Waiting) (s, p, f)" "src_port s \<le> 65536"
  shows "wf_node s \<and> ports_ok s \<and> (\<forall>q\<in>used_ports s0. owner_of s q = owner_of s0 q)
    \<and> (\<forall>is_dsa x hop d peer. p = Taken is_dsa x hop d \<longrightarrow> hop_mac s (ii_uint hop) = Some peer \<longrightarrow>
        (\<exists>q s'. q \<in> used_ports s \<and> owner_of s q = None \<and> probe_end p s = Some s'
          \<and> sent_frames s' = sent_frames s @
              [(probe_bytes s (ip_into_uint x) (ii_uint hop) peer q is_dsa, int (hop_iface s (ii_uint hop)))]
          \<and> (\<exists>r. sent_times s' = (sent_times s)(r \<mapsto> now s) \<and> (r = q \<longleftrightarrow> src_port s = uint q + 1))))
    \<and> (\<forall>n d port m. f = Ported n d port m \<longrightarrow>
        (\<exists>q s' m'. q \<in> used_ports s \<and> owner_of s q = Some (the (load32 d 26), the (load16 d 34)) \<and> forward_end f s = Some s'
          \<and> sent_frames s' = sent_frames s @ [(m', 1)] \<and> load16 m' 34 = Some (htons q)
          \<and> load32 m' 26 = Some (htonl (if_ip (iface s ! 1))) \<and> same_outside (nat_bytes 26 34) d m'))"
proof -
  have g: "good (s, p, f)" "keeps s0 s"
    using thread_steps_good [OF assms(3)] assms(1,2,4) by simp_all
  then have w: "wf_node s" "ports_ok s" by simp_all
  moreover have "\<forall>q\<in>used_ports s0. owner_of s q = owner_of s0 q"
    using g(2) assms(2,4) by (simp add: keeps_def)
  moreover have "\<exists>q s'. q \<in> used_ports s \<and> owner_of s q = None \<and> probe_end p s = Some s'
      \<and> sent_frames s' = sent_frames s @
          [(probe_bytes s (ip_into_uint x) (ii_uint hop) peer q is_dsa, int (hop_iface s (ii_uint hop)))]
      \<and> (\<exists>r. sent_times s' = (sent_times s)(r \<mapsto> now s) \<and> (r = q \<longleftrightarrow> src_port s = uint q + 1))"
    if "p = Taken is_dsa x hop d" "hop_mac s (ii_uint hop) = Some peer" for is_dsa x hop d peer
  proof -
    have ok: "probing_ok s (Taken is_dsa x hop d)" using g(1) that(1) by simp
    show ?thesis
      by (rule probe_end_eq [OF w(1) ok that(2)]) (use last_port [OF w(2)] that(1) in blast)
  qed
  moreover have "\<exists>q s' m'. q \<in> used_ports s \<and> owner_of s q = Some (the (load32 d 26), the (load16 d 34))
      \<and> forward_end f s = Some s' \<and> sent_frames s' = sent_frames s @ [(m', 1)] \<and> load16 m' 34 = Some (htons q)
      \<and> load32 m' 26 = Some (htonl (if_ip (iface s ! 1))) \<and> same_outside (nat_bytes 26 34) d m'"
    if "f = Ported n d port m" for n d port m
  proof -
    have ok: "forwarding_ok s (Ported n d port m)" using g(1) that by simp
    show ?thesis
      by (rule forward_end_eq [OF w(1) ok]) (use that in \<open>auto simp: sender_of_def\<close>)
  qed
  ultimately show ?thesis by blast
qed

text \<open>
  A run of the sample node in which the lock goes first to a probe of its own, then to a packet of a peer,
  and the probe ends last: it bears the port 8000, and its time is noted under another port.
\<close>

lemma sample_interleaving:
  obtains s x hop d n d' port m where
    "thread_steps (sample_node, Idle, Waiting) (s, Taken True x hop d, Ported n d' port m)"
    "src_port s = 8002" "ii_uint hop = ii_uint (ip_gateway s)" "owner_of s 8001 \<noteq> None"
proof -
  let ?x = "''8.8.4.4''" and ?hop = "ip_next_hop_rtt (forwarding_table sample_server)"
  have "ip_into_uint ?x = 0x08080404" by code_simp
  then have id: "id_of (ip_into_uint ?x) sample_node = (0, sample_node)"
    by (simp add: id_of_def sample_node_def sm_start_def)
  obtain d where d: "probe_headers (ip_into_uint ?x) (ii_uint ?hop) True sample_node = Some d"
    using probe_headers_eq [OF wf_sample_node] by blast
  have b: "probe_begin True ?x sample_node = Some (Headers True ?x ?hop d, sample_node)"
    using d by (simp add: probe_begin_def id)
  have v: "is_server_valid sample_node ?x" by (simp add: is_server_valid_def sample_server_def)
  let ?s1 = "sample_node\<lparr>src_port := 8001\<rparr>"
  obtain e u0 u1 u6 u7 y where h: "length e = 12" "d = (e @ be16 ETHERTYPE_IP
      @ ip_packet 32 IPPROTO_UDP (if_ip (iface sample_node ! hop_iface sample_node (ii_uint ?hop))) (ip_into_uint ?x))
      @ [u0, u1] @ be16 (probe_port True) @ be16 12 @ [u6, u7] @ y"
    using probe_begin_ok [OF b wf_sample_node] by auto
  have "take_port d sample_node = Some ((e @ be16 ETHERTYPE_IP
      @ ip_packet 32 IPPROTO_UDP (if_ip (iface sample_node ! hop_iface sample_node (ii_uint ?hop))) (ip_into_uint ?x))
      @ udp_bytes (word_of_int (src_port sample_node)) (probe_port True) 12 @ y, sample_node\<lparr>src_port := src_port sample_node + 1\<rparr>)"
    unfolding h(2) by (rule take_port_eq) (simp_all add: h(1))
  then obtain d1 where l: "probe_locked (Headers True ?x ?hop d) sample_node = Some (Taken True ?x ?hop d1, ?s1)"
    by simp
  let ?s2 = "frame_logged (Frame_new 46 sample_packet) 0 ?s1"
  have w: "wf_node ?s1" "wf_node ?s2" using wf_sample_node by simp_all
  have p: "load16 sample_packet (offset_of Udp_dst) = Some (htons 1000)" by code_simp
  obtain m where m: "forward_begin 46 sample_packet 1000 ?s2 = Some (Copied 46 sample_packet 1000 m)"
    "copied_ok ?s2 46 sample_packet m"
    using wf_node_eth(1) [OF w(2), of sample_packet] wf_node_iface(1) [OF w(2), of 1] sample_packet
    by (auto simp: forward_begin_def copied_ok_def)
  then have len: "length m = 46" using same_outside_length sample_packet(1) by (fastforce simp: copied_ok_def)
  obtain ip sp where ld: "load32 m 26 = Some ip" "load16 m 34 = Some sp"
    using load_defined(1) [of 26 m] load_defined(2) [of 34 m] len by auto
  obtain s3 where s3: "alloc_port (Some (ip, sp)) ?s2 = Some (word_of_int (src_port ?s2), s3)"
    using alloc_port_eq [of ?s2] by auto
  note a = alloc_port_owner(2) [OF s3]
  obtain m1 where "store16 m 34 (htons (word_of_int (src_port ?s2))) = Some m1"
    using same_outside_store16 [of 34 m "{34..<36}"] len by auto
  then have f: "forward_locked (Copied 46 sample_packet 1000 m) ?s2 = Some (Ported 46 sample_packet 1000 m1, s3)"
    using ld s3 by simp
  have run: "thread_steps (sample_node, Idle, Waiting) (s3, Taken True ?x ?hop d1, Ported 46 sample_packet 1000 m1)"
    by (rule thread_steps.more [OF thread_steps.more [OF thread_steps.more [OF thread_steps.more [OF thread_steps.start
      thread_step.begins [OF v b]] thread_step.locks [OF l]]
      thread_step.copies [OF sample_udp_frames(1) p _ HOL.refl m(1)]] thread_step.ports [OF f]]) simp
  have "owner_of s3 8001 \<noteq> None" by (simp add: a owner_of_def)
  moreover have "ii_uint ?hop = ii_uint (ip_gateway s3)"
    by (simp add: a) (simp add: sample_node_def sample_server_def)
  moreover have "src_port s3 = 8002" by (simp add: a)
  ultimately show thesis using that run by blast
qed

theorem threads_share_ports_witness:
  "\<exists>s p f s' q r m. thread_steps (sample_node, Idle, Waiting) (s, p, f) \<and> probe_end p s = Some s'
    \<and> sent_frames s' = sent_frames s @ [m] \<and> q \<in> used_ports s \<and> owner_of s q = None
    \<and> sent_times s' = (sent_times s)(r \<mapsto> now s) \<and> r \<noteq> q \<and> forward_end f s \<noteq> None"
proof -
  have ok: "ports_ok sample_node" by (simp add: ports_ok_def sample_node_def sm_start_def)
  obtain s x hop d n d' port m where s: "thread_steps (sample_node, Idle, Waiting) (s, Taken True x hop d, Ported n d' port m)"
    "src_port s = 8002" "ii_uint hop = ii_uint (ip_gateway s)" "owner_of s 8001 \<noteq> None"
    by (rule sample_interleaving)
  have h: "hop_mac s (ii_uint hop) = Some (gateway_mac s)" by (simp add: hop_mac_def s(3))
  note t = threads_share_ports [OF wf_sample_node ok s(1)]
  obtain q s' r where q: "q \<in> used_ports s" "owner_of s q = None" "probe_end (Taken True x hop d) s = Some s'"
    "sent_frames s' = sent_frames s @
      [(probe_bytes s (ip_into_uint x) (ii_uint hop) (gateway_mac s) q True, int (hop_iface s (ii_uint hop)))]"
    "sent_times s' = (sent_times s)(r \<mapsto> now s)" "r = q \<longleftrightarrow> src_port s = uint q + 1"
    using t h s(2) by fastforce
  have "uint q = 8001 \<longleftrightarrow> q = 8001" for q :: u16 using word_of_uint_port [of 8001 q] by auto
  then have "r \<noteq> q" using q(2,6) s(2,4) by auto
  moreover have "forward_end (Ported n d' port m) s \<noteq> None" using t s(2) by fastforce
  ultimately show ?thesis using s(1) q by (intro exI conjI) (assumption | simp)+
qed

end
