(* ===== verification/Spec2Isabelle.thy ===== *)
theory Spec2Isabelle
  imports Prelude Memory Checksum Double Addr Machine Packet Routes Stats Sending Advert Validation Forwarding Report Node Transport Outgoing Negotiation Session EventLoop Rounds Options Simulation Overlay Frames Delivery Paths Tables Pinging Learned Threads
begin

text \<open>
  A model of the overlay node of this repository, and what makes it correct.

  The program. A node of a resilient overlay network runs inside the Partov network emulator.
  \<open>src/base\<close> is the emulator's client: it parses the command line, connects to the server, learns the
  interfaces of the node and then moves frames between the server and the node. \<open>src/user\<close> is the
  node: it pings a list of servers through its gateway, keeps statistics on round-trip times and
  losses, announces what it measured to the other overlay nodes, learns from their announcements
  which node is the best next hop to each server by delay and by loss, and sends probes (\<open>dsa\<close>:
  delay-sensitive, \<open>lsa\<close>: loss-sensitive) along the learned routes. A node that receives such a probe
  from a peer forwards it to the gateway under a port of its own, and sends the reply back.

  Conventions. A result \<open>None\<close> is undefined behaviour of C++ (an access outside an object, a null
  pointer, signed overflow). Machine integers are words of their width, \<open>int\<close> is \<open>int\<close> with its
  overflow written out, buffers are byte lists read and written at offsets, frames carry the memory
  from their data pointer to the end of its buffer. The host is little-endian with 32-bit \<open>int\<close> and
  64-bit \<open>size_t\<close>; \<open>time_point\<close>s are nanoseconds of a clock that the state carries, read once per
  call of \<open>now\<close>; fresh memory holds arbitrary bytes (\<open>heap\<close>).

  The theories, in the order of their imports:
    \<^item> Prelude: words, byte order, decimal text, loops that may fail.
    \<^item> Memory: loads, stores and \<open>memcpy\<close> on byte buffers; the locale \<open>byte_codec\<close>, interpreted for the
      host and network order of 16 and 32 bits.
    \<^item> Checksum: \<open>check_sum_ip\<close>, \<open>check_sum_icmp\<close> (user/sm.cpp) against the checksum of RFC 1071.
    \<^item> Double: the double-precision arithmetic of the loss rates, by explicit rounding of fractions.
    \<^item> Addr: \<open>ip_into_uint\<close>, \<open>ipUint_into_str\<close>, \<open>mac_into_byte\<close> (user/sm.cpp), \<open>parseIP\<close>, \<open>parsePort\<close>
      (base/cf.cpp).
    \<^item> Machine: \<open>Interface\<close>, \<open>Machine\<close>, \<open>Frame\<close> (base/).
    \<^item> Packet: the packed headers of user/sr_protocol.h and user/my_structs.h as bytes at offsets,
      \<open>is_valid_packet\<close> and the construction of headers.
    \<^item> Servers: the node's state \<open>sm\<close> (the globals of user/sm.cpp with the interfaces, the clock, the
      frames sent and the console), the server table, ping statistics and route learning.
    \<^item> Routes: learned routes are optimal; the locale \<open>route_metric\<close> gives it once for the two metrics.
    \<^item> Stats: counters, loss rates and the detection of dead servers.
    \<^item> Sending: ICMP, announcement, DSA and LSA frames byte by byte, and the ports they take.
    \<^item> Advert: announcements, what is sent and what a receiver reads from it.
    \<^item> Validation: \<open>is_valid_packet\<close> against a specification of the frames to accept.
    \<^item> Forwarding: \<open>processFrame\<close> and the port translation; the locale \<open>port_table\<close> states what the
      translation needs of the port allocation.
    \<^item> Report: the printed tables.
    \<^item> Node: \<open>initialize\<close>, the commands of \<open>run\<close>, and the step relation \<open>node_step\<close> that interleaves
      commands with received frames. The relation \<open>evolves\<close>, kept by every operation, carries the
      invariants.

  The client framework (src/base/cf.cpp, src/base/main.cpp):
    \<^item> Transport: the state \<open>cf\<close> of the framework; \<open>sendOrReceive\<close> as loops over a script of what the
      socket does, the receiving one derived from its rounds by \<open>while_option\<close>. Results are sums: \<open>Inl\<close> for undefined behaviour, a call that never returns or the end
      of the process. The relation \<open>agree\<close> says that runs on differently cut streams end alike.
    \<^item> Outgoing: \<open>sendFrame\<close>, \<open>notifyChangeOf...\<close>, \<open>Interface::setIp\<close>, \<open>setMask\<close>, \<open>Machine::sendFrame\<close>.
    \<^item> Negotiation: the \<open>do...Negotiations\<close> functions on the one buffer of 1524 bytes.
    \<^item> Session: what the negotiation achieves with a server that follows the protocol, and where the
      buffer is left.
    \<^item> EventLoop: connecting, \<open>startSimulation\<close>, \<open>simulationEventLoop\<close>, \<open>recoverSimulation\<close>;
      \<open>processFrame\<close> is a parameter, as it is a virtual method. The relay of frames between nodes.
    \<^item> Rounds: which notices of the server make a round of the event loop undefined behaviour.
    \<^item> Options: \<open>parseArguments\<close> and the constructor.
    \<^item> Simulation: \<open>runCF\<close> and \<open>main\<close>; the locale \<open>simulated_machine\<close> carries an invariant of a
      machine through the event loop and is interpreted for the overlay node, so that the node's own
      theorems hold of every state it has inside the framework. \<open>main\<close> uses the singleton and gives
      what is released at the end.

  Several nodes:
    \<^item> Overlay: a probe from one node through a peer to the Internet, and its answer back. The single carry
      fold of \<open>check_sum_ip\<close> decides which probes the peer accepts.
    \<^item> Frames: what every frame sent satisfies; the relation \<open>emits\<close> adds it to \<open>evolves\<close>, and every
      operation is shown to keep it.
    \<^item> Delivery: nodes on top of the framework: announcements and probes from the frame a node sends, over
      its framework, the server and the event loop of another node, to what that node does.
    \<^item> Paths: what announcements are for: a peer's announcement moves the probes of a node to the peer
      exactly if the peer is faster, and the peer forwards them. Extends the locale \<open>route_metric\<close>.
    \<^item> Tables: what every operation keeps of the server table: \<open>tracked\<close> adds to \<open>evolves\<close> that only a ping
      changes sequence numbers and sending times and that the addresses agree with their texts;
      \<open>quiet_steps\<close> are runs without a ping.
    \<^item> Pinging: from the echo request on the public link to the statistics after the server's answer.
    \<^item> Learned: why the route learned for a server that is not in the configuration is not used.
    \<^item> Threads: the two threads of a node at the grain of \<open>port_for_nat_mutex\<close>: \<open>thread_step\<close> interleaves the
      phases before, under and after the lock; without interruption they are the operations of Node.

  Bounds. \<open>MAX_SERVER_NUMBERS\<close> is 1000; ports are 16-bit while the counter \<open>src_port\<close> is an \<open>int\<close>, so
  the statements on the port translation ask for a counter up to 65536. The loop of \<open>run\<close> has no end:
  \<open>run_rounds n\<close> gives its first \<open>n\<close> rounds.

  The event loop is total: a round that goes on has consumed bytes of the finite script; a
  connection that stays open and silent is the result \<open>Inl Forever\<close>.

  Not modelled: the text of \<open>usage\<close>, the destructors of machines and frames, which only free memory; the
  mutexes and the condition variable of the two threads beyond the order they enforce (the calls that lock and
  unlock the mutex of a copied server entry, in \<open>update_learning_table\<close>, are taken to return, also for the
  entries read from announcements, whose mutex is not initialised); signals that arrive by themselves; failures of \<open>new\<close>; the scripts. A \<open>send\<close>
  that accepts nothing forever is not among the scripts. The frames a node sends are first a list of
  the node (\<open>sent_frames\<close>) and go to the framework with the next frame handled, in their order. The
  contents of \<open>cerr\<close> lines stand in the console list with those of \<open>cout\<close>. Operations of the two
  threads interleave as a whole in \<open>node_step\<close>, and in phases around the port mutex in \<open>thread_step\<close>;
  unlocked accesses to the server table from both threads are not interleaved more finely than that.
\<close>

end
